(* ===== verification/Pv_Prelude.thy ===== *)
theory Pv_Prelude
  imports Main "HOL-Library.Word"
begin

text \<open>
  Shared vocabulary of the development: machine integers, kernel error codes, C character
  arrays, and byte-addressed shared memory with little-endian loads and stores.
\<close>

unbundle bit_operations_syntax

named_theorems mem_simps \<open>loads after stores, and the byte frame of a store\<close>
named_theorems cstr_simps \<open>C character arrays\<close>

subsection \<open>Machine integers\<close>

type_synonym u8 = "8 word"
type_synonym u16 = "16 word"
type_synonym u32 = "32 word"
type_synonym u64 = "64 word"

text \<open>
  A signed value is kept as its bit pattern; \<open>sint\<close> reads it.
\<close>

type_synonym s32 = "32 word"
type_synonym s64 = "64 word"

text \<open>
  Kernel error codes. A function that returns \<open>-EXXX\<close> returns \<open>Inl EXXX\<close>; the
  constructor \<open>ECODE\<close> carries a code that a kernel call outside this repository returned
  and that the code under verification passes on unchanged.
\<close>

datatype errno =
    ENODEV | EINVAL | ENOMEM | ENOSPC | EFAULT | EOPNOTSUPP | EBUSY | EIO | ENOENT | EEXIST | E2BIG
  | ECODE int

subsection \<open>Little-endian memory\<close>

text \<open>
  A mapped region is a function from byte offsets to bytes together with its size in bytes,
  kept by its owner. The unchecked operations \<open>store_le\<close> and \<open>load_le\<close> move the
  \<open>n\<close> low bytes of a 64-bit value. The checked ones return \<open>None\<close> when the access
  leaves the region: that is a fault of the running kernel, not an error the code reports.
\<close>

type_synonym mem = "nat \<Rightarrow> u8"

definition store_le :: "nat \<Rightarrow> mem \<Rightarrow> nat \<Rightarrow> u64 \<Rightarrow> mem" where
  "store_le n m a v = (\<lambda>x. if a \<le> x \<and> x < a + n then ucast (drop_bit (8 * (x - a)) v) else m x)"

fun load_le :: "nat \<Rightarrow> mem \<Rightarrow> nat \<Rightarrow> u64" where
  "load_le 0 m a = 0"
| "load_le (Suc n) m a = (ucast (m a) OR push_bit 8 (load_le n m (Suc a)))"

definition store_chk :: "nat \<Rightarrow> nat \<Rightarrow> mem \<Rightarrow> nat \<Rightarrow> u64 \<Rightarrow> mem option" where
  "store_chk sz n m a v = (if a + n \<le> sz then Some (store_le n m a v) else None)"

definition load_chk :: "nat \<Rightarrow> nat \<Rightarrow> mem \<Rightarrow> nat \<Rightarrow> u64 option" where
  "load_chk sz n m a = (if a + n \<le> sz then Some (load_le n m a) else None)"

subsection \<open>C character arrays\<close>

text \<open>
  A C string argument is a HOL string without NUL characters; a \<open>char[n]\<close> array is a list
  of exactly \<open>n\<close> characters. \<open>fill_buf n s\<close> is the content of a zeroed \<open>char[n]\<close>
  array after \<open>strncpy(buf, s, n - 1)\<close>, and equally after \<open>snprintf(buf, n, "%s", s)\<close>:
  at most \<open>n - 1\<close> characters of \<open>s\<close>, then NULs. \<open>c_str\<close> reads an array back up to
  its first NUL.
\<close>

abbreviation nul :: char where "nul \<equiv> CHR 0x00"

definition c_string :: "string \<Rightarrow> bool" where
  "c_string s \<longleftrightarrow> nul \<notin> set s"

definition fill_buf :: "nat \<Rightarrow> string \<Rightarrow> string" where
  "fill_buf n s = take (n - 1) s @ replicate (n - length (take (n - 1) s)) nul"

definition c_str :: "string \<Rightarrow> string" where
  "c_str buf = takeWhile (\<lambda>c. c \<noteq> nul) buf"

subsection \<open>Lemmas on machine integers\<close>

lemma unat_add_one: "unat (w + 1) = (unat w + 1) mod 2 ^ LENGTH('a)" for w :: "'a::len word"
  by (simp add: unat_word_ariths)

lemma unat_add_one_no_wrap:
  "unat w + 1 < 2 ^ LENGTH('a) \<Longrightarrow> unat (w + 1) = unat w + 1" for w :: "'a::len word"
  by (simp add: unat_add_one)

lemma sint_add_one:
  fixes w :: s64
  assumes "sint w < 2 ^ 63 - 1"
  shows "sint (w + 1) = sint w + 1"
  using assms sint_ge [of w] by (simp add: signed_take_bit_int_eq_self sint_word_ariths)

lemma sint_sub_one:
  fixes w :: s64
  assumes "0 < sint w"
  shows "sint (w - 1) = sint w - 1"
  using assms sint_lt [of w] by (simp add: signed_take_bit_int_eq_self sint_word_ariths)

lemma sint_eq_uint_small: "uint w < 2 ^ 63 \<Longrightarrow> sint w = uint w" for w :: s64
  using order_trans [OF _ uint_ge_0 [of w], of "- (2 ^ 63)"]
  by (simp add: signed_take_bit_int_eq_self_iff sint_uint)

lemma sint_nonneg_uint: "0 \<le> sint w \<Longrightarrow> uint w = sint w" for w :: s64
  using sint_lt [of w] by (simp add: uint_sint take_bit_int_eq_self_iff)

lemma sint_of_nat_s32: "k < 2 ^ 31 \<Longrightarrow> sint (of_nat k :: s32) = int k"
  by (simp add: signed_of_nat signed_take_bit_int_eq_self)

lemma scast_of_nat_s32: "k < 2 ^ 31 \<Longrightarrow> scast (of_nat k :: s32) = (of_nat k :: u64)"
  using sint_of_nat_s32 [of k] by (metis of_int_of_nat_eq scast_eq)

lemma unat_of_nat_u64: "k < 2 ^ 64 \<Longrightarrow> unat (of_nat k :: u64) = k"
  by (simp add: unsigned_of_nat take_bit_nat_eq_self)

lemma unat_of_nat_u32: "k < 2 ^ 32 \<Longrightarrow> unat (of_nat k :: u32) = k"
  by (simp add: unsigned_of_nat take_bit_nat_eq_self)

subsection \<open>Lemmas on memory\<close>

lemma load_le_store_le_aux:
  "j + k = n \<Longrightarrow> n \<le> 8 \<Longrightarrow>
    load_le k (store_le n m a v) (a + j) = take_bit (8 * k) (drop_bit (8 * j) v)"
proof (induction k arbitrary: j)
  case 0
  then show ?case by simp
next
  case (Suc k)
  have ih: "load_le k (store_le n m a v) (Suc (a + j)) = take_bit (8 * k) (drop_bit (8 * Suc j) v)"
    using Suc.IH [of "Suc j"] Suc.prems by simp
  have byte: "store_le n m a v (a + j) = ucast (drop_bit (8 * j) v)"
    using Suc.prems by (simp add: store_le_def)
  show ?case
    unfolding load_le.simps ih byte
    by (rule bit_word_eqI)
      (auto simp: bit_simps algebra_simps)
qed

lemma load_le_store_le_same [mem_simps]:
  "n \<le> 8 \<Longrightarrow> load_le n (store_le n m a v) a = take_bit (8 * n) v"
  using load_le_store_le_aux [of 0 n n m a v] by simp

lemma load_le_8_store_le_same [mem_simps]: "load_le 8 (store_le 8 m a v) a = v"
  using load_le_store_le_same [of 8 m a v] by (simp add: take_bit_length_eq [where 'a = 64, simplified])

lemma load_le_cong:
  "(\<And>x. a \<le> x \<Longrightarrow> x < a + n \<Longrightarrow> m x = m' x) \<Longrightarrow> load_le n m a = load_le n m' a"
proof (induction n arbitrary: a)
  case 0
  then show ?case by simp
next
  case (Suc n)
  have "load_le n m (Suc a) = load_le n m' (Suc a)"
    by (rule Suc.IH) (simp add: Suc.prems)
  with Suc.prems [of a] show ?case by simp
qed

lemma load_le_store_le_other [mem_simps]:
  "b + k \<le> a \<or> a + n \<le> b \<Longrightarrow> load_le k (store_le n m a v) b = load_le k m b"
  by (rule load_le_cong) (auto simp: store_le_def)

lemma store_le_frame [mem_simps]: "x < a \<or> a + n \<le> x \<Longrightarrow> store_le n m a v x = m x"
  by (auto simp: store_le_def)

lemma load_le_zero [mem_simps]: "(\<And>x. a \<le> x \<Longrightarrow> x < a + n \<Longrightarrow> m x = 0) \<Longrightarrow> load_le n m a = 0"
proof (induction n arbitrary: a)
  case 0
  then show ?case by simp
next
  case (Suc n)
  have "load_le n m (Suc a) = 0"
    by (rule Suc.IH) (simp add: Suc.prems)
  with Suc.prems [of a] show ?case by simp
qed

lemma load_chk_Some [mem_simps]: "a + n \<le> sz \<Longrightarrow> load_chk sz n m a = Some (load_le n m a)"
  by (simp add: load_chk_def)

lemma store_chk_Some [mem_simps]: "a + n \<le> sz \<Longrightarrow> store_chk sz n m a v = Some (store_le n m a v)"
  by (simp add: store_chk_def)

subsection \<open>Lemmas on character arrays\<close>

lemma length_fill_buf [simp]: "0 < n \<Longrightarrow> length (fill_buf n s) = n"
  by (simp add: fill_buf_def)

lemma c_string_append [cstr_simps]: "c_string (s @ t) \<longleftrightarrow> c_string s \<and> c_string t"
  by (auto simp: c_string_def)

lemma c_string_take [cstr_simps]: "c_string s \<Longrightarrow> c_string (take n s)"
  by (auto simp: c_string_def dest: in_set_takeD)

lemma takeWhile_c_string:
  "c_string s \<Longrightarrow> takeWhile (\<lambda>c. c \<noteq> nul) (s @ replicate k nul) = s"
  by (induction s) (auto simp: c_string_def takeWhile_eq_Nil_iff)

lemma c_str_fill_buf [cstr_simps]: "c_string s \<Longrightarrow> c_str (fill_buf n s) = take (n - 1) s"
  unfolding c_str_def fill_buf_def by (rule takeWhile_c_string) (rule c_string_take)

text \<open>Two zero-padded arrays are equal exactly when the strings they hold are.\<close>

lemma fill_buf_inject:
  assumes "c_string s" and "c_string t"
  shows "fill_buf n s = fill_buf n t \<longleftrightarrow> take (n - 1) s = take (n - 1) t"
proof
  assume "fill_buf n s = fill_buf n t"
  then have "c_str (fill_buf n s) = c_str (fill_buf n t)" by simp
  then show "take (n - 1) s = take (n - 1) t" using assms by (simp add: cstr_simps)
next
  assume "take (n - 1) s = take (n - 1) t"
  then show "fill_buf n s = fill_buf n t" by (simp add: fill_buf_def)
qed

end
