(* ===== verification/Pvsched_Abi.thy ===== *)
theory Pvsched_Abi
  imports Pv_Prelude "HOL-Library.Monad_Syntax"
begin

text \<open>
  The shared-memory contract of \<^verbatim>\<open>include/pvsched.h\<close> and
  \<^verbatim>\<open>include/pvsched_shmem.h\<close>: message slots, the metadata header and its byte
  layout, the registration request. The page size is the build parameter
  \<open>PVSCHED_IVSHMEM_PAGE_SIZE\<close>; every definition that depends on it takes it as \<open>pg\<close>.
\<close>

named_theorems abi_defs \<open>constants of the shared-memory layout\<close>

subsection \<open>Messages and slots (pvsched.h)\<close>

record hg_message =
  hg_msg :: u64
  hg_padding :: "u64 list"

record gh_message =
  gh_msg :: u64
  gh_padding :: "u64 list"

text \<open>The C initialiser \<open>= {}\<close>.\<close>

definition hg_message_zero :: hg_message where
  "hg_message_zero = \<lparr>hg_msg = 0, hg_padding = replicate 7 0\<rparr>"

definition gh_message_zero :: gh_message where
  "gh_message_zero = \<lparr>gh_msg = 0, gh_padding = replicate 7 0\<rparr>"

definition HOST_IVSHMEM_MSG_SIZE :: nat where
  [abi_defs]: "HOST_IVSHMEM_MSG_SIZE = 8 + 7 * 8"

definition GUEST_IVSHMEM_MSG_SIZE :: nat where
  [abi_defs]: "GUEST_IVSHMEM_MSG_SIZE = 8 + 7 * 8"

definition NR_HOST_IVSHMEM_MSGS :: "nat \<Rightarrow> nat" where
  [abi_defs]: "NR_HOST_IVSHMEM_MSGS pg = pg div HOST_IVSHMEM_MSG_SIZE"

definition NR_GUEST_IVSHMEM_MSGS :: "nat \<Rightarrow> nat" where
  [abi_defs]: "NR_GUEST_IVSHMEM_MSGS pg = pg div GUEST_IVSHMEM_MSG_SIZE"

definition H2G_LATEST_SLOT :: nat where
  [abi_defs]: "H2G_LATEST_SLOT = 0"

definition H2G_FIRST_HISTORY_SLOT :: nat where
  [abi_defs]: "H2G_FIRST_HISTORY_SLOT = 1"

text \<open>
  The page sizes Linux runs with: at least 4 KiB, at most 64 KiB, and a whole number of message
  slots, which both modules check when they are loaded.
\<close>

definition page_size_ok :: "nat \<Rightarrow> bool" where
  "page_size_ok pg \<longleftrightarrow> 4096 \<le> pg \<and> pg \<le> 65536 \<and> pg mod HOST_IVSHMEM_MSG_SIZE = 0"

subsection \<open>Metadata header and registration request (pvsched\_shmem.h)\<close>

definition PVSCHED_MAGIC :: u32 where
  "PVSCHED_MAGIC = 0x4856534D"

definition PVSCHED_VERSION :: u32 where
  "PVSCHED_VERSION = 1"

definition MAX_NB_DEVICES :: nat where
  [abi_defs]: "MAX_NB_DEVICES = 256"

definition HOST_NB_METADATA_PAGES :: nat where
  [abi_defs]: "HOST_NB_METADATA_PAGES = 1"

record ivshmem_header =
  magic :: u32
  version :: u32
  latest_slot :: u32
  h2g_page_offset :: u64
  h2g_page_size :: u64
  g2h_page_offset :: u64
  g2h_page_size :: u64

record vm_reg_req =
  nb_cpu :: u32
  backend_name :: u64
  vm_id :: s32
  req_size :: u64

text \<open>
  The C layout of the header: three 32-bit words at 0, 4 and 8, four bytes of alignment
  padding, four 64-bit words from 16 on; 48 bytes in all. Writing the fields through a
  pointer to the start of the region leaves the padding untouched; copying the structure out
  reads each field at its offset.
\<close>

definition IVSHMEM_HEADER_SIZE :: nat where
  [abi_defs]: "IVSHMEM_HEADER_SIZE = 48"

definition store_header :: "nat \<Rightarrow> mem \<Rightarrow> ivshmem_header \<Rightarrow> mem option" where
  "store_header sz m0 h = do {
     m1 \<leftarrow> store_chk sz 4 m0 0 (ucast (magic h));
     m2 \<leftarrow> store_chk sz 4 m1 4 (ucast (version h));
     m3 \<leftarrow> store_chk sz 4 m2 8 (ucast (latest_slot h));
     m4 \<leftarrow> store_chk sz 8 m3 16 (h2g_page_offset h);
     m5 \<leftarrow> store_chk sz 8 m4 24 (h2g_page_size h);
     m6 \<leftarrow> store_chk sz 8 m5 32 (g2h_page_offset h);
     store_chk sz 8 m6 40 (g2h_page_size h)
   }"

definition load_header :: "nat \<Rightarrow> mem \<Rightarrow> ivshmem_header option" where
  "load_header sz m =
     (if IVSHMEM_HEADER_SIZE \<le> sz
      then Some \<lparr>magic = ucast (load_le 4 m 0), version = ucast (load_le 4 m 4),
             latest_slot = ucast (load_le 4 m 8),
             h2g_page_offset = load_le 8 m 16, h2g_page_size = load_le 8 m 24,
             g2h_page_offset = load_le 8 m 32, g2h_page_size = load_le 8 m 40\<rparr>
      else None)"

subsection \<open>Lemmas\<close>

lemma page_size_okD:
  assumes "page_size_ok pg"
  shows "4096 \<le> pg" and "pg \<le> 65536" and "NR_HOST_IVSHMEM_MSGS pg * 64 = pg"
    and "64 \<le> NR_HOST_IVSHMEM_MSGS pg" and "NR_HOST_IVSHMEM_MSGS pg \<le> 1024"
proof -
  have m: "pg mod 64 = 0" using assms by (simp add: page_size_ok_def abi_defs)
  show "4096 \<le> pg" and "pg \<le> 65536" using assms by (simp_all add: page_size_ok_def)
  then show "NR_HOST_IVSHMEM_MSGS pg * 64 = pg" and "64 \<le> NR_HOST_IVSHMEM_MSGS pg"
    and "NR_HOST_IVSHMEM_MSGS pg \<le> 1024"
    using m by (auto simp: abi_defs)
qed

lemma page_size_ok_4096 [simp]: "page_size_ok 4096"
  by (simp add: page_size_ok_def abi_defs)

lemma NR_GUEST_eq_HOST: "NR_GUEST_IVSHMEM_MSGS pg = NR_HOST_IVSHMEM_MSGS pg"
  by (simp add: abi_defs)

text \<open>A slot index below the number of slots stays inside its page.\<close>

lemma slot_in_page:
  assumes "page_size_ok pg" and "i < NR_HOST_IVSHMEM_MSGS pg"
  shows "i * 64 + 64 \<le> pg"
proof -
  have "(i + 1) * 64 \<le> NR_HOST_IVSHMEM_MSGS pg * 64"
    by (rule mult_le_mono1) (use assms(2) in simp)
  then show ?thesis using page_size_okD(3) [OF assms(1)] by simp
qed

lemma slots_disjoint: "i \<noteq> j \<Longrightarrow> i * 64 + 8 \<le> j * 64 \<or> j * 64 + 8 \<le> i * 64" for i j :: nat
  by arith

lemma ucast_take_bit_ucast: "ucast (take_bit 32 (ucast v :: u64)) = (v :: u32)"
  by (rule bit_word_eqI) (auto simp: bit_simps)

text \<open>The header that is stored is the header that is read back.\<close>

lemma load_header_store_header:
  assumes "store_header sz m h = Some m'"
  shows "load_header sz m' = Some h"
  using assms
  by (auto simp: store_header_def load_header_def store_chk_def abi_defs Option.bind_eq_Some_conv
      mem_simps ucast_take_bit_ucast split: if_splits)

lemma store_header_Some:
  "IVSHMEM_HEADER_SIZE \<le> sz \<Longrightarrow> \<exists>m'. store_header sz m h = Some m'"
  by (simp add: store_header_def store_chk_def abi_defs)

lemma store_header_frame:
  "store_header sz m h = Some m' \<Longrightarrow> IVSHMEM_HEADER_SIZE \<le> x \<Longrightarrow> m' x = m x"
  by (auto simp: store_header_def store_chk_def abi_defs Option.bind_eq_Some_conv mem_simps
      split: if_splits)

text \<open>Stores past the header leave it readable.\<close>

lemma load_header_cong:
  assumes "\<And>x. x < IVSHMEM_HEADER_SIZE \<Longrightarrow> m x = m' x"
  shows "load_header sz m = load_header sz m'"
proof -
  have "load_le n m a = load_le n m' a" if "a + n \<le> 48" for a n
    by (rule load_le_cong) (use that assms in \<open>auto simp: abi_defs\<close>)
  then show ?thesis by (simp add: load_header_def)
qed

end
