(* ===== verification/Slot_Channel.thy ===== *)
theory Slot_Channel
  imports Pv_Prelude
begin

text \<open>
  The interface between a periodic publisher (\<^verbatim>\<open>timer.bpf.c\<close>,
  \<^verbatim>\<open>h2g_msg_timer.bpf.c\<close>) and the page of message slots it writes through the kernel
  module: slot 0 mirrors the latest message, slots 1 to \<open>nr - 1\<close> are the history. The laws
  are what the publishers rely on; what any sequence of publications leaves in the page is
  proved once here.
\<close>

text \<open>Publishing a list of (slot, message) pairs in order.\<close>

fun publish_all :: "('s \<Rightarrow> u32 \<Rightarrow> u64 \<Rightarrow> 's option) \<Rightarrow> 's \<Rightarrow> (u32 \<times> u64) list \<Rightarrow> 's option" where
  "publish_all pub s [] = Some s"
| "publish_all pub s ((i, v) # xs) = Option.bind (pub s i v) (\<lambda>s'. publish_all pub s' xs)"

text \<open>The last message written to history slot \<open>j\<close>, or \<open>d\<close> when there is none.\<close>

fun last_write :: "nat \<Rightarrow> (u32 \<times> u64) list \<Rightarrow> u64 \<Rightarrow> u64" where
  "last_write j [] d = d"
| "last_write j ((i, v) # xs) d = last_write j xs (if unat i = j then v else d)"

locale slot_channel =
  fixes nr :: nat
    and ready :: "'s \<Rightarrow> bool"
    and publish :: "'s \<Rightarrow> u32 \<Rightarrow> u64 \<Rightarrow> 's option"
    and slot :: "'s \<Rightarrow> nat \<Rightarrow> u64"
  assumes publish_total: "ready s \<Longrightarrow> \<exists>s'. publish s i v = Some s' \<and> ready s'"
    and publish_latest: "ready s \<Longrightarrow> publish s i v = Some s' \<Longrightarrow> 0 < unat i \<Longrightarrow> unat i < nr \<Longrightarrow>
      slot s' 0 = v"
    and publish_history: "ready s \<Longrightarrow> publish s i v = Some s' \<Longrightarrow> 0 < unat i \<Longrightarrow> unat i < nr \<Longrightarrow>
      0 < j \<Longrightarrow> j < nr \<Longrightarrow> slot s' j = (if j = unat i then v else slot s j)"
    and publish_rejected: "ready s \<Longrightarrow> \<not> (0 < unat i \<and> unat i < nr) \<Longrightarrow> publish s i v = Some s"
begin

definition valid_slots :: "(u32 \<times> u64) list \<Rightarrow> bool" where
  "valid_slots xs \<longleftrightarrow> (\<forall>(i, v) \<in> set xs. 0 < unat i \<and> unat i < nr)"

lemma publish_all_total: "ready s \<Longrightarrow> \<exists>s'. publish_all publish s xs = Some s' \<and> ready s'"
proof (induction xs arbitrary: s)
  case Nil
  then show ?case by simp
next
  case (Cons x xs)
  obtain i v where x: "x = (i, v)" by (cases x)
  from publish_total [OF Cons.prems, of i v] obtain s' where "publish s i v = Some s'" "ready s'"
    by blast
  with Cons.IH [of s'] x show ?case by simp
qed

lemma publish_all_slots:
  assumes "ready s" and "publish_all publish s xs = Some s'" and "valid_slots xs"
  shows "slot s' 0 = (if xs = [] then slot s 0 else snd (last xs))"
    and "\<And>j. 0 < j \<Longrightarrow> j < nr \<Longrightarrow> slot s' j = last_write j xs (slot s j)"
proof -
  have "slot s' 0 = (if xs = [] then slot s 0 else snd (last xs)) \<and>
    (\<forall>j. 0 < j \<longrightarrow> j < nr \<longrightarrow> slot s' j = last_write j xs (slot s j))"
    using assms
  proof (induction xs arbitrary: s)
    case Nil
    then show ?case by simp
  next
    case (Cons x xs)
    obtain i v where x: "x = (i, v)" by (cases x)
    have i: "0 < unat i" "unat i < nr" and vs: "valid_slots xs"
      using Cons.prems(3) by (auto simp: valid_slots_def x)
    from publish_total [OF Cons.prems(1), of i v] obtain s1
      where s1: "publish s i v = Some s1" "ready s1" by blast
    with Cons.prems(2) have run: "publish_all publish s1 xs = Some s'" by (simp add: x)
    show ?case
      using Cons.IH [OF s1(2) run vs] publish_latest [OF Cons.prems(1) s1(1) i]
        publish_history [OF Cons.prems(1) s1(1) i]
      by (auto simp: x)
  qed
  then show "slot s' 0 = (if xs = [] then slot s 0 else snd (last xs))"
    and "\<And>j. 0 < j \<Longrightarrow> j < nr \<Longrightarrow> slot s' j = last_write j xs (slot s j)"
    by blast+
qed

end

end
