(* ===== verification/Host_Ivshmem.thy ===== *)
theory Host_Ivshmem
  imports Pvsched_Abi Slot_Channel "HOL-Library.Log_Nat"
begin

text \<open>
  The host kernel module \<^verbatim>\<open>pvsched-shmem/host/host_ivshmem.c\<close>: per-VM shared-memory
  backends, the registry that hands them out, the two functions exported to the eBPF programs,
  the file operations, and module load and unload. What the surrounding kernel answers
  (allocations, device registration, the power-of-two rounding) is the environment \<open>kenv\<close>.
  A result \<open>None\<close> of an operation is a memory access outside the backend.
\<close>

subsection \<open>State\<close>

record host_ivshmem_backend =
  be_cdev :: bool
  be_dev :: bool
  debugfs_dentry :: bool
  debugfs_blob_data :: bool
  debugfs_blob_size :: u64
  be_mem :: "mem option"
  be_size :: u64
  be_minor :: int

text \<open>
  \<open>orphans\<close> counts the kernel objects that nothing refers to any more because the structure
  that held them was freed (\<open>kfree_backend\<close> below).
\<close>

record host_registry =
  reg_cdev :: int
  reg_dev :: bool
  next_vm_id :: s32
  devices :: "nat \<Rightarrow> host_ivshmem_backend option"
  orphans :: nat

record host_module =
  chrdev_regions :: int
  class_live :: bool
  debugfs_root :: bool
  kfuncs_registered :: bool
  registry :: host_registry

text \<open>Answers of the kernel during one registration; \<open>None\<close> as an error means success.\<close>

record kenv =
  kzalloc_ok :: bool
  vmalloc_ok :: bool
  cdev_add_ret :: "errno option"
  device_create_ret :: "errno option"
  debugfs_create_blob_ok :: bool
  roundup_pow_of_two :: "u64 \<Rightarrow> u64"

definition HOST_METADATA_SIZE :: "nat \<Rightarrow> nat" where
  [abi_defs]: "HOST_METADATA_SIZE pg = pg"

definition HOST_IVSHMEM_H2G_OFFSET :: "nat \<Rightarrow> nat" where
  [abi_defs]: "HOST_IVSHMEM_H2G_OFFSET pg = HOST_METADATA_SIZE pg"

definition HOST_IVSHMEM_G2H_OFFSET :: "nat \<Rightarrow> nat" where
  [abi_defs]: "HOST_IVSHMEM_G2H_OFFSET pg = HOST_METADATA_SIZE pg + pg"

subsection \<open>Message access\<close>

definition host_ivshmem_h2g_write_msg ::
  "nat \<Rightarrow> host_ivshmem_backend option \<Rightarrow> u32 \<Rightarrow> hg_message option \<Rightarrow>
    (errno + host_ivshmem_backend) option" where
  "host_ivshmem_h2g_write_msg pg backend index hg =
     (case backend of None \<Rightarrow> Some (Inl ENODEV) | Some b \<Rightarrow>
     (case be_mem b of None \<Rightarrow> Some (Inl ENODEV) | Some m \<Rightarrow>
     (case hg of None \<Rightarrow> Some (Inl EINVAL) | Some g \<Rightarrow>
       if unat index = H2G_LATEST_SLOT \<or> NR_HOST_IVSHMEM_MSGS pg \<le> unat index
       then Some (Inl EINVAL)
       else
         let h2g_page = HOST_IVSHMEM_H2G_OFFSET pg;
             history = h2g_page + unat index * HOST_IVSHMEM_MSG_SIZE;
             latest = h2g_page + H2G_LATEST_SLOT * HOST_IVSHMEM_MSG_SIZE
         in do {
           m1 \<leftarrow> store_chk (unat (be_size b)) 8 m history (hg_msg g);
           m2 \<leftarrow> store_chk (unat (be_size b)) 8 m1 latest (hg_msg g);
           Some (Inr (b\<lparr>be_mem := Some m2\<rparr>))
         })))"

definition host_ivshmem_g2h_read ::
  "nat \<Rightarrow> host_ivshmem_backend option \<Rightarrow> u32 \<Rightarrow> gh_message option \<Rightarrow> (errno + gh_message) option" where
  "host_ivshmem_g2h_read pg backend index msg =
     (case backend of None \<Rightarrow> Some (Inl ENODEV) | Some b \<Rightarrow>
     (case be_mem b of None \<Rightarrow> Some (Inl ENODEV) | Some m \<Rightarrow>
       if NR_GUEST_IVSHMEM_MSGS pg \<le> unat index then Some (Inl EINVAL)
       else (case msg of None \<Rightarrow> Some (Inl EINVAL) | Some g \<Rightarrow>
         let g2h_page = HOST_IVSHMEM_G2H_OFFSET pg;
             src = g2h_page + unat index * GUEST_IVSHMEM_MSG_SIZE
         in do {
           v \<leftarrow> load_chk (unat (be_size b)) 8 m src;
           Some (Inr (g\<lparr>gh_msg := v\<rparr>))
         })))"

text \<open>The two functions exported to eBPF use the backend with minor number 1.\<close>

definition FIRST_VM_MINOR :: nat where
  "FIRST_VM_MINOR = 1"

definition bpf_host_ivshmem_h2g_write ::
  "nat \<Rightarrow> host_registry \<Rightarrow> u32 \<Rightarrow> hg_message option \<Rightarrow> (errno option \<times> host_registry) option" where
  "bpf_host_ivshmem_h2g_write pg r index hg =
     (case host_ivshmem_h2g_write_msg pg (devices r FIRST_VM_MINOR) index hg of
        None \<Rightarrow> None
      | Some (Inl e) \<Rightarrow> Some (Some e, r)
      | Some (Inr b) \<Rightarrow> Some (None, r\<lparr>devices := (devices r)(FIRST_VM_MINOR := Some b)\<rparr>))"

definition bpf_host_ivshmem_g2h_read ::
  "nat \<Rightarrow> host_registry \<Rightarrow> u32 \<Rightarrow> gh_message option \<Rightarrow> (errno + gh_message) option" where
  "bpf_host_ivshmem_g2h_read pg r index msg = host_ivshmem_g2h_read pg (devices r FIRST_VM_MINOR) index msg"

subsection \<open>Creating and destroying a backend\<close>

text \<open>The header a new backend of \<open>sz\<close> bytes is given; the subtraction is on 64 bits.\<close>

definition host_header :: "nat \<Rightarrow> u64 \<Rightarrow> ivshmem_header" where
  "host_header pg sz = \<lparr>magic = PVSCHED_MAGIC, version = PVSCHED_VERSION,
     latest_slot = of_nat H2G_LATEST_SLOT,
     h2g_page_offset = of_nat (HOST_IVSHMEM_H2G_OFFSET pg), h2g_page_size = of_nat pg,
     g2h_page_offset = of_nat (HOST_IVSHMEM_G2H_OFFSET pg),
     g2h_page_size = sz - of_nat (HOST_IVSHMEM_G2H_OFFSET pg)\<rparr>"

definition host_ivshmem_create_static_backend ::
  "nat \<Rightarrow> kenv \<Rightarrow> bool \<Rightarrow> int \<Rightarrow> host_ivshmem_backend \<Rightarrow> (errno option \<times> host_ivshmem_backend) option" where
  "host_ivshmem_create_static_backend pg env dbg_root minor_number b0 =
     (let b1 = b0\<lparr>be_minor := minor_number\<rparr> in
      if \<not> vmalloc_ok env then Some (Some ENOMEM, b1\<lparr>be_mem := None\<rparr>)
      else do {
        m \<leftarrow> store_header (unat (be_size b1)) (\<lambda>_. 0) (host_header pg (be_size b1));
        let b2 = b1\<lparr>be_mem := Some m\<rparr>;
        (case cdev_add_ret env of
           Some ret \<Rightarrow> Some (Some ret, b2\<lparr>be_mem := None\<rparr>)
         | None \<Rightarrow>
             let b3 = b2\<lparr>be_cdev := True\<rparr> in
             (case device_create_ret env of
                Some ret \<Rightarrow> Some (Some ret, b3\<lparr>be_dev := False, be_cdev := False, be_mem := None\<rparr>)
              | None \<Rightarrow>
                  let b4 = b3\<lparr>be_dev := True, debugfs_blob_data := True,
                              debugfs_blob_size := be_size b3\<rparr>;
                      b5 = (if dbg_root then b4\<lparr>debugfs_dentry := debugfs_create_blob_ok env\<rparr> else b4)
                  in Some (None, b5)))
      })"

definition host_ivshmem_destroy_static_backend :: "host_ivshmem_backend \<Rightarrow> host_ivshmem_backend" where
  "host_ivshmem_destroy_static_backend b =
     b\<lparr>debugfs_dentry := False, debugfs_blob_data := False, debugfs_blob_size := 0,
       be_dev := False, be_cdev := False, be_mem := None\<rparr>"

text \<open>
  Freeing the structure of a backend: a character device, a device node, a debugfs file or
  memory it still holds can never be released afterwards.
\<close>

definition unreleased :: "host_ivshmem_backend \<Rightarrow> nat" where
  "unreleased b = of_bool (be_cdev b) + of_bool (be_dev b) + of_bool (debugfs_dentry b) + of_bool (be_mem b \<noteq> None)"

definition kfree_backend :: "host_ivshmem_backend \<Rightarrow> host_registry \<Rightarrow> host_registry" where
  "kfree_backend b r = r\<lparr>orphans := orphans r + unreleased b\<rparr>"

subsection \<open>Registering a VM\<close>

text \<open>A \<open>kzalloc\<close>ed backend: every field zero.\<close>

definition backend_zero :: host_ivshmem_backend where
  "backend_zero = \<lparr>be_cdev = False, be_dev = False, debugfs_dentry = False,
     debugfs_blob_data = False, debugfs_blob_size = 0, be_mem = None, be_size = 0, be_minor = 0\<rparr>"

text \<open>
  \<open>nb_pages\<close> is an \<open>int\<close>, so the page count is cut to 32 bits and sign-extended again by
  the multiplication with the page size.
\<close>

definition backend_pages :: "nat \<Rightarrow> u32 \<Rightarrow> s32" where
  "backend_pages pg n =
     of_nat (HOST_NB_METADATA_PAGES + 1 + (unat n * HOST_IVSHMEM_MSG_SIZE + pg - 1) div pg)"

definition backend_bytes :: "nat \<Rightarrow> u32 \<Rightarrow> u64" where
  "backend_bytes pg n = scast (backend_pages pg n) * of_nat pg"

definition host_register_vm ::
  "nat \<Rightarrow> kenv \<Rightarrow> bool \<Rightarrow> host_registry \<Rightarrow> vm_reg_req \<Rightarrow>
    ((errno + vm_reg_req) \<times> host_registry) option" where
  "host_register_vm pg env dbg_root r req =
     (let id = next_vm_id r; r1 = r\<lparr>next_vm_id := id + 1\<rparr> in
      if int MAX_NB_DEVICES \<le> sint id + 1
      then Some (Inl ENOSPC, r1\<lparr>next_vm_id := next_vm_id r1 - 1\<rparr>)
      else if \<not> kzalloc_ok env then Some (Inl ENOMEM, r1)
      else
        let nb = backend_zero\<lparr>be_size := roundup_pow_of_two env (backend_bytes pg (nb_cpu req))\<rparr> in
        do {
          (ret, nb') \<leftarrow> host_ivshmem_create_static_backend pg env dbg_root (sint id + 1) nb;
          (case ret of
             Some e \<Rightarrow>
               let r2 = kfree_backend nb' r1 in Some (Inl e, r2\<lparr>next_vm_id := next_vm_id r2 - 1\<rparr>)
           | None \<Rightarrow>
               if 0 \<le> sint id + 1
               then Some (Inr (req\<lparr>vm_id := id, req_size := be_size nb'\<rparr>),
                      r1\<lparr>devices := (devices r1)(nat (sint id + 1) := Some nb')\<rparr>)
               else None)
        })"

datatype ioctl_cmd = PHANT_REG | OTHER_CMD u32

text \<open>
  The control device. \<open>copy_from\<close> is what \<open>copy_from_user\<close> delivered, \<open>copy_to_ok\<close>
  whether the answer could be copied back; the third component is the request the caller sees.
\<close>

definition host_registry_ioctl ::
  "nat \<Rightarrow> kenv \<Rightarrow> bool \<Rightarrow> vm_reg_req option \<Rightarrow> bool \<Rightarrow> host_registry \<Rightarrow> ioctl_cmd \<Rightarrow>
    (errno option \<times> host_registry \<times> vm_reg_req option) option" where
  "host_registry_ioctl pg env dbg_root copy_from copy_to_ok r cmd =
     (case cmd of
        OTHER_CMD _ \<Rightarrow> Some (Some EOPNOTSUPP, r, None)
      | PHANT_REG \<Rightarrow>
          (case copy_from of None \<Rightarrow> Some (Some EFAULT, r, None) | Some req \<Rightarrow> do {
             (ret, r') \<leftarrow> host_register_vm pg env dbg_root r req;
             (case ret of
                Inl e \<Rightarrow> Some (Some e, r', None)
              | Inr req' \<Rightarrow>
                  if copy_to_ok then Some (None, r', Some req') else Some (Some EFAULT, r', None))
           }))"

subsection \<open>File operations\<close>

text \<open>
  What opening and closing put into \<open>private_data\<close> of the file: the registry for the registry
  device, a backend for a backend device, \<open>None\<close> after closing.
\<close>

definition host_registry_open :: "host_registry \<Rightarrow> errno + host_registry option" where
  "host_registry_open r = Inr (Some r)"

definition host_registry_release :: "host_registry option" where
  "host_registry_release = None"

definition host_ivshmem_release :: "host_ivshmem_backend option" where
  "host_ivshmem_release = None"

definition host_ivshmem_open :: "host_registry \<Rightarrow> u32 \<Rightarrow> errno + host_ivshmem_backend" where
  "host_ivshmem_open r minor =
     (if MAX_NB_DEVICES \<le> unat minor then Inl ENODEV
      else case devices r (unat minor) of None \<Rightarrow> Inl ENODEV | Some b \<Rightarrow> Inr b)"

text \<open>\<open>remap\<close> is the answer of \<open>remap_vmalloc_range\<close>.\<close>

definition host_ivshmem_mmap ::
  "host_ivshmem_backend option \<Rightarrow> u64 \<Rightarrow> u64 \<Rightarrow> u64 \<Rightarrow> bool \<Rightarrow> errno option \<Rightarrow> errno option" where
  "host_ivshmem_mmap private_data vm_start vm_end vm_pgoff vm_shared remap =
     (let len = vm_end - vm_start in
      case private_data of None \<Rightarrow> Some ENODEV | Some b \<Rightarrow>
        if vm_pgoff \<noteq> 0 \<or> len \<noteq> be_size b then Some EINVAL
        else if \<not> vm_shared then Some EINVAL
        else remap)"

subsection \<open>Module load and unload\<close>

text \<open>Answers of the kernel while the module is loaded.\<close>

record init_env =
  alloc_chrdev_ret :: "errno option"
  class_create_ret :: "errno option"
  debugfs_create_dir_ok :: bool
  reg_cdev_add_ret :: "errno option"
  reg_device_create_ret :: "errno option"
  register_kfuncs_ret :: "errno option"

definition host_create_registry_backend :: "init_env \<Rightarrow> host_registry \<Rightarrow> errno option \<times> host_registry" where
  "host_create_registry_backend env r =
     (case reg_cdev_add_ret env of
        Some ret \<Rightarrow> (Some ret, r)
      | None \<Rightarrow>
          let r1 = r\<lparr>reg_cdev := reg_cdev r + 1\<rparr> in
          (case reg_device_create_ret env of
             Some ret \<Rightarrow> (Some ret, r1\<lparr>reg_dev := False\<rparr>)
           | None \<Rightarrow> (None, r1\<lparr>reg_dev := True\<rparr>)))"

text \<open>
  The loop over the device table destroys and frees every backend; a freed entry is NULL.
\<close>

fun destroy_devices :: "nat \<Rightarrow> host_registry \<Rightarrow> host_registry" where
  "destroy_devices 0 r = r"
| "destroy_devices (Suc n) r =
     (let r1 = destroy_devices n r in
      case devices r1 n of None \<Rightarrow> r1
      | Some b \<Rightarrow>
          let b' = host_ivshmem_destroy_static_backend b;
              r2 = kfree_backend b' (r1\<lparr>devices := (devices r1)(n := Some b')\<rparr>)
          in r2\<lparr>devices := (devices r2)(n := None)\<rparr>)"

definition host_destroy_registry_backend :: "host_registry \<Rightarrow> host_registry" where
  "host_destroy_registry_backend r =
     (let r1 = destroy_devices MAX_NB_DEVICES r
      in r1\<lparr>reg_dev := False, reg_cdev := reg_cdev r1 - 1\<rparr>)"

definition err_unregister_chrdev :: "host_module \<Rightarrow> host_module" where
  "err_unregister_chrdev s = s\<lparr>chrdev_regions := chrdev_regions s - 1\<rparr>"

definition err_destroy_class :: "host_module \<Rightarrow> host_module" where
  "err_destroy_class s = err_unregister_chrdev (s\<lparr>debugfs_root := False, class_live := False\<rparr>)"

definition err_destroy_backend :: "host_module \<Rightarrow> host_module" where
  "err_destroy_backend s =
     err_destroy_class (s\<lparr>registry := host_destroy_registry_backend (registry s)\<rparr>)"

definition host_ivshmem_init :: "nat \<Rightarrow> init_env \<Rightarrow> host_module \<Rightarrow> errno option \<times> host_module" where
  "host_ivshmem_init pg env s0 =
     (if pg mod HOST_IVSHMEM_MSG_SIZE \<noteq> 0 then (Some EINVAL, s0)
      else case alloc_chrdev_ret env of Some ret \<Rightarrow> (Some ret, s0)
      | None \<Rightarrow>
        let s1 = s0\<lparr>chrdev_regions := chrdev_regions s0 + 1\<rparr>;
            s2 = s1\<lparr>class_live := (class_create_ret env = None)\<rparr>;
            s3 = s2\<lparr>debugfs_root := debugfs_create_dir_ok env\<rparr>
        in case class_create_ret env of
          Some ret \<Rightarrow>
            (Some ret, err_unregister_chrdev (s3\<lparr>chrdev_regions := chrdev_regions s3 - 1\<rparr>))
        | None \<Rightarrow>
            let (ret1, reg1) = host_create_registry_backend env (registry s3);
                s4 = s3\<lparr>registry := reg1\<rparr>
            in case ret1 of
              Some ret \<Rightarrow> (Some ret, err_destroy_backend s4)
            | None \<Rightarrow>
                (case register_kfuncs_ret env of
                   Some ret \<Rightarrow> (Some ret, err_destroy_backend s4)
                 | None \<Rightarrow> (None, s4\<lparr>kfuncs_registered := True\<rparr>)))"

definition host_ivshmem_exit :: "host_module \<Rightarrow> host_module" where
  "host_ivshmem_exit s =
     (let s1 = s\<lparr>registry := host_destroy_registry_backend (registry s)\<rparr>;
          s2 = s1\<lparr>debugfs_root := False, class_live := False\<rparr>
      in s2\<lparr>chrdev_regions := chrdev_regions s2 - 1\<rparr>)"

subsection \<open>Invariants\<close>

text \<open>
  A published backend has memory for the metadata and host-to-guest pages, its header
  describes its own layout, and its device is live. A backend registered for at least one vCPU
  also has a whole guest-to-host page (\<open>g2h_mapped\<close>).
\<close>

definition backend_ok :: "nat \<Rightarrow> host_ivshmem_backend \<Rightarrow> bool" where
  "backend_ok pg b \<longleftrightarrow> be_cdev b \<and> be_dev b \<and> 2 * pg \<le> unat (be_size b) \<and>
     (case be_mem b of None \<Rightarrow> False
      | Some m \<Rightarrow> load_header (unat (be_size b)) m = Some (host_header pg (be_size b)))"

definition g2h_mapped :: "nat \<Rightarrow> host_ivshmem_backend \<Rightarrow> bool" where
  "g2h_mapped pg b \<longleftrightarrow> backend_ok pg b \<and> 3 * pg \<le> unat (be_size b)"

definition registry_inv :: "nat \<Rightarrow> host_registry \<Rightarrow> bool" where
  "registry_inv pg r \<longleftrightarrow> 0 \<le> sint (next_vm_id r) \<and> sint (next_vm_id r) < int MAX_NB_DEVICES \<and>
     (\<forall>i b. devices r i = Some b \<longrightarrow>
        1 \<le> i \<and> int i \<le> sint (next_vm_id r) \<and> be_minor b = int i \<and> backend_ok pg b)"

text \<open>What the kernel documents of \<open>roundup_pow_of_two\<close>.\<close>

definition rounds_up_pow2 :: "(u64 \<Rightarrow> u64) \<Rightarrow> bool" where
  "rounds_up_pow2 f \<longleftrightarrow>
     (\<forall>n. 0 < n \<and> n \<le> 2 ^ 63 \<longrightarrow> n \<le> f n \<and> (\<exists>k. f n = 2 ^ k \<and> k < 64))"

text \<open>The 64-bit word in host-to-guest slot \<open>i\<close> of the first VM.\<close>

definition h2g_slot :: "nat \<Rightarrow> host_registry \<Rightarrow> nat \<Rightarrow> u64" where
  "h2g_slot pg r i =
     (case devices r FIRST_VM_MINOR of None \<Rightarrow> 0 | Some b \<Rightarrow>
      (case be_mem b of None \<Rightarrow> 0 | Some m \<Rightarrow>
        load_le 8 m (HOST_IVSHMEM_H2G_OFFSET pg + i * HOST_IVSHMEM_MSG_SIZE)))"

definition h2g_ready :: "nat \<Rightarrow> host_registry \<Rightarrow> bool" where
  "h2g_ready pg r \<longleftrightarrow> (case devices r FIRST_VM_MINOR of None \<Rightarrow> False | Some b \<Rightarrow> backend_ok pg b)"

subsection \<open>Message access: lemmas\<close>

lemma backend_okD:
  assumes "backend_ok pg b"
  obtains m where "be_mem b = Some m" and "2 * pg \<le> unat (be_size b)"
    and "load_header (unat (be_size b)) m = Some (host_header pg (be_size b))"
  using assms by (auto simp: backend_ok_def split: option.splits)

text \<open>The address of a host-to-guest slot lies in the page after the metadata page.\<close>

lemma h2g_slot_addr:
  assumes "page_size_ok pg" and "i < NR_HOST_IVSHMEM_MSGS pg"
  shows "pg \<le> pg + i * 64" and "pg + i * 64 + 8 \<le> 2 * pg"
  using slot_in_page [OF assms] by simp_all

lemma h2g_write_msg_ok:
  assumes pg: "page_size_ok pg" and b: "backend_ok pg b" and m: "be_mem b = Some m"
    and i: "0 < unat i" "unat i < NR_HOST_IVSHMEM_MSGS pg"
  shows "host_ivshmem_h2g_write_msg pg (Some b) i (Some g) =
     Some (Inr (b\<lparr>be_mem := Some
       (store_le 8 (store_le 8 m (pg + unat i * 64) (hg_msg g)) pg (hg_msg g))\<rparr>))"
proof -
  have sz: "2 * pg \<le> unat (be_size b)" using b by (simp add: backend_ok_def)
  have "pg + unat i * 64 + 8 \<le> unat (be_size b)"
    using h2g_slot_addr(2) [OF pg i(2)] sz by simp
  moreover have "pg + 8 \<le> unat (be_size b)" using sz page_size_okD(1) [OF pg] by simp
  ultimately show ?thesis
    using m i by (simp add: host_ivshmem_h2g_write_msg_def abi_defs store_chk_def)
qed

lemma backend_ok_store_h2g:
  assumes pg: "page_size_ok pg" and b: "backend_ok pg b" and m: "be_mem b = Some m"
    and frame: "\<And>x. x < pg \<Longrightarrow> m' x = m x"
  shows "backend_ok pg (b\<lparr>be_mem := Some m'\<rparr>)"
proof -
  have "load_header (unat (be_size b)) m' = load_header (unat (be_size b)) m"
    by (rule load_header_cong) (use frame page_size_okD(1) [OF pg] in \<open>simp add: abi_defs\<close>)
  then show ?thesis using b m by (simp add: backend_ok_def)
qed

lemma h2g_write_ready:
  assumes pg: "page_size_ok pg" and r: "h2g_ready pg r"
    and i: "0 < unat i" "unat i < NR_HOST_IVSHMEM_MSGS pg"
  obtains b m where "devices r FIRST_VM_MINOR = Some b" and "be_mem b = Some m" and "backend_ok pg b"
    and "bpf_host_ivshmem_h2g_write pg r i (Some g) =
      Some (None, r\<lparr>devices := (devices r)(FIRST_VM_MINOR := Some (b\<lparr>be_mem := Some
       (store_le 8 (store_le 8 m (pg + unat i * 64) (hg_msg g)) pg (hg_msg g))\<rparr>))\<rparr>)"
proof -
  from r obtain b where b: "devices r FIRST_VM_MINOR = Some b" "backend_ok pg b"
    by (auto simp: h2g_ready_def split: option.splits)
  from b(2) obtain m where m: "be_mem b = Some m" by (rule backend_okD)
  show thesis
    by (rule that [OF b(1) m b(2)])
      (simp add: bpf_host_ivshmem_h2g_write_def b(1) h2g_write_msg_ok [OF pg b(2) m i])
qed

lemma h2g_write_rejected:
  "\<not> (0 < unat i \<and> unat i < NR_HOST_IVSHMEM_MSGS pg) \<Longrightarrow>
     \<exists>e. bpf_host_ivshmem_h2g_write pg r i (Some g) = Some (Some e, r)"
  by (auto simp: bpf_host_ivshmem_h2g_write_def host_ivshmem_h2g_write_msg_def abi_defs
      split: option.splits)

subsection \<open>The module provides the slot channel\<close>

text \<open>
  A publication as the eBPF programs make it: the message is built from a zeroed structure,
  the returned error code is dropped.
\<close>

definition h2g_publish :: "nat \<Rightarrow> host_registry \<Rightarrow> u32 \<Rightarrow> u64 \<Rightarrow> host_registry option" where
  "h2g_publish pg r i v =
     map_option snd (bpf_host_ivshmem_h2g_write pg r i (Some (hg_message_zero\<lparr>hg_msg := v\<rparr>)))"

lemma h2g_publish_ready:
  assumes pg: "page_size_ok pg" and r: "h2g_ready pg r"
    and i: "0 < unat i" "unat i < NR_HOST_IVSHMEM_MSGS pg"
  obtains r' where "h2g_publish pg r i v = Some r'" and "h2g_ready pg r'"
    and "h2g_slot pg r' 0 = v"
    and "\<And>j. 0 < j \<Longrightarrow> j < NR_HOST_IVSHMEM_MSGS pg \<Longrightarrow>
      h2g_slot pg r' j = (if j = unat i then v else h2g_slot pg r j)"
proof -
  obtain b m where d: "devices r FIRST_VM_MINOR = Some b" and m: "be_mem b = Some m"
    and b: "backend_ok pg b"
    and w: "bpf_host_ivshmem_h2g_write pg r i (Some (hg_message_zero\<lparr>hg_msg := v\<rparr>)) =
      Some (None, r\<lparr>devices := (devices r)(FIRST_VM_MINOR := Some (b\<lparr>be_mem := Some
       (store_le 8 (store_le 8 m (pg + unat i * 64) v) pg v)\<rparr>))\<rparr>)"
    using h2g_write_ready [OF pg r i, of "hg_message_zero\<lparr>hg_msg := v\<rparr>"] by auto
  let ?m = "store_le 8 (store_le 8 m (pg + unat i * 64) v) pg v"
  have own: "load_le 8 ?m (pg + j * 64) =
      (if j = unat i then v else load_le 8 m (pg + j * 64))" if "0 < j" for j
  proof (cases "j = unat i")
    case True
    with that show ?thesis by (simp add: mem_simps)
  next
    case False
    then have "pg + j * 64 + 8 \<le> pg + unat i * 64 \<or> pg + unat i * 64 + 8 \<le> pg + j * 64"
      using slots_disjoint [OF False] by simp
    with that False show ?thesis by (simp add: load_le_store_le_other)
  qed
  show thesis
  proof (rule that)
    show "h2g_publish pg r i v = Some (r\<lparr>devices := (devices r)(FIRST_VM_MINOR := Some
        (b\<lparr>be_mem := Some ?m\<rparr>))\<rparr>)"
      by (simp add: h2g_publish_def w)
    show "h2g_ready pg (r\<lparr>devices := (devices r)(FIRST_VM_MINOR := Some (b\<lparr>be_mem := Some ?m\<rparr>))\<rparr>)"
      using backend_ok_store_h2g [OF pg b m, of ?m] i(1)
      by (simp add: h2g_ready_def mem_simps)
  qed (use d m own in \<open>auto simp: h2g_slot_def abi_defs mem_simps\<close>)
qed

lemma h2g_publish_rejected:
  "\<not> (0 < unat i \<and> unat i < NR_HOST_IVSHMEM_MSGS pg) \<Longrightarrow> h2g_publish pg r i v = Some r"
  using h2g_write_rejected [of i pg r "hg_message_zero\<lparr>hg_msg := v\<rparr>"]
  by (auto simp: h2g_publish_def)

interpretation h2g: slot_channel "NR_HOST_IVSHMEM_MSGS pg"
  "\<lambda>r. page_size_ok pg \<and> h2g_ready pg r" "h2g_publish pg" "h2g_slot pg" for pg
proof unfold_locales
  fix s i v
  assume s: "page_size_ok pg \<and> h2g_ready pg s"
  show "\<exists>s'. h2g_publish pg s i v = Some s' \<and> page_size_ok pg \<and> h2g_ready pg s'"
  proof (cases "0 < unat i \<and> unat i < NR_HOST_IVSHMEM_MSGS pg")
    case True
    with s show ?thesis by (blast elim: h2g_publish_ready)
  next
    case False
    with s h2g_publish_rejected show ?thesis by blast
  qed
next
  fix s i v s'
  assume s: "page_size_ok pg \<and> h2g_ready pg s" and p: "h2g_publish pg s i v = Some s'"
    and i: "0 < unat i" "unat i < NR_HOST_IVSHMEM_MSGS pg"
  have pg: "page_size_ok pg" and r: "h2g_ready pg s" using s by simp_all
  show "h2g_slot pg s' 0 = v"
    using p by (rule_tac h2g_publish_ready [OF pg r i, of v]) simp
  fix j
  assume "0 < j" "j < NR_HOST_IVSHMEM_MSGS pg"
  with p show "h2g_slot pg s' j = (if j = unat i then v else h2g_slot pg s j)"
    by (rule_tac h2g_publish_ready [OF pg r i, of v]) simp
qed (auto simp: h2g_publish_rejected)

subsection \<open>Registration: lemmas\<close>

lemma sint_small_add_one: "0 \<le> sint w \<Longrightarrow> sint w < 1000 \<Longrightarrow> sint (w + 1) = sint w + 1" for w :: s32
  by (simp add: signed_take_bit_int_eq_self sint_word_ariths)

text \<open>No request makes the page count overflow its \<open>int\<close>.\<close>

lemma backend_pages_bound:
  fixes n :: u32
  assumes "page_size_ok pg"
  shows "2 + (unat n * 64 + pg - 1) div pg \<le> 67108868"
proof -
  have pg: "4096 \<le> pg" using assms by (rule page_size_okD)
  have n: "unat n < 2 ^ 32" using unsigned_less [of n] by simp
  have "(unat n * 64 + pg - 1) div pg \<le> (unat n * 64 + pg) div pg"
    by (rule div_le_mono) simp
  also have "\<dots> = unat n * 64 div pg + 1" using pg by simp
  also have "unat n * 64 div pg \<le> unat n * 64 div 4096" using pg by (rule div_le_mono2 [rotated]) simp
  also have "unat n * 64 div 4096 \<le> 67108864" using n by simp
  finally show ?thesis by simp
qed

lemma unat_backend_bytes:
  assumes "page_size_ok pg"
  shows "unat (backend_bytes pg n) = (2 + (unat n * 64 + pg - 1) div pg) * pg"
proof -
  let ?k = "2 + (unat n * 64 + pg - 1) div pg"
  have k: "?k \<le> 67108868" by (rule backend_pages_bound [OF assms])
  have "backend_pages pg n = of_nat ?k" by (simp add: backend_pages_def abi_defs)
  with k have s: "(scast (backend_pages pg n) :: u64) = of_nat ?k"
    using scast_of_nat_s32 [of ?k] by simp
  have "?k * pg \<le> 67108868 * 65536" by (rule mult_le_mono [OF k page_size_okD(2) [OF assms]])
  then have "unat (of_nat (?k * pg) :: u64) = ?k * pg"
    by (intro unat_of_nat_u64) simp
  then show ?thesis by (simp only: backend_bytes_def s of_nat_mult)
qed

lemma backend_bytes_range:
  assumes pg: "page_size_ok pg"
  shows "0 < backend_bytes pg n" and "backend_bytes pg n \<le> 2 ^ 63"
proof -
  let ?w = "backend_bytes pg n"
  have k: "2 + (unat n * 64 + pg - 1) div pg \<le> 67108868" by (rule backend_pages_bound [OF pg])
  have u: "unat ?w = (2 + (unat n * 64 + pg - 1) div pg) * pg" by (rule unat_backend_bytes [OF pg])
  have "(2 + (unat n * 64 + pg - 1) div pg) * pg \<le> 67108868 * 65536"
    by (rule mult_le_mono [OF k page_size_okD(2) [OF pg]])
  with u have "unat ?w \<le> 2 ^ 63" by simp
  then show "?w \<le> 2 ^ 63" by (simp add: word_le_nat_alt)
  have "0 < unat ?w" using u page_size_okD(1) [OF pg] by simp
  then show "0 < ?w" by (simp add: word_less_nat_alt)
qed

lemma backend_size_bounds:
  assumes pg: "page_size_ok pg" and f: "rounds_up_pow2 f"
  shows "(2 + (unat n * 64 + pg - 1) div pg) * pg \<le> unat (f (backend_bytes pg n))"
proof -
  have "backend_bytes pg n \<le> f (backend_bytes pg n)"
    using f backend_bytes_range [OF pg, of n] by (simp add: rounds_up_pow2_def)
  then show ?thesis by (simp add: word_le_nat_alt unat_backend_bytes [OF pg])
qed

lemma backend_size_pow2:
  "page_size_ok pg \<Longrightarrow> rounds_up_pow2 f \<Longrightarrow> \<exists>k. f (backend_bytes pg n) = 2 ^ k"
  using backend_bytes_range [of pg n] unfolding rounds_up_pow2_def by blast

lemma pages_cover: "0 < pg \<Longrightarrow> n \<le> (n + pg - 1) div pg * pg" for n pg :: nat
  using div_mult_mod_eq [of "n + pg - 1" pg] mod_less_divisor [of pg "n + pg - 1"] by linarith

text \<open>A backend for at least one vCPU has room for a whole guest-to-host page.\<close>

lemma backend_size_g2h:
  assumes pg: "page_size_ok pg" and f: "rounds_up_pow2 f"
  shows "2 * pg \<le> unat (f (backend_bytes pg n))"
    and "0 < n \<Longrightarrow> 3 * pg \<le> unat (f (backend_bytes pg n))"
proof -
  note le = backend_size_bounds [OF pg f, of n]
  show "2 * pg \<le> unat (f (backend_bytes pg n))"
    by (rule order_trans [OF _ le]) (rule mult_le_mono1, simp)
  assume "0 < n"
  then have "1 * pg \<le> unat n * 64 + pg - 1" by (simp add: word_less_nat_alt)
  then have "1 \<le> (unat n * 64 + pg - 1) div pg"
    using page_size_okD(1) [OF pg] by (simp add: less_eq_div_iff_mult_less_eq)
  then show "3 * pg \<le> unat (f (backend_bytes pg n))"
    by (intro order_trans [OF _ le] mult_le_mono1) simp
qed

lemma create_static_backend_spec:
  assumes pg: "page_size_ok pg" and sz: "2 * pg \<le> unat (be_size b)"
  shows "\<exists>ret b'. host_ivshmem_create_static_backend pg env dbg minor b = Some (ret, b') \<and>
    be_minor b' = minor \<and> be_size b' = be_size b \<and> (ret = None \<longrightarrow> backend_ok pg b') \<and>
    (ret \<noteq> None \<and> unreleased b = 0 \<longrightarrow> unreleased b' = 0) \<and>
    (ret = None \<longleftrightarrow> vmalloc_ok env \<and> cdev_add_ret env = None \<and> device_create_ret env = None)"
proof -
  have "IVSHMEM_HEADER_SIZE \<le> unat (be_size b)"
    using sz page_size_okD(1) [OF pg] by (simp add: abi_defs)
  then obtain m where
    m: "store_header (unat (be_size b)) (\<lambda>_. 0) (host_header pg (be_size b)) = Some m"
    using store_header_Some by blast
  then show ?thesis
    using sz load_header_store_header [OF m]
    by (auto simp: host_ivshmem_create_static_backend_def backend_ok_def unreleased_def Let_def split: option.split)
qed

text \<open>What a registration does, on every path, from a registry that satisfies its invariant.\<close>

lemma host_register_vm_cases:
  assumes pg: "page_size_ok pg" and f: "rounds_up_pow2 (roundup_pow_of_two env)"
    and inv: "registry_inv pg r"
  obtains
    (nospc) "host_register_vm pg env dbg r req = Some (Inl ENOSPC, r)" and "sint (next_vm_id r) = 255"
  | (nomem) "host_register_vm pg env dbg r req = Some (Inl ENOMEM, r\<lparr>next_vm_id := next_vm_id r + 1\<rparr>)"
      and "sint (next_vm_id r) < 255" and "\<not> kzalloc_ok env"
  | (failed) e where "host_register_vm pg env dbg r req = Some (Inl e, r)"
      and "sint (next_vm_id r) < 255"
      and "\<not> (vmalloc_ok env \<and> cdev_add_ret env = None \<and> device_create_ret env = None)"
  | (registered) b where "host_register_vm pg env dbg r req =
        Some (Inr (req\<lparr>vm_id := next_vm_id r, req_size := be_size b\<rparr>),
          r\<lparr>next_vm_id := next_vm_id r + 1,
            devices := (devices r)(nat (sint (next_vm_id r) + 1) := Some b)\<rparr>)"
      and "sint (next_vm_id r) < 255" and "backend_ok pg b"
      and "be_minor b = sint (next_vm_id r) + 1"
      and "be_size b = roundup_pow_of_two env (backend_bytes pg (nb_cpu req))"
proof -
  let ?id = "next_vm_id r"
  let ?b = "backend_zero\<lparr>be_size := roundup_pow_of_two env (backend_bytes pg (nb_cpu req))\<rparr>"
  have id: "0 \<le> sint ?id" "sint ?id < 256" using inv by (auto simp: registry_inv_def abi_defs)
  have sz: "2 * pg \<le> unat (be_size ?b)" using backend_size_g2h(1) [OF pg f] by simp
  obtain ret b' where c: "host_ivshmem_create_static_backend pg env dbg (sint ?id + 1) ?b = Some (ret, b')"
    and b': "be_minor b' = sint ?id + 1" "be_size b' = be_size ?b" "ret = None \<Longrightarrow> backend_ok pg b'"
      "ret = None \<longleftrightarrow> vmalloc_ok env \<and> cdev_add_ret env = None \<and> device_create_ret env = None"
      "ret \<noteq> None \<and> unreleased ?b = 0 \<longrightarrow> unreleased b' = 0"
    using create_static_backend_spec [OF pg sz, of env dbg "sint ?id + 1"] by blast
  have "unreleased ?b = 0" by (simp add: unreleased_def backend_zero_def)
  with b'(5) have free: "ret \<noteq> None \<Longrightarrow> kfree_backend b' r' = r'" for r' by (simp add: kfree_backend_def)
  consider "255 \<le> sint ?id" | "sint ?id < 255" "\<not> kzalloc_ok env"
    | "sint ?id < 255" "kzalloc_ok env" "ret \<noteq> None" | "sint ?id < 255" "kzalloc_ok env" "ret = None"
    by linarith
  then show thesis
  proof cases
    case 1
    then show ?thesis using id by (intro nospc) (auto simp: host_register_vm_def abi_defs)
  next
    case 2
    then show ?thesis by (intro nomem) (auto simp: host_register_vm_def abi_defs)
  next
    case 3
    then show ?thesis using c b'(4) free by (elim not_None_eq [THEN iffD1, THEN exE], intro failed)
        (auto simp: host_register_vm_def abi_defs)
  next
    case 4
    then show ?thesis using id c b' by (intro registered) (auto simp: host_register_vm_def abi_defs Let_def)
  qed
qed

lemma registry_inv_registered:
  assumes inv: "registry_inv pg r" and lt: "sint (next_vm_id r) < 255"
    and b: "backend_ok pg b" "be_minor b = sint (next_vm_id r) + 1"
  shows "registry_inv pg (r\<lparr>next_vm_id := next_vm_id r + 1,
            devices := (devices r)(nat (sint (next_vm_id r) + 1) := Some b)\<rparr>)"
    and "devices r (nat (sint (next_vm_id r) + 1)) = None"
proof -
  have id: "0 \<le> sint (next_vm_id r)" using inv by (simp add: registry_inv_def)
  show "devices r (nat (sint (next_vm_id r) + 1)) = None"
  proof (rule ccontr)
    assume "\<not> ?thesis"
    then obtain b' where "devices r (nat (sint (next_vm_id r) + 1)) = Some b'" by auto
    with inv have "int (nat (sint (next_vm_id r) + 1)) \<le> sint (next_vm_id r)"
      unfolding registry_inv_def by blast
    then show False using id by simp
  qed
  show "registry_inv pg (r\<lparr>next_vm_id := next_vm_id r + 1,
            devices := (devices r)(nat (sint (next_vm_id r) + 1) := Some b)\<rparr>)"
    using inv b lt id by (fastforce simp: registry_inv_def abi_defs sint_small_add_one)
qed

lemma registry_inv_skip_id:
  "registry_inv pg r \<Longrightarrow> sint (next_vm_id r) < 255 \<Longrightarrow>
    registry_inv pg (r\<lparr>next_vm_id := next_vm_id r + 1\<rparr>)"
  by (fastforce simp: registry_inv_def abi_defs sint_small_add_one)

text \<open>Destroying a backend lets go of everything it holds, so the loop orphans nothing.\<close>

lemma unreleased_destroyed: "unreleased (host_ivshmem_destroy_static_backend b) = 0"
  by (simp add: unreleased_def host_ivshmem_destroy_static_backend_def)

lemma destroy_devices_eq:
  "destroy_devices n r = r\<lparr>devices := (\<lambda>i. if i < n then None else devices r i)\<rparr>"
proof (induction n)
  case (Suc n)
  let ?d = "\<lambda>i. if i < n then None else devices r i"
  have d: "(\<lambda>i. if i < Suc n then None else devices r i) = ?d(n := None)" by (auto simp: less_Suc_eq)
  have "?d(n := None) = ?d" if "devices r n = None" using that by auto
  with Suc show ?case
    unfolding d by (auto simp: Let_def kfree_backend_def unreleased_destroyed split: option.split)
qed simp

lemma g2h_read_mapped:
  assumes pg: "page_size_ok pg" and sz: "3 * pg \<le> unat (be_size b)"
  shows "\<exists>res. host_ivshmem_g2h_read pg (Some b) index msg = Some res"
proof (cases "unat index < NR_HOST_IVSHMEM_MSGS pg")
  case True
  with sz slot_in_page [OF pg] show ?thesis
    by (fastforce simp: host_ivshmem_g2h_read_def abi_defs load_chk_def split: option.splits)
qed (auto simp: host_ivshmem_g2h_read_def abi_defs split: option.splits)

subsection \<open>Mapping a backend\<close>

text \<open>
  Only a registered backend can be opened, never minor 0, which is the registry itself; a mapping
  that is granted is shared and covers the whole backend. A closed file maps nothing.
\<close>

lemma host_open_mmap_whole:
  assumes "registry_inv pg r" and "host_ivshmem_open r minor = Inr b"
    and "host_ivshmem_mmap (Some b) vm_start vm_end vm_pgoff vm_shared remap = None"
  shows "minor \<noteq> 0 \<and> be_minor b = int (unat minor) \<and> backend_ok pg b \<and> vm_pgoff = 0 \<and> vm_end - vm_start = be_size b \<and> vm_shared"
proof -
  have "devices r (unat minor) = Some b" using assms(2) by (auto simp: host_ivshmem_open_def split: if_splits option.splits)
  with assms(1) have "1 \<le> unat minor" "be_minor b = int (unat minor)" "backend_ok pg b" by (auto simp: registry_inv_def)
  with assms(3) show ?thesis by (auto simp: host_ivshmem_mmap_def split: if_splits)
qed

lemma host_mmap_released:
  "host_ivshmem_mmap host_ivshmem_release vm_start vm_end vm_pgoff vm_shared remap = Some ENODEV"
  by (simp add: host_ivshmem_mmap_def host_ivshmem_release_def)

subsection \<open>Properties\<close>

text \<open>
  C6. A registration never accesses memory outside a backend, keeps the registry invariant
  (every published backend sits at its minor number, is live and carries the header of its own
  layout), and never replaces or removes the backend of a VM registered before.
\<close>

theorem host_register_vm_inv:
  assumes "page_size_ok pg" and "rounds_up_pow2 (roundup_pow_of_two env)" and "registry_inv pg r"
  shows "\<exists>ret r'. host_register_vm pg env dbg_root r req = Some (ret, r') \<and> registry_inv pg r' \<and>
    (\<forall>i b. devices r i = Some b \<longrightarrow> devices r' i = Some b)"
  using assms
proof (cases rule: host_register_vm_cases [where dbg = dbg_root and req = req])
  case (registered b)
  then show ?thesis
    using registry_inv_registered [OF assms(3)] by auto
qed (use assms(3) registry_inv_skip_id in auto)

text \<open>A power-of-two rounding that satisfies its documentation.\<close>

definition pow2_roundup :: "u64 \<Rightarrow> u64" where
  "pow2_roundup n = 2 ^ ceillog2 (unat n)"

lemma unat_pow2_u64: "k < 64 \<Longrightarrow> unat (2 ^ k :: u64) = 2 ^ k"
  using unat_of_nat_u64 [of "2 ^ k"] power_strict_increasing [of k 64 "2 :: nat"] by simp

lemma rounds_up_pow2_roundup: "rounds_up_pow2 pow2_roundup"
  unfolding rounds_up_pow2_def
proof (intro allI impI, elim conjE)
  fix n :: u64
  assume n: "0 < n" "n \<le> 2 ^ 63"
  have "0 < unat n" using n(1) by (simp add: word_less_nat_alt)
  moreover have "unat n \<le> 2 ^ 63" using n(2) by (simp add: word_le_nat_alt)
  ultimately have k: "ceillog2 (unat n) < 64"
    using ceillog2_le_iff [of "unat n" 63] by simp
  then have "n \<le> pow2_roundup n"
    using le_two_power_ceillog2 [of "unat n"]
    by (simp add: pow2_roundup_def word_le_nat_alt unat_pow2_u64)
  with k show "n \<le> pow2_roundup n \<and> (\<exists>k. pow2_roundup n = 2 ^ k \<and> k < 64)"
    by (auto simp: pow2_roundup_def)
qed

definition kenv_ok :: kenv where
  "kenv_ok = \<lparr>kzalloc_ok = True, vmalloc_ok = True, cdev_add_ret = None, device_create_ret = None,
     debugfs_create_blob_ok = True, roundup_pow_of_two = pow2_roundup\<rparr>"

definition registry_zero :: host_registry where
  "registry_zero = \<lparr>reg_cdev = 0, reg_dev = False, next_vm_id = 0, devices = (\<lambda>_. None),
     orphans = 0\<rparr>"

lemma registry_inv_zero: "registry_inv pg registry_zero"
  by (simp add: registry_inv_def registry_zero_def abi_defs)

theorem host_register_vm_inv_witness:
  "\<exists>ret r'. host_register_vm 4096 kenv_ok True registry_zero
     \<lparr>nb_cpu = 4, backend_name = 0, vm_id = 0, req_size = 0\<rparr> = Some (ret, r') \<and> registry_inv 4096 r'"
  using host_register_vm_inv [of 4096 kenv_ok registry_zero True
      "\<lparr>nb_cpu = 4, backend_name = 0, vm_id = 0, req_size = 0\<rparr>"]
  by (auto simp: kenv_ok_def rounds_up_pow2_roundup registry_inv_zero)

text \<open>The words of a header in memory, at their offsets.\<close>

lemma header_layout:
  assumes "page_size_ok pg" and "2 * pg \<le> unat sz" and "load_header n m = Some (host_header pg sz)"
  shows "(ucast (load_le 4 m 0) :: u32) = 0x4856534D \<and> (ucast (load_le 4 m 4) :: u32) = 1 \<and>
    (ucast (load_le 4 m 8) :: u32) = 0 \<and> unat (load_le 8 m 16) = pg \<and> unat (load_le 8 m 24) = pg \<and>
    unat (load_le 8 m 32) = 2 * pg \<and> unat (load_le 8 m 40) = unat sz - 2 * pg"
proof -
  have pg: "unat (of_nat pg :: u64) = pg" "unat (of_nat (2 * pg) :: u64) = 2 * pg"
    using page_size_okD(2) [OF assms(1)] unat_of_nat_u64 [of pg] unat_of_nat_u64 [of "2 * pg"] by simp_all
  have off: "HOST_IVSHMEM_H2G_OFFSET pg = pg" "HOST_IVSHMEM_G2H_OFFSET pg = 2 * pg" by (simp_all add: abi_defs)
  have "unat (sz - of_nat (2 * pg)) = unat sz - 2 * pg"
    using assms(2) pg(2) by (simp only: unat_sub word_le_nat_alt)
  with assms(3) pg show ?thesis
    by (simp add: load_header_def host_header_def off split: if_splits)
      (simp add: PVSCHED_MAGIC_def PVSCHED_VERSION_def H2G_LATEST_SLOT_def)
qed

text \<open>
  C19. A registration that succeeds tells the caller the id and size of a backend that is live:
  its character device and device node exist at minor number id + 1. The first bytes of its
  memory are the header the guest looks for: the magic number and version, latest slot 0, the
  host-to-guest page of one page at byte pg, and the guest-to-host region from byte 2 * pg to
  the end. Its size is a power of two with a 64-byte guest-to-host slot for every requested vCPU.
\<close>

theorem host_register_vm_layout:
  assumes "page_size_ok pg" and "rounds_up_pow2 (roundup_pow_of_two env)" and "registry_inv pg r"
    and "host_register_vm pg env dbg_root r req = Some (Inr req', r')"
  shows "\<exists>b m k. devices r' (nat (sint (next_vm_id r) + 1)) = Some b \<and> vm_id req' = next_vm_id r \<and>
     be_minor b = sint (vm_id req') + 1 \<and> be_cdev b \<and> be_dev b \<and> be_mem b = Some m \<and>
     be_size b = req_size req' \<and> req_size req' = 2 ^ k \<and>
     (ucast (load_le 4 m 0) :: u32) = 0x4856534D \<and> (ucast (load_le 4 m 4) :: u32) = 1 \<and>
     (ucast (load_le 4 m 8) :: u32) = 0 \<and>
     unat (load_le 8 m 16) = pg \<and> unat (load_le 8 m 24) = pg \<and>
     unat (load_le 8 m 32) = 2 * pg \<and> unat (load_le 8 m 40) = unat (req_size req') - 2 * pg \<and>
     2 * pg + unat (nb_cpu req) * 64 \<le> unat (req_size req')"
  using assms(1-3)
proof (cases rule: host_register_vm_cases [where dbg = dbg_root and req = req])
  case (registered b)
  let ?n = "nb_cpu req"
  from registered(1) assms(4) have req': "req' = req\<lparr>vm_id := next_vm_id r, req_size := be_size b\<rparr>"
    and r': "devices r' (nat (sint (next_vm_id r) + 1)) = Some b" by auto
  have "HOST_IVSHMEM_G2H_OFFSET pg + unat ?n * GUEST_IVSHMEM_MSG_SIZE
      \<le> (2 + (unat ?n * 64 + pg - 1) div pg) * pg"
    using pages_cover [of pg "unat ?n * 64"] page_size_okD(1) [OF assms(1)] by (simp add: abi_defs)
  also have "\<dots> \<le> unat (be_size b)"
    using backend_size_bounds [OF assms(1,2)] registered(5) by simp
  finally have sz: "HOST_IVSHMEM_G2H_OFFSET pg + unat ?n * GUEST_IVSHMEM_MSG_SIZE \<le> unat (be_size b)" .
  obtain k where "be_size b = 2 ^ k"
    using backend_size_pow2 [OF assms(1,2)] registered(5) by metis
  moreover obtain m where m: "be_mem b = Some m"
    and hdr: "load_header (unat (be_size b)) m = Some (host_header pg (be_size b))"
    using registered(3) by (rule backend_okD)
  have live: "be_cdev b" "be_dev b" "2 * pg \<le> unat (be_size b)" using registered(3) by (auto simp: backend_ok_def)
  ultimately show ?thesis
    using req' r' sz m header_layout [OF assms(1) live(3) hdr] registered(4) live(1,2) by (auto simp: abi_defs)
qed (use assms(4) in auto)

lemma register_ok_example:
  "\<exists>req' r'. host_register_vm 4096 kenv_ok True registry_zero
     \<lparr>nb_cpu = n, backend_name = 0, vm_id = 0, req_size = 0\<rparr> = Some (Inr req', r')"
proof -
  have "page_size_ok 4096" and "rounds_up_pow2 (roundup_pow_of_two kenv_ok)"
    by (simp_all add: kenv_ok_def rounds_up_pow2_roundup)
  then show ?thesis
    using registry_inv_zero
  proof (cases rule: host_register_vm_cases
      [where dbg = True and req = "\<lparr>nb_cpu = n, backend_name = 0, vm_id = 0, req_size = 0\<rparr>"])
    case (registered b)
    then show ?thesis by blast
  qed (auto simp: kenv_ok_def registry_zero_def)
qed

lemma ready_registry_example: "\<exists>r. h2g_ready 4096 r \<and> registry_inv 4096 r"
proof -
  have "page_size_ok 4096" and "rounds_up_pow2 (roundup_pow_of_two kenv_ok)"
    by (simp_all add: kenv_ok_def rounds_up_pow2_roundup)
  then show ?thesis
    using registry_inv_zero
  proof (cases rule: host_register_vm_cases
      [where dbg = True and req = "\<lparr>nb_cpu = 4, backend_name = 0, vm_id = 0, req_size = 0\<rparr>"])
    case (registered b)
    then show ?thesis
      using registry_inv_registered(1) [OF registry_inv_zero registered(2-4)]
      by (intro exI [of _ "registry_zero\<lparr>next_vm_id := next_vm_id registry_zero + 1,
            devices := (devices registry_zero)(nat (sint (next_vm_id registry_zero) + 1) := Some b)\<rparr>"])
        (simp add: h2g_ready_def FIRST_VM_MINOR_def registry_zero_def)
  qed (auto simp: kenv_ok_def registry_zero_def)
qed

theorem host_register_vm_layout_witness:
  "\<exists>req' r' b. host_register_vm 4096 kenv_ok True registry_zero
     \<lparr>nb_cpu = 4, backend_name = 0, vm_id = 0, req_size = 0\<rparr> = Some (Inr req', r') \<and>
     devices r' (nat (sint (vm_id req') + 1)) = Some b \<and> be_size b = req_size req' \<and>
     8448 \<le> unat (req_size req')"
proof -
  obtain req' r' where run: "host_register_vm 4096 kenv_ok True registry_zero
      \<lparr>nb_cpu = 4, backend_name = 0, vm_id = 0, req_size = 0\<rparr> = Some (Inr req', r')"
    using register_ok_example by blast
  have "rounds_up_pow2 (roundup_pow_of_two kenv_ok)"
    by (simp add: kenv_ok_def rounds_up_pow2_roundup)
  from host_register_vm_layout [OF page_size_ok_4096 this registry_inv_zero run] run show ?thesis
    by (auto simp: abi_defs)
qed

text \<open>
  C20. Writing a message through the eBPF entry point, with a history index from 1 to the last
  slot, succeeds and stores the message in that history slot and in slot 0, the latest slot;
  every byte of the backend outside those two words (header, other slots, guest-to-host
  region) keeps its value.
\<close>

theorem bpf_host_ivshmem_h2g_write_ok:
  assumes "page_size_ok pg" and "h2g_ready pg r" and "0 < unat index"
    and "unat index < NR_HOST_IVSHMEM_MSGS pg"
  shows "\<exists>r' b b' m m'. bpf_host_ivshmem_h2g_write pg r index (Some hg) = Some (None, r') \<and>
     devices r FIRST_VM_MINOR = Some b \<and> devices r' FIRST_VM_MINOR = Some b' \<and>
     be_mem b = Some m \<and> be_mem b' = Some m' \<and>
     h2g_slot pg r' (unat index) = hg_msg hg \<and> h2g_slot pg r' H2G_LATEST_SLOT = hg_msg hg \<and>
     (\<forall>x. \<not> (pg \<le> x \<and> x < pg + 8) \<and>
          \<not> (pg + unat index * 64 \<le> x \<and> x < pg + unat index * 64 + 8) \<longrightarrow> m' x = m x) \<and>
     (\<forall>i. i \<noteq> FIRST_VM_MINOR \<longrightarrow> devices r' i = devices r i)"
proof -
  obtain b m where b: "devices r FIRST_VM_MINOR = Some b" "be_mem b = Some m"
    and w: "bpf_host_ivshmem_h2g_write pg r index (Some hg) =
      Some (None, r\<lparr>devices := (devices r)(FIRST_VM_MINOR := Some (b\<lparr>be_mem := Some
       (store_le 8 (store_le 8 m (pg + unat index * 64) (hg_msg hg)) pg (hg_msg hg))\<rparr>))\<rparr>)"
    by (rule h2g_write_ready [OF assms])
  show ?thesis
    using b assms(3) unfolding w by (auto simp: h2g_slot_def abi_defs mem_simps)
qed

theorem bpf_host_ivshmem_h2g_write_ok_witness:
  "\<exists>r r'. h2g_ready 4096 r \<and>
     bpf_host_ivshmem_h2g_write 4096 r 5 (Some (hg_message_zero\<lparr>hg_msg := 42\<rparr>)) = Some (None, r') \<and>
     h2g_slot 4096 r' 5 = 42 \<and> h2g_slot 4096 r' 0 = 42"
proof -
  obtain r where r: "h2g_ready 4096 r" using ready_registry_example by blast
  then show ?thesis
    using bpf_host_ivshmem_h2g_write_ok [OF page_size_ok_4096 r, of 5 "hg_message_zero\<lparr>hg_msg := 42\<rparr>"]
    by (auto simp: abi_defs)
qed

text \<open>
  C21. Index 0, the latest slot, and every index past the last slot are refused: the call
  reports an error and changes nothing, whatever the state of the registry.
\<close>

theorem bpf_host_ivshmem_h2g_write_refused:
  assumes "unat index = H2G_LATEST_SLOT \<or> NR_HOST_IVSHMEM_MSGS pg \<le> unat index"
  shows "\<exists>e. bpf_host_ivshmem_h2g_write pg r index (Some hg) = Some (Some e, r) \<and>
     (e = ENODEV \<or> e = EINVAL)"
  using assms by (auto simp: bpf_host_ivshmem_h2g_write_def host_ivshmem_h2g_write_msg_def
      split: option.splits)

theorem bpf_host_ivshmem_h2g_write_refused_witness:
  "\<exists>e. bpf_host_ivshmem_h2g_write 4096 registry_zero 64 (Some hg_message_zero) =
     Some (Some e, registry_zero)"
  using bpf_host_ivshmem_h2g_write_refused [of 64 4096 registry_zero hg_message_zero]
  by (auto simp: abi_defs)

text \<open>
  C13. Reading guest state never leaves the memory of a backend that was registered for at least
  one vCPU, for any index and any state of the message pages.
\<close>

theorem host_ivshmem_g2h_read_in_bounds:
  assumes "page_size_ok pg" and "rounds_up_pow2 (roundup_pow_of_two env)" and "registry_inv pg r"
    and "host_register_vm pg env dbg_root r req = Some (Inr req', r')" and "0 < nb_cpu req"
  shows "\<exists>res. host_ivshmem_g2h_read pg (devices r' (nat (sint (vm_id req') + 1))) index msg = Some res"
  using assms(1-3)
proof (cases rule: host_register_vm_cases [where dbg = dbg_root and req = req])
  case (registered b)
  have "3 * pg \<le> unat (be_size b)"
    using backend_size_g2h(2) [OF assms(1,2,5)] registered(5) by simp
  moreover from registered(1) assms(4) have "devices r' (nat (sint (vm_id req') + 1)) = Some b"
    by auto
  ultimately show ?thesis using g2h_read_mapped [OF assms(1)] by metis
qed (use assms(4) in auto)

theorem host_ivshmem_g2h_read_in_bounds_witness:
  "\<exists>req' r' res. host_register_vm 4096 kenv_ok True registry_zero
     \<lparr>nb_cpu = 1, backend_name = 0, vm_id = 0, req_size = 0\<rparr> = Some (Inr req', r') \<and>
     host_ivshmem_g2h_read 4096 (devices r' (nat (sint (vm_id req') + 1))) 63 (Some gh_message_zero) =
       Some res"
proof -
  obtain req' r' where run: "host_register_vm 4096 kenv_ok True registry_zero
      \<lparr>nb_cpu = 1, backend_name = 0, vm_id = 0, req_size = 0\<rparr> = Some (Inr req', r')"
    using register_ok_example by blast
  have "rounds_up_pow2 (roundup_pow_of_two kenv_ok)"
    by (simp add: kenv_ok_def rounds_up_pow2_roundup)
  from host_ivshmem_g2h_read_in_bounds [OF page_size_ok_4096 this registry_inv_zero run,
      of 63 "Some gh_message_zero"] run
  show ?thesis by auto
qed

text \<open>
  The kernel side accepts a request for zero vCPUs. The backend then ends where the
  guest-to-host region would start, and the first read of guest state leaves its memory: a
  rounding that keeps the power of two it is given (two pages) makes the read of slot 0 fault.
\<close>

theorem host_register_vm_zero_cpus_faults:
  assumes "page_size_ok pg" and "kzalloc_ok env" and "vmalloc_ok env" and "cdev_add_ret env = None"
    and "device_create_ret env = None"
    and "roundup_pow_of_two env (of_nat (2 * pg)) = of_nat (2 * pg)"
    and "next_vm_id r = 0" and "nb_cpu req = 0"
  shows "\<exists>req' r'. host_register_vm pg env dbg_root r req = Some (Inr req', r') \<and>
     bpf_host_ivshmem_g2h_read pg r' 0 (Some gh) = None"
proof -
  have pg: "4096 \<le> pg" "pg \<le> 65536" using page_size_okD [OF assms(1)] by auto
  have "unat (backend_bytes pg 0) = 2 * pg"
    using unat_backend_bytes [OF assms(1), of 0] pg by simp
  then have bytes: "backend_bytes pg 0 = of_nat (2 * pg)" by (metis of_nat_unat ucast_id)
  let ?b = "backend_zero\<lparr>be_size := of_nat (2 * pg)\<rparr>"
  have sz: "unat (be_size ?b) = 2 * pg" using unat_of_nat_u64 [of "2 * pg"] pg by simp
  obtain b' where c: "host_ivshmem_create_static_backend pg env dbg_root 1 ?b = Some (None, b')"
    and b': "be_size b' = be_size ?b" "backend_ok pg b'"
    using create_static_backend_spec [OF assms(1), of ?b env dbg_root 1] sz assms(3-5) by auto
  from b'(2) obtain m where m: "be_mem b' = Some m" by (rule backend_okD)
  have "host_ivshmem_g2h_read pg (Some b') 0 (Some gh) = None"
    using m b'(1) sz page_size_okD(4) [OF assms(1)]
    by (simp add: host_ivshmem_g2h_read_def load_chk_def NR_GUEST_eq_HOST)
      (simp add: abi_defs)
  then show ?thesis
    using assms c bytes
    by (auto simp: host_register_vm_def abi_defs Let_def bpf_host_ivshmem_g2h_read_def
        FIRST_VM_MINOR_def)
qed

theorem host_register_vm_zero_cpus_faults_witness:
  "\<exists>req' r'. host_register_vm 4096 kenv_ok True registry_zero
     \<lparr>nb_cpu = 0, backend_name = 0, vm_id = 0, req_size = 0\<rparr> = Some (Inr req', r') \<and>
     bpf_host_ivshmem_g2h_read 4096 r' 0 (Some gh_message_zero) = None"
proof -
  have "ceillog2 8192 = 13" by (rule ceillog2_eqI) simp_all
  then have "pow2_roundup 8192 = 8192" by (simp add: pow2_roundup_def)
  then show ?thesis
    using host_register_vm_zero_cpus_faults [OF page_size_ok_4096, of kenv_ok registry_zero
        "\<lparr>nb_cpu = 0, backend_name = 0, vm_id = 0, req_size = 0\<rparr>" True gh_message_zero]
    by (simp add: kenv_ok_def registry_zero_def)
qed

text \<open>
  Only the first page of guest state is ever read. When a VM registers with more vCPUs than
  one page has slots, the slot of a vCPU past that page is allocated inside the backend, yet
  every read of it is refused with EINVAL.
\<close>

theorem bpf_host_ivshmem_g2h_read_high_vcpu:
  assumes "page_size_ok pg" and "rounds_up_pow2 (roundup_pow_of_two env)" and "registry_inv pg r"
    and "host_register_vm pg env dbg_root r req = Some (Inr req', r')" and "next_vm_id r = 0"
    and "index < nb_cpu req" and "NR_GUEST_IVSHMEM_MSGS pg \<le> unat index"
  shows "HOST_IVSHMEM_G2H_OFFSET pg + (unat index + 1) * GUEST_IVSHMEM_MSG_SIZE \<le> unat (req_size req') \<and>
     bpf_host_ivshmem_g2h_read pg r' index (Some gh) = Some (Inl EINVAL)"
  using assms(1-3)
proof (cases rule: host_register_vm_cases [where dbg = dbg_root and req = req])
  case (registered b)
  let ?n = "nb_cpu req"
  from registered(1) assms(4,5) have req': "req_size req' = be_size b"
    and r': "devices r' FIRST_VM_MINOR = Some b" by (auto simp: FIRST_VM_MINOR_def)
  have "unat index + 1 \<le> unat ?n" using assms(6) by (simp add: word_less_nat_alt)
  then have "2 * pg + (unat index + 1) * 64 \<le> 2 * pg + unat ?n * 64" by simp
  also have "\<dots> \<le> (2 + (unat ?n * 64 + pg - 1) div pg) * pg"
    using pages_cover [of pg "unat ?n * 64"] page_size_okD(1) [OF assms(1)] by simp
  also have "\<dots> \<le> unat (be_size b)"
    using backend_size_bounds [OF assms(1,2)] registered(5) by simp
  finally have "2 * pg + (unat index + 1) * 64 \<le> unat (be_size b)" .
  moreover obtain m where "be_mem b = Some m" using registered(3) by (rule backend_okD)
  ultimately show ?thesis
    using req' r' assms(7)
    by (simp add: bpf_host_ivshmem_g2h_read_def host_ivshmem_g2h_read_def) (simp add: abi_defs)
qed (use assms(4) in auto)

theorem bpf_host_ivshmem_g2h_read_high_vcpu_witness:
  "\<exists>req' r'. host_register_vm 4096 kenv_ok True registry_zero
     \<lparr>nb_cpu = 65, backend_name = 0, vm_id = 0, req_size = 0\<rparr> = Some (Inr req', r') \<and>
     8192 + 65 * 64 \<le> unat (req_size req') \<and>
     bpf_host_ivshmem_g2h_read 4096 r' 64 (Some gh_message_zero) = Some (Inl EINVAL)"
proof -
  obtain req' r' where run: "host_register_vm 4096 kenv_ok True registry_zero
      \<lparr>nb_cpu = 65, backend_name = 0, vm_id = 0, req_size = 0\<rparr> = Some (Inr req', r')"
    using register_ok_example by blast
  have "rounds_up_pow2 (roundup_pow_of_two kenv_ok)"
    by (simp add: kenv_ok_def rounds_up_pow2_roundup)
  from bpf_host_ivshmem_g2h_read_high_vcpu [OF page_size_ok_4096 this registry_inv_zero run, of 64
      gh_message_zero] run
  show ?thesis by (auto simp: abi_defs registry_zero_def)
qed

text \<open>The state of the module before it is loaded.\<close>

definition module_zero :: host_module where
  "module_zero = \<lparr>chrdev_regions = 0, class_live = False, debugfs_root = False,
     kfuncs_registered = False, registry = registry_zero\<rparr>"

text \<open>
  Nothing is left of the module: device numbers, class, debugfs directory, registry device,
  backends, and no device, debugfs file or memory of a backend that was freed.
\<close>

definition module_released :: "host_module \<Rightarrow> bool" where
  "module_released s \<longleftrightarrow> chrdev_regions s = 0 \<and> \<not> class_live s \<and> \<not> debugfs_root s \<and>
     reg_cdev (registry s) = 0 \<and> \<not> reg_dev (registry s) \<and>
     (\<forall>i < MAX_NB_DEVICES. devices (registry s) i = None) \<and> orphans (registry s) = 0"

text \<open>
  C22. Loading the module either succeeds with device numbers, class, registry device and eBPF
  functions in place, or, when the failing step is the page-size check, the device-number
  allocation, the creation of the registry device or the registration of the eBPF functions, it
  gives back everything it took. Unloading after a successful load, whatever backends are in the
  device table by then, gives everything back, and the character device, device node, debugfs
  file and memory of every backend are released before its structure is freed.
\<close>

theorem host_ivshmem_init_exit:
  assumes "host_ivshmem_init pg env module_zero = (ret, s)"
  shows "(ret = None \<longrightarrow> chrdev_regions s = 1 \<and> class_live s \<and> reg_cdev (registry s) = 1 \<and>
       reg_dev (registry s) \<and> kfuncs_registered s \<and>
       (\<forall>d v. module_released (host_ivshmem_exit (s\<lparr>registry := (registry s)\<lparr>devices := d, next_vm_id := v\<rparr>\<rparr>)))) \<and>
     (ret \<noteq> None \<and> class_create_ret env = None \<and> reg_cdev_add_ret env = None \<longrightarrow>
       module_released s)"
  using assms
  by (auto simp: host_ivshmem_init_def host_create_registry_backend_def err_destroy_backend_def
      err_destroy_class_def err_unregister_chrdev_def host_destroy_registry_backend_def
      host_ivshmem_exit_def module_released_def module_zero_def registry_zero_def Let_def
      destroy_devices_eq split: if_splits option.splits)

definition init_env_ok :: init_env where
  "init_env_ok = \<lparr>alloc_chrdev_ret = None, class_create_ret = None, debugfs_create_dir_ok = True,
     reg_cdev_add_ret = None, reg_device_create_ret = None, register_kfuncs_ret = None\<rparr>"

theorem host_ivshmem_init_exit_witness:
  "\<exists>s s'. host_ivshmem_init 4096 init_env_ok module_zero = (None, s) \<and> reg_dev (registry s) \<and>
     host_ivshmem_init 4096 (init_env_ok\<lparr>register_kfuncs_ret := Some EBUSY\<rparr>) module_zero =
       (Some EBUSY, s') \<and> module_released s'"
proof -
  obtain s where s: "host_ivshmem_init 4096 init_env_ok module_zero = (None, s)"
    by (simp add: host_ivshmem_init_def init_env_ok_def host_create_registry_backend_def abi_defs Let_def)
  obtain s' where s': "host_ivshmem_init 4096 (init_env_ok\<lparr>register_kfuncs_ret := Some EBUSY\<rparr>) module_zero =
       (Some EBUSY, s')"
    by (simp add: host_ivshmem_init_def init_env_ok_def host_create_registry_backend_def abi_defs Let_def)
  show ?thesis
    using host_ivshmem_init_exit [OF s] host_ivshmem_init_exit [OF s'] s s'
    by (auto simp: init_env_ok_def)
qed

text \<open>
  Two failing steps are unwound wrongly: when the class cannot be created the device
  numbers are given back twice and the debugfs directory stays behind; when the registry device
  cannot be added it is deleted all the same.
\<close>

theorem host_ivshmem_init_unwind_defects:
  assumes "pg mod HOST_IVSHMEM_MSG_SIZE = 0" and "alloc_chrdev_ret env = None"
  shows "(class_create_ret env = Some e \<and> debugfs_create_dir_ok env \<longrightarrow>
       host_ivshmem_init pg env module_zero =
         (Some e, module_zero\<lparr>chrdev_regions := -1, debugfs_root := True\<rparr>)) \<and>
     (class_create_ret env = None \<and> reg_cdev_add_ret env = Some e \<longrightarrow>
       (\<exists>s. host_ivshmem_init pg env module_zero = (Some e, s) \<and> reg_cdev (registry s) = -1))"
  using assms
  by (auto simp: host_ivshmem_init_def host_create_registry_backend_def err_destroy_backend_def
      err_destroy_class_def err_unregister_chrdev_def host_destroy_registry_backend_def
      module_zero_def registry_zero_def Let_def destroy_devices_eq)

theorem host_ivshmem_init_unwind_defects_witness:
  "host_ivshmem_init 4096 (init_env_ok\<lparr>class_create_ret := Some ENOMEM\<rparr>) module_zero =
     (Some ENOMEM, module_zero\<lparr>chrdev_regions := -1, debugfs_root := True\<rparr>)"
  using host_ivshmem_init_unwind_defects
    [of 4096 "init_env_ok\<lparr>class_create_ret := Some ENOMEM\<rparr>" ENOMEM]
  by (simp add: init_env_ok_def abi_defs)

end
