(* ===== verification/Bpf_Maps.thy ===== *)
theory Bpf_Maps
  imports Host_Ivshmem
begin

text \<open>
  The data the host eBPF programs and the userspace tools share: the structures of
  \<^verbatim>\<open>register_vm_bpf.h\<close> and \<^verbatim>\<open>phantom_tracker.h\<close>, eBPF arrays and hash maps,
  and the names under which a VM's sample buffers are found.
\<close>

named_theorems bpf_simps \<open>operations on eBPF arrays\<close>

subsection \<open>eBPF arrays\<close>

text \<open>
  A \<open>BPF_MAP_TYPE_ARRAY\<close> has all its entries from the start. A lookup past the end gives
  NULL, an update past the end fails with \<open>E2BIG\<close>; \<open>bpf_for_each_map_elem\<close> visits the
  indices in increasing order (the callbacks here always ask to go on).
\<close>

record 'v bpf_array =
  arr_max :: nat
  arr_val :: "nat \<Rightarrow> 'v"

definition array_lookup :: "'v bpf_array \<Rightarrow> u32 \<Rightarrow> 'v option" where
  "array_lookup a k = (if unat k < arr_max a then Some (arr_val a (unat k)) else None)"

definition array_update :: "'v bpf_array \<Rightarrow> u32 \<Rightarrow> 'v \<Rightarrow> errno option \<times> 'v bpf_array" where
  "array_update a k v =
     (if unat k < arr_max a then (None, a\<lparr>arr_val := (arr_val a)(unat k := v)\<rparr>) else (Some E2BIG, a))"

definition array_for_each :: "(u32 \<Rightarrow> 'v \<Rightarrow> 'c \<Rightarrow> 'c) \<Rightarrow> 'v bpf_array \<Rightarrow> 'c \<Rightarrow> 'c" where
  "array_for_each f a c = fold (\<lambda>k. f (of_nat k) (arr_val a k)) [0..<arr_max a] c"

subsection \<open>Structures (register\_vm\_bpf.h, phantom\_tracker.h)\<close>

definition VM_NAME_LEN :: nat where
  "VM_NAME_LEN = 64"

record vm_t =
  qmp_socket :: string
  vm_phantom_count :: s64
  collection_buff_1_index :: u32
  collection_buff_2_index :: u32
  is_collectx_in_buff_1 :: u64
  nb_vcpus :: u32
  h2g_history_index :: u32

record vcpu_t =
  vcpu_index :: u32
  vm_name :: string
  is_phantom :: u64

record phantom_count =
  pc_count :: s64
  pc_timestamp :: u64

record global_runnx_sample =
  rx_count :: s64
  rx_timestamp :: u64

record global_runnx_tracker_state =
  global_runnx_count :: s64
  gs_buff_1_index :: u32
  gs_buff_2_index :: u32
  gs_is_collectx_in_buff_1 :: u64
  nb_cpus :: u32
  last_idle_avg :: u64
  global_runnx_avg :: u64

definition phantom_count_zero :: phantom_count where
  "phantom_count_zero = \<lparr>pc_count = 0, pc_timestamp = 0\<rparr>"

subsection \<open>The maps of the host programs\<close>

text \<open>
  \<open>vms\<close> and \<open>vcpus\<close> are hash maps; a looked-up value is changed in place.
  \<open>map_registry\<close> is a hash of maps: it names inner arrays, which live in \<open>inner_maps\<close>,
  so that two names may denote one array. \<open>ktime_calls\<close> counts the readings of the clock;
  the clock itself is the parameter \<open>ktime\<close>, giving the value of each reading. \<open>shm\<close> is
  the state of the shared-memory module.
\<close>

record host_state =
  vms :: "string \<rightharpoonup> vm_t"
  vcpus :: "u32 \<rightharpoonup> vcpu_t"
  map_registry :: "string \<rightharpoonup> nat"
  inner_maps :: "nat \<Rightarrow> phantom_count bpf_array"
  ktime_calls :: nat
  shm :: host_registry

definition inner_update :: "nat \<Rightarrow> u32 \<Rightarrow> phantom_count \<Rightarrow> host_state \<Rightarrow> host_state" where
  "inner_update mid k v s =
     s\<lparr>inner_maps := (inner_maps s)(mid := snd (array_update (inner_maps s mid) k v))\<rparr>"

subsection \<open>Names of the sample buffers\<close>

text \<open>
  The copy loop of the eBPF programs: at most \<open>VM_NAME_LEN - 3\<close> characters, stopping after
  the NUL. It returns the loop counter and the buffer.
\<close>

fun copy_name :: "nat \<Rightarrow> nat \<Rightarrow> string \<Rightarrow> string \<Rightarrow> nat \<times> string" where
  "copy_name 0 i name buf = (i, buf)"
| "copy_name (Suc n) i name buf =
     (let c = name ! i; buf' = buf[i := c]
      in if c = nul then (i, buf') else copy_name n (Suc i) name buf')"

definition collection_key :: "char \<Rightarrow> string \<Rightarrow> string" where
  "collection_key d name =
     (let (i, buf) = copy_name (VM_NAME_LEN - 3) 0 name (replicate VM_NAME_LEN nul)
      in buf[i := CHR ''_'', i + 1 := d, i + 2 := nul])"

subsection \<open>Lemmas on arrays\<close>

lemma array_lookup_update [bpf_simps]:
  "array_lookup (snd (array_update a k v)) j =
     (if j = k \<and> unat k < arr_max a then Some v else array_lookup a j)"
  by (auto simp: array_lookup_def array_update_def dest: unsigned_word_eqI)

lemma arr_max_update [bpf_simps]: "arr_max (snd (array_update a k v)) = arr_max a"
  by (simp add: array_update_def)

lemma arr_val_update [bpf_simps]:
  "arr_val (snd (array_update a k v)) j =
     (if j = unat k \<and> unat k < arr_max a then v else arr_val a j)"
  by (simp add: array_update_def)

subsection \<open>Lemmas on names\<close>

lemma takeWhile_take_commute: "takeWhile P (take n xs) = take n (takeWhile P xs)"
  by (induction xs arbitrary: n) (auto simp: take_Cons split: nat.splits)

lemma copy_name_prefix:
  assumes "length name = VM_NAME_LEN" and "i + n \<le> VM_NAME_LEN"
  shows "copy_name n i name (take i name @ replicate (VM_NAME_LEN - i) nul) =
    (let j = i + length (takeWhile (\<lambda>c. c \<noteq> nul) (take n (drop i name)))
     in (j, take j name @ replicate (VM_NAME_LEN - j) nul))"
  using assms(2)
proof (induction n arbitrary: i)
  case 0
  then show ?case by simp
next
  case (Suc n)
  have i: "i < length name" using Suc.prems assms(1) by simp
  have set_i: "(take i name @ replicate (VM_NAME_LEN - i) nul)[i := c] =
      take i name @ c # replicate (VM_NAME_LEN - Suc i) nul" for c
    using i assms(1) by (simp add: list_update_append Suc_diff_Suc [symmetric])
  have step: "take i name @ name ! i # replicate (VM_NAME_LEN - Suc i) nul =
      take (Suc i) name @ replicate (VM_NAME_LEN - Suc i) nul"
    using i by (simp add: take_Suc_conv_app_nth)
  have drop_i: "take (Suc n) (drop i name) = name ! i # take n (drop (Suc i) name)"
    using i by (simp add: Cons_nth_drop_Suc [symmetric])
  show ?case
  proof (cases "name ! i = nul")
    case True
    then show ?thesis
      using set_i [of nul] i assms(1) by (simp add: drop_i Let_def Suc_diff_Suc [symmetric])
  next
    case False
    then show ?thesis
      using Suc.IH [of "Suc i"] Suc.prems by (simp add: set_i drop_i step Let_def)
  qed
qed

text \<open>
  The key an eBPF program builds from a 64-byte name: its first 61 characters, an underscore
  and the digit, zero-padded.
\<close>

lemma collection_key_eq:
  assumes "length name = VM_NAME_LEN"
  shows "collection_key d name = fill_buf VM_NAME_LEN (take 61 (c_str name) @ [CHR ''_'', d])"
proof -
  define j where "j = length (takeWhile (\<lambda>c. c \<noteq> nul) (take 61 name))"
  have j: "j \<le> 61" using length_takeWhile_le [of "\<lambda>c. c \<noteq> nul" "take 61 name"] by (simp add: j_def)
  have tw: "takeWhile (\<lambda>c. c \<noteq> nul) (take 61 name) = take 61 (c_str name)"
    unfolding c_str_def by (rule takeWhile_take_commute)
  have "take j name = take j (take 61 name)" using j by (simp add: min_def)
  also have "\<dots> = takeWhile (\<lambda>c. c \<noteq> nul) (take 61 name)"
    unfolding j_def by (rule takeWhile_eq_take [symmetric])
  finally have pre: "take j name = take 61 (c_str name)" by (simp add: tw)
  have len: "length (take j name) = j" using j assms by (simp add: VM_NAME_LEN_def)
  have "copy_name 61 0 name (replicate 64 nul) = (j, take j name @ replicate (64 - j) nul)"
    using copy_name_prefix [OF assms, of 0 61] by (simp add: VM_NAME_LEN_def j_def Let_def)
  then have "collection_key d name =
      (take j name @ replicate (64 - j) nul)[j := CHR ''_'', j + 1 := d, j + 2 := nul]"
    by (simp add: collection_key_def VM_NAME_LEN_def)
  also have "replicate (64 - j) nul = nul # nul # nul # replicate (61 - j) nul"
    using j by (simp add: replicate_Suc [symmetric] Suc_diff_le del: replicate_Suc)
  also have "(take j name @ nul # nul # nul # replicate (61 - j) nul)[j := CHR ''_'', j + 1 := d, j + 2 := nul] =
      take j name @ CHR ''_'' # d # nul # replicate (61 - j) nul"
    using len by (simp add: list_update_append)
  also have "nul # replicate (61 - j) nul = replicate (62 - j) nul"
    using j by (cases "62 - j") auto
  also have "take j name @ CHR ''_'' # d # replicate (62 - j) nul =
      fill_buf VM_NAME_LEN (take j name @ [CHR ''_'', d])"
    using j len by (simp add: fill_buf_def VM_NAME_LEN_def)
  finally show ?thesis by (simp add: pre)
qed

text \<open>The key userspace registers and removes: \<open>snprintf(key, sizeof(key), "%s_1", vm_name)\<close>.\<close>

definition registry_key :: "char \<Rightarrow> string \<Rightarrow> string" where
  "registry_key d vm = fill_buf VM_NAME_LEN (vm @ [CHR ''_'', d])"

text \<open>The key of a VM in \<open>vms\<close>, and the name stored with its vCPUs.\<close>

definition vm_key :: "string \<Rightarrow> string" where
  "vm_key vm = fill_buf VM_NAME_LEN vm"

lemma length_vm_key [simp]: "length (vm_key vm) = VM_NAME_LEN"
  by (simp add: vm_key_def VM_NAME_LEN_def)

lemma collection_key_vm_key:
  assumes "c_string vm"
  shows "collection_key d (vm_key vm) = fill_buf VM_NAME_LEN (take 61 vm @ [CHR ''_'', d])"
  using collection_key_eq [of "vm_key vm" d] c_str_fill_buf [OF assms, of VM_NAME_LEN]
  by (simp add: vm_key_def VM_NAME_LEN_def)

subsection \<open>Properties\<close>

text \<open>
  C23. For a VM name of at most 61 characters, the registry key an eBPF program builds from the
  stored name is the key userspace registered, for both buffers; keys of different names are
  different, and so are the keys of the two buffers of any names.
\<close>

theorem collection_key_agrees:
  assumes "c_string vm" and "c_string vm'" and "length vm \<le> 61" and "length vm' \<le> 61"
    and "d \<noteq> nul" and "d' \<noteq> nul"
  shows "collection_key d (vm_key vm) = registry_key d vm \<and>
    (collection_key d (vm_key vm) = registry_key d' vm' \<longleftrightarrow> vm = vm' \<and> d = d')"
proof -
  have eq: "collection_key d (vm_key vm) = registry_key d vm"
    using collection_key_vm_key [OF assms(1), of d] assms(3) by (simp add: registry_key_def)
  have "c_string (vm @ [CHR ''_'', d])" "c_string (vm' @ [CHR ''_'', d'])"
    using assms by (auto simp: c_string_def)
  then have "registry_key d vm = registry_key d' vm' \<longleftrightarrow> vm @ [CHR ''_'', d] = vm' @ [CHR ''_'', d']"
    using assms(3,4) by (simp add: registry_key_def fill_buf_inject VM_NAME_LEN_def)
  with eq show ?thesis by auto
qed

theorem collection_key_agrees_witness:
  "collection_key CHR ''1'' (vm_key ''vm0'') = registry_key CHR ''1'' ''vm0'' \<and>
   collection_key CHR ''1'' (vm_key ''vm0'') \<noteq> registry_key CHR ''2'' ''vm0''"
  using collection_key_agrees [of "''vm0''" "''vm0''" "CHR ''1''" "CHR ''2''"]
  by (auto simp: c_string_def)

text \<open>
  Past 61 characters the two sides disagree: for a VM name of 62 or more characters
  userspace registers both buffers under one and the same key, while the eBPF programs look
  under two different ones, so at least one buffer of such a VM is never found.
\<close>

theorem collection_key_long_name:
  assumes "c_string vm" and "62 \<le> length vm"
  shows "registry_key CHR ''1'' vm = registry_key CHR ''2'' vm \<and>
    collection_key CHR ''1'' (vm_key vm) \<noteq> collection_key CHR ''2'' (vm_key vm) \<and>
    (\<exists>d \<in> {CHR ''1'', CHR ''2''}. \<forall>d' \<in> {CHR ''1'', CHR ''2''}.
       collection_key d (vm_key vm) \<noteq> registry_key d' vm)"
proof -
  have cut: "take 63 (vm @ [CHR ''_'', d]) = take 63 (vm @ [CHR ''_''])" for d
    using assms(2) by (auto simp: take_Cons' not_le)
  have same: "registry_key CHR ''1'' vm = registry_key CHR ''2'' vm"
    using cut by (simp add: registry_key_def fill_buf_def VM_NAME_LEN_def)
  have cs: "c_string (take 61 vm @ [CHR ''_'', d])" if "d \<noteq> nul" for d
    using assms(1) that in_set_takeD [of nul 61 vm] by (auto simp: c_string_def)
  have "collection_key CHR ''1'' (vm_key vm) \<noteq> collection_key CHR ''2'' (vm_key vm)"
    using assms(2) fill_buf_inject [OF cs [of "CHR ''1''"] cs [of "CHR ''2''"], of VM_NAME_LEN]
    by (simp add: collection_key_vm_key [OF assms(1)] VM_NAME_LEN_def)
  with same show ?thesis by auto
qed

theorem collection_key_long_name_witness:
  "registry_key CHR ''1'' (replicate 62 CHR ''a'') = registry_key CHR ''2'' (replicate 62 CHR ''a'')"
  using collection_key_long_name [of "replicate 62 CHR ''a''"] by (simp add: c_string_def)

end
