(* ===== verification/Phantom_Switch.thy ===== *)
theory Phantom_Switch
  imports Bpf_Maps
begin

text \<open>
  Phantom counting, \<^verbatim>\<open>pvsched-ebpf/host/ebpf/create_maps/create_maps.bpf.c\<close>: the two
  clamped atomic updates and the \<open>sched_switch\<close> handler. The handler is run to completion
  for one context switch; what other CPUs do to the counter between a read and the following
  compare-and-swap is the parameter \<open>env\<close> of the two update loops.
\<close>

definition TASK_RUNNING :: u64 where
  "TASK_RUNNING = 0"

definition TASK_WAKING :: u64 where
  "TASK_WAKING = 0x200"

subsection \<open>Clamped atomic updates\<close>

text \<open>
  One attempt reads the counter, gives up when it is at the bound, and otherwise tries to swap.
  Other CPUs may change the counter at two points of an attempt, between the read and the
  compare-and-swap and between a failed compare-and-swap and the next read; \<open>env k v\<close> is
  what the \<open>k\<close>-th of these points makes of the value \<open>v\<close>. The result is the returned value
  and the final counter.
\<close>

fun dec_attempts :: "nat \<Rightarrow> (nat \<Rightarrow> s64 \<Rightarrow> s64) \<Rightarrow> nat \<Rightarrow> s64 \<Rightarrow> s64 \<times> s64" where
  "dec_attempts 0 env k p = (p, p)"
| "dec_attempts (Suc n) env k p =
     (let old = p in
      if sint old \<le> 0 then (old, p)
      else
        let new = old - 1; p' = env k p
        in if p' = old then (new, new) else dec_attempts n env (Suc (Suc k)) (env (Suc k) p'))"

definition atomic_dec_if_pos :: "(nat \<Rightarrow> s64 \<Rightarrow> s64) \<Rightarrow> s64 \<Rightarrow> s64 \<times> s64" where
  "atomic_dec_if_pos env p = dec_attempts 24 env 0 p"

fun inc_attempts :: "nat \<Rightarrow> (nat \<Rightarrow> s64 \<Rightarrow> s64) \<Rightarrow> nat \<Rightarrow> s64 \<Rightarrow> u32 \<Rightarrow> s64 \<times> s64" where
  "inc_attempts 0 env k p ceil_val = (p, p)"
| "inc_attempts (Suc n) env k p ceil_val =
     (let old = p in
      if uint ceil_val \<le> sint old then (old, p)
      else
        let new = old + 1; p' = env k p
        in if p' = old then (new, new)
           else inc_attempts n env (Suc (Suc k)) (env (Suc k) p') ceil_val)"

definition atomic_inc_if_lt_ceil :: "(nat \<Rightarrow> s64 \<Rightarrow> s64) \<Rightarrow> s64 \<Rightarrow> u32 \<Rightarrow> s64 \<times> s64" where
  "atomic_inc_if_lt_ceil env p ceil_val = inc_attempts 24 env 0 p ceil_val"

text \<open>No interference.\<close>

definition quiet :: "nat \<Rightarrow> s64 \<Rightarrow> s64" where
  "quiet k v = v"

subsection \<open>Recording a sample\<close>

text \<open>
  The tail both halves of the handler share: find the buffer that is collecting, reserve an
  index in it, and store the new count with the time. \<open>name\<close> is the name stored with the vCPU,
  which is also the key under which the VM was found.
\<close>

definition record_sample :: "(nat \<Rightarrow> u64) \<Rightarrow> string \<Rightarrow> s64 \<Rightarrow> host_state \<Rightarrow> host_state" where
  "record_sample ktime name new_count s =
     (case vms s name of None \<Rightarrow> s | Some vm \<Rightarrow>
       if is_collectx_in_buff_1 vm = 1 then
         (case map_registry s (collection_key CHR ''1'' name) of None \<Rightarrow> s
          | Some mid \<Rightarrow>
              let idx = collection_buff_1_index vm;
                  s1 = s\<lparr>vms := (vms s)(name \<mapsto> vm\<lparr>collection_buff_1_index := idx + 1\<rparr>)\<rparr>;
                  t = ktime (ktime_calls s1);
                  s2 = s1\<lparr>ktime_calls := Suc (ktime_calls s1)\<rparr>
              in inner_update mid idx \<lparr>pc_count = new_count, pc_timestamp = t\<rparr> s2)
       else
         (case map_registry s (collection_key CHR ''2'' name) of None \<Rightarrow> s
          | Some mid \<Rightarrow>
              let idx = collection_buff_2_index vm;
                  s1 = s\<lparr>vms := (vms s)(name \<mapsto> vm\<lparr>collection_buff_2_index := idx + 1\<rparr>)\<rparr>;
                  t = ktime (ktime_calls s1);
                  s2 = s1\<lparr>ktime_calls := Suc (ktime_calls s1)\<rparr>
              in inner_update mid idx \<lparr>pc_count = new_count, pc_timestamp = t\<rparr> s2))"

subsection \<open>The handler\<close>

record switch_ctx =
  next_pid :: u32
  prev_pid :: u32
  ctx_prev_state :: u64

text \<open>
  The guest's run state of a vCPU; the message structure is zeroed, and an error leaves it so.
\<close>

definition guest_run_state :: "nat \<Rightarrow> host_state \<Rightarrow> u32 \<Rightarrow> u64 option" where
  "guest_run_state pg s index =
     (case bpf_host_ivshmem_g2h_read pg (shm s) index (Some gh_message_zero) of
        None \<Rightarrow> None
      | Some (Inl _) \<Rightarrow> Some (gh_msg gh_message_zero)
      | Some (Inr g) \<Rightarrow> Some (gh_msg g))"

text \<open>
  The incoming half. Its second component is the local variable \<open>prev_state\<close>, which starts at
  0 and is set only here.
\<close>

definition switch_in :: "nat \<Rightarrow> (nat \<Rightarrow> u64) \<Rightarrow> switch_ctx \<Rightarrow> host_state \<Rightarrow> (host_state \<times> u64) option" where
  "switch_in pg ktime ctx s =
     (let incoming_process = next_pid ctx in
      case vcpus s incoming_process of None \<Rightarrow> Some (s, 0)
      | Some vcpu \<Rightarrow> do {
          msg \<leftarrow> guest_run_state pg s (vcpu_index vcpu);
          let prev_state = ctx_prev_state ctx;
          if msg = 1 \<and> is_phantom vcpu = 1 then
            let s1 = s\<lparr>vcpus := (vcpus s)(incoming_process \<mapsto> vcpu\<lparr>is_phantom := 0\<rparr>)\<rparr> in
            (case vms s1 (vm_name vcpu) of None \<Rightarrow> Some (s1, prev_state)
             | Some vm \<Rightarrow>
                 let (new_count, p) = atomic_dec_if_pos quiet (vm_phantom_count vm);
                     s2 = s1\<lparr>vms := (vms s1)(vm_name vcpu \<mapsto> vm\<lparr>vm_phantom_count := p\<rparr>)\<rparr>
                 in Some (record_sample ktime (vm_name vcpu) new_count s2, prev_state))
          else Some (s, prev_state)
        })"

definition switch_out :: "nat \<Rightarrow> (nat \<Rightarrow> u64) \<Rightarrow> switch_ctx \<Rightarrow> u64 \<Rightarrow> host_state \<Rightarrow> host_state option" where
  "switch_out pg ktime ctx prev_state s =
     (let outgoing_process = prev_pid ctx in
      case vcpus s outgoing_process of None \<Rightarrow> Some s
      | Some vcpu \<Rightarrow> do {
          msg \<leftarrow> guest_run_state pg s (vcpu_index vcpu);
          if msg = 1 \<and> (prev_state = TASK_RUNNING \<or> prev_state = TASK_WAKING) \<and> is_phantom vcpu = 0 then
            let s1 = s\<lparr>vcpus := (vcpus s)(outgoing_process \<mapsto> vcpu\<lparr>is_phantom := 1\<rparr>)\<rparr> in
            (case vms s1 (vm_name vcpu) of None \<Rightarrow> Some s1
             | Some vm \<Rightarrow>
                 let (new_count, p) = atomic_inc_if_lt_ceil quiet (vm_phantom_count vm) (nb_vcpus vm);
                     s2 = s1\<lparr>vms := (vms s1)(vm_name vcpu \<mapsto> vm\<lparr>vm_phantom_count := p\<rparr>)\<rparr>
                 in Some (record_sample ktime (vm_name vcpu) new_count s2))
          else Some s
        })"

definition phantom_switch_handler ::
  "nat \<Rightarrow> (nat \<Rightarrow> u64) \<Rightarrow> switch_ctx \<Rightarrow> host_state \<Rightarrow> host_state option" where
  "phantom_switch_handler pg ktime ctx s = do {
     (s1, prev_state) \<leftarrow> switch_in pg ktime ctx s;
     switch_out pg ktime ctx prev_state s1
   }"

text \<open>A run of the handler over successive context switches.\<close>

primrec phantom_switches ::
  "nat \<Rightarrow> (nat \<Rightarrow> u64) \<Rightarrow> switch_ctx list \<Rightarrow> host_state \<Rightarrow> host_state option" where
  "phantom_switches pg ktime [] s = Some s"
| "phantom_switches pg ktime (ctx # ctxs) s = do {
     s1 \<leftarrow> phantom_switch_handler pg ktime ctx s;
     phantom_switches pg ktime ctxs s1
   }"

subsection \<open>The counting invariant\<close>

text \<open>
  The vCPU threads of a VM, and those of them marked phantom. The invariant: every registered
  vCPU belongs to a registered VM and has a 0/1 flag, no VM has more vCPUs than it announced,
  and the counter of a VM is the number of its marked vCPUs.
\<close>

definition members :: "host_state \<Rightarrow> string \<Rightarrow> u32 set" where
  "members s n = {t. \<exists>v. vcpus s t = Some v \<and> vm_name v = n}"

definition phantoms :: "host_state \<Rightarrow> string \<Rightarrow> u32 set" where
  "phantoms s n = {t. \<exists>v. vcpus s t = Some v \<and> vm_name v = n \<and> is_phantom v = 1}"

definition vm_view :: "host_state \<Rightarrow> string \<Rightarrow> (s64 \<times> u32) option" where
  "vm_view s n = map_option (\<lambda>vm. (vm_phantom_count vm, nb_vcpus vm)) (vms s n)"

definition count_inv :: "host_state \<Rightarrow> bool" where
  "count_inv s \<longleftrightarrow> finite (dom (vcpus s)) \<and>
     (\<forall>t v. vcpus s t = Some v \<longrightarrow>
        (is_phantom v = 0 \<or> is_phantom v = 1) \<and> vm_view s (vm_name v) \<noteq> None) \<and>
     (\<forall>n c nb. vm_view s n = Some (c, nb) \<longrightarrow>
        card (members s n) \<le> unat nb \<and> sint c = int (card (phantoms s n)))"

text \<open>
  What reading the guests' run states needs of the shared memory: the backend of the first VM,
  when there is one, reaches past the guest-to-host page.
\<close>

definition g2h_safe :: "nat \<Rightarrow> host_registry \<Rightarrow> bool" where
  "g2h_safe pg r \<longleftrightarrow>
     (case devices r FIRST_VM_MINOR of None \<Rightarrow> True | Some b \<Rightarrow> 3 * pg \<le> unat (be_size b))"

text \<open>
  The specification of one context switch on sets of threads: which thread stops being a
  phantom and which becomes one. \<open>seen_state\<close> is the previous task state the handler
  looks at.
\<close>

definition runs_omp :: "nat \<Rightarrow> host_state \<Rightarrow> u32 \<Rightarrow> bool" where
  "runs_omp pg s t =
     (case vcpus s t of None \<Rightarrow> False | Some v \<Rightarrow> guest_run_state pg s (vcpu_index v) = Some 1)"

definition seen_state :: "switch_ctx \<Rightarrow> host_state \<Rightarrow> u64" where
  "seen_state ctx s = (if vcpus s (next_pid ctx) = None then 0 else ctx_prev_state ctx)"

definition arriving :: "nat \<Rightarrow> switch_ctx \<Rightarrow> host_state \<Rightarrow> u32 set" where
  "arriving pg ctx s = (if runs_omp pg s (next_pid ctx) then {next_pid ctx} else {})"

definition departing :: "nat \<Rightarrow> switch_ctx \<Rightarrow> host_state \<Rightarrow> u32 set" where
  "departing pg ctx s =
     (if runs_omp pg s (prev_pid ctx) \<and> seen_state ctx s \<in> {TASK_RUNNING, TASK_WAKING}
      then {prev_pid ctx} else {})"

text \<open>The buffer of a VM that is collecting, and the index the next sample goes to.\<close>

definition collecting_digit :: "vm_t \<Rightarrow> char" where
  "collecting_digit vm = (if is_collectx_in_buff_1 vm = 1 then CHR ''1'' else CHR ''2'')"

definition collecting_index :: "vm_t \<Rightarrow> u32" where
  "collecting_index vm =
     (if is_collectx_in_buff_1 vm = 1 then collection_buff_1_index vm else collection_buff_2_index vm)"

subsection \<open>Lemmas on the atomic updates\<close>

lemma atomic_dec_quiet:
  "atomic_dec_if_pos quiet p = (if sint p \<le> 0 then (p, p) else (p - 1, p - 1))"
proof -
  have "dec_attempts (Suc n) quiet k p = (if sint p \<le> 0 then (p, p) else (p - 1, p - 1))" for n k
    by (simp add: quiet_def Let_def)
  from this [of 23 0] show ?thesis by (simp only: atomic_dec_if_pos_def Suc_numeral semiring_norm)
qed

lemma atomic_inc_quiet:
  "atomic_inc_if_lt_ceil quiet p c = (if uint c \<le> sint p then (p, p) else (p + 1, p + 1))"
proof -
  have "inc_attempts (Suc n) quiet k p c = (if uint c \<le> sint p then (p, p) else (p + 1, p + 1))" for n k
    by (simp add: quiet_def Let_def)
  from this [of 23 0] show ?thesis by (simp only: atomic_inc_if_lt_ceil_def Suc_numeral semiring_norm)
qed

subsection \<open>Frame of a recorded sample\<close>

lemma record_sample_frame [simp]:
  "vcpus (record_sample ktime name c s) = vcpus s"
  "map_registry (record_sample ktime name c s) = map_registry s"
  "shm (record_sample ktime name c s) = shm s"
  "vm_view (record_sample ktime name c s) n = vm_view s n"
  by (auto simp: record_sample_def inner_update_def vm_view_def Let_def split: option.splits)

lemma members_cong: "vcpus s = vcpus s' \<Longrightarrow> members s n = members s' n"
  by (simp add: members_def)

lemma phantoms_cong: "vcpus s = vcpus s' \<Longrightarrow> phantoms s n = phantoms s' n"
  by (simp add: phantoms_def)

lemma count_inv_cong:
  assumes "vcpus s = vcpus s'" and "vm_view s = vm_view s'"
  shows "count_inv s \<longleftrightarrow> count_inv s'"
  using assms members_cong [OF assms(1)] phantoms_cong [OF assms(1)] by (simp add: count_inv_def)

lemma count_inv_record_sample [simp]: "count_inv (record_sample ktime name c s) \<longleftrightarrow> count_inv s"
  by (rule count_inv_cong) (auto simp: fun_eq_iff)

subsection \<open>Both halves keep the invariant\<close>

lemma finite_members: "count_inv s \<Longrightarrow> finite (members s n)"
  by (rule finite_subset [of _ "dom (vcpus s)"]) (auto simp: members_def count_inv_def)

lemma phantoms_subset: "phantoms s n \<subseteq> members s n"
  by (auto simp: phantoms_def members_def)

text \<open>Setting the flag of one vCPU moves it in or out of its own VM's phantoms only.\<close>

lemma phantoms_flag:
  assumes "vcpus s t = Some v"
  shows "phantoms (s\<lparr>vcpus := (vcpus s)(t \<mapsto> v\<lparr>is_phantom := f\<rparr>)\<rparr>) n =
    (if n = vm_name v then (if f = 1 then insert t (phantoms s n) else phantoms s n - {t})
     else phantoms s n)"
  using assms by (auto simp: phantoms_def)

lemma members_flag:
  "vcpus s t = Some v \<Longrightarrow>
    members (s\<lparr>vcpus := (vcpus s)(t \<mapsto> v\<lparr>is_phantom := f\<rparr>)\<rparr>) n = members s n"
  by (auto simp: members_def)

text \<open>
  The common step: flipping a flag and moving the counter by the same amount keeps the
  invariant.
\<close>

lemma count_inv_flip:
  assumes inv: "count_inv s" and v: "vcpus s t = Some v" and vm: "vms s (vm_name v) = Some vm"
    and f: "f = 0 \<or> f = 1"
    and s1: "s1 = s\<lparr>vcpus := (vcpus s)(t \<mapsto> v\<lparr>is_phantom := f\<rparr>)\<rparr>"
    and p: "sint p = int (card (phantoms s1 (vm_name v)))"
  shows "count_inv (s1\<lparr>vms := (vms s1)(vm_name v \<mapsto> vm\<lparr>vm_phantom_count := p\<rparr>)\<rparr>)" (is "count_inv ?s")
proof -
  have view: "vm_view ?s n = (if n = vm_name v then Some (p, nb_vcpus vm) else vm_view s n)" for n
    by (simp add: vm_view_def s1)
  have "vm_view s (vm_name v) = Some (vm_phantom_count vm, nb_vcpus vm)"
    by (simp add: vm_view_def vm)
  with inv have nb: "card (members s (vm_name v)) \<le> unat (nb_vcpus vm)"
    by (auto simp: count_inv_def)
  have mem: "members ?s n = members s n" for n
    using members_flag [OF v, of f n] members_cong [of ?s s1] by (simp add: s1)
  have ph: "phantoms ?s n = phantoms s1 n" for n
    by (rule phantoms_cong) simp
  have other: "n \<noteq> vm_name v \<Longrightarrow> phantoms s1 n = phantoms s n" for n
    using phantoms_flag [OF v, of f n] by (simp add: s1)
  show ?thesis
    unfolding count_inv_def
  proof (intro conjI allI impI)
    show "finite (dom (vcpus ?s))" using inv by (simp add: s1 count_inv_def)
  next
    fix t' v'
    assume "vcpus ?s t' = Some v'"
    then have "v' = v\<lparr>is_phantom := f\<rparr> \<or> vcpus s t' = Some v'" by (auto simp: s1 split: if_splits)
    then show "is_phantom v' = 0 \<or> is_phantom v' = 1" and "vm_view ?s (vm_name v') \<noteq> None"
      using f inv v by (auto simp: count_inv_def view)
  next
    fix n c nb'
    assume n: "vm_view ?s n = Some (c, nb')"
    show "card (members ?s n) \<le> unat nb'"
      using n nb inv by (auto simp: mem view count_inv_def split: if_splits)
    show "sint c = int (card (phantoms ?s n))"
      using n p inv other by (auto simp: ph view count_inv_def split: if_splits)
  qed
qed

lemma count_inv_vm:
  assumes "count_inv s" "vcpus s t = Some v"
  shows "\<exists>vm. vms s (vm_name v) = Some vm"
  using assms unfolding count_inv_def vm_view_def by fastforce

lemma switch_in_inv:
  assumes inv: "count_inv s" and run: "switch_in pg ktime ctx s = Some (s', st)"
  shows "count_inv s'"
proof (cases "\<exists>vcpu. vcpus s (next_pid ctx) = Some vcpu \<and> guest_run_state pg s (vcpu_index vcpu) = Some 1 \<and>
    is_phantom vcpu = 1")
  case True
  then obtain vcpu where v: "vcpus s (next_pid ctx) = Some vcpu"
    and msg: "guest_run_state pg s (vcpu_index vcpu) = Some 1" and ph: "is_phantom vcpu = 1" by blast
  let ?n = "vm_name vcpu" and ?t = "next_pid ctx"
  obtain vm where vm: "vms s ?n = Some vm" using count_inv_vm [OF inv v] by blast
  define s1 where "s1 = s\<lparr>vcpus := (vcpus s)(?t \<mapsto> vcpu\<lparr>is_phantom := 0\<rparr>)\<rparr>"
  have c: "sint (vm_phantom_count vm) = int (card (phantoms s ?n))"
    using inv vm by (auto simp: count_inv_def vm_view_def)
  have t: "?t \<in> phantoms s ?n" using v ph by (auto simp: phantoms_def)
  have fin: "finite (phantoms s ?n)"
    by (rule finite_subset [OF phantoms_subset finite_members [OF inv]])
  have card: "card (phantoms s1 ?n) = card (phantoms s ?n) - 1"
    using phantoms_flag [OF v, of 0 ?n] t fin by (simp add: s1_def)
  have pos: "0 < card (phantoms s ?n)" using t fin by (auto simp: card_gt_0_iff)
  then have cpos: "\<not> sint (vm_phantom_count vm) \<le> 0" using c by linarith
  then have "sint (vm_phantom_count vm - 1) = int (card (phantoms s1 ?n))"
    using c card pos by (simp add: sint_sub_one)
  from count_inv_flip [OF inv v vm _ s1_def this] show ?thesis
    using run cpos by (auto simp: switch_in_def v msg ph vm Let_def s1_def atomic_dec_quiet)
next
  case False
  then show ?thesis
    using run inv by (auto simp: switch_in_def Let_def Option.bind_eq_Some_conv split: option.splits if_splits)
qed

lemma switch_out_inv:
  assumes inv: "count_inv s" and run: "switch_out pg ktime ctx st s = Some s'"
  shows "count_inv s'"
proof (cases "\<exists>vcpu. vcpus s (prev_pid ctx) = Some vcpu \<and> guest_run_state pg s (vcpu_index vcpu) = Some 1 \<and>
    (st = TASK_RUNNING \<or> st = TASK_WAKING) \<and> is_phantom vcpu = 0")
  case True
  then obtain vcpu where v: "vcpus s (prev_pid ctx) = Some vcpu"
    and msg: "guest_run_state pg s (vcpu_index vcpu) = Some 1"
    and st: "st = TASK_RUNNING \<or> st = TASK_WAKING" and ph: "is_phantom vcpu = 0" by blast
  let ?n = "vm_name vcpu" and ?t = "prev_pid ctx"
  obtain vm where vm: "vms s ?n = Some vm" using count_inv_vm [OF inv v] by blast
  define s1 where "s1 = s\<lparr>vcpus := (vcpus s)(?t \<mapsto> vcpu\<lparr>is_phantom := 1\<rparr>)\<rparr>"
  have view: "vm_view s ?n = Some (vm_phantom_count vm, nb_vcpus vm)" by (simp add: vm_view_def vm)
  then have c: "sint (vm_phantom_count vm) = int (card (phantoms s ?n))"
    and nb: "card (members s ?n) \<le> unat (nb_vcpus vm)"
    using inv by (auto simp: count_inv_def)
  have t: "?t \<notin> phantoms s ?n" "?t \<in> members s ?n" using v ph by (auto simp: phantoms_def members_def)
  have fin: "finite (phantoms s ?n)"
    by (rule finite_subset [OF phantoms_subset finite_members [OF inv]])
  have "phantoms s ?n \<subset> members s ?n" using t phantoms_subset by blast
  then have "card (phantoms s ?n) < card (members s ?n)"
    by (rule psubset_card_mono [OF finite_members [OF inv]])
  with nb have "int (card (phantoms s ?n)) < int (unat (nb_vcpus vm))" by linarith
  then have lt: "sint (vm_phantom_count vm) < uint (nb_vcpus vm)" by (simp add: c)
  then have "sint (vm_phantom_count vm) < 2 ^ 63 - 1"
    using uint_lt2p [of "nb_vcpus vm"] by simp
  then have "sint (vm_phantom_count vm + 1) = int (card (phantoms s1 ?n))"
    using c t(1) fin phantoms_flag [OF v, of 1 ?n] by (simp add: sint_add_one s1_def)
  from count_inv_flip [OF inv v vm _ s1_def this] show ?thesis
    using run lt st by (auto simp: switch_out_def v msg ph vm Let_def s1_def atomic_inc_quiet)
next
  case False
  then show ?thesis
    using run inv by (auto simp: switch_out_def Let_def Option.bind_eq_Some_conv split: option.splits if_splits)
qed

subsection \<open>The handler always returns\<close>

lemma guest_run_state_total:
  assumes "page_size_ok pg" and "g2h_safe pg (shm s)"
  shows "\<exists>m. guest_run_state pg s i = Some m"
proof (cases "devices (shm s) FIRST_VM_MINOR")
  case None
  then show ?thesis
    by (auto simp: guest_run_state_def bpf_host_ivshmem_g2h_read_def host_ivshmem_g2h_read_def)
next
  case (Some b)
  with assms have "3 * pg \<le> unat (be_size b)" by (simp add: g2h_safe_def)
  from g2h_read_mapped [OF assms(1) this, of i "Some gh_message_zero"] Some show ?thesis
    by (auto simp: guest_run_state_def bpf_host_ivshmem_g2h_read_def split: sum.splits)
qed

lemma switch_in_shm: "switch_in pg ktime ctx s = Some (s', st) \<Longrightarrow> shm s' = shm s"
  by (auto simp: switch_in_def Let_def Option.bind_eq_Some_conv split: option.splits if_splits prod.splits)

lemma switch_out_shm: "switch_out pg ktime ctx st s = Some s' \<Longrightarrow> shm s' = shm s"
  by (auto simp: switch_out_def Let_def Option.bind_eq_Some_conv split: option.splits if_splits prod.splits)

lemma guest_run_state_cong: "shm s = shm s' \<Longrightarrow> guest_run_state pg s i = guest_run_state pg s' i"
  by (simp add: guest_run_state_def)

lemma switch_in_total:
  assumes "page_size_ok pg" and "g2h_safe pg (shm s)"
  shows "\<exists>s' st. switch_in pg ktime ctx s = Some (s', st)"
proof (cases "vcpus s (next_pid ctx)")
  case (Some v)
  with guest_run_state_total [OF assms, of "vcpu_index v"] show ?thesis
    by (auto simp: switch_in_def Let_def split: option.splits prod.splits)
qed (simp add: switch_in_def)

lemma switch_out_total:
  assumes "page_size_ok pg" and "g2h_safe pg (shm s)"
  shows "\<exists>s'. switch_out pg ktime ctx st s = Some s'"
proof (cases "vcpus s (prev_pid ctx)")
  case (Some v)
  with guest_run_state_total [OF assms, of "vcpu_index v"] show ?thesis
    by (auto simp: switch_out_def Let_def split: option.splits prod.splits)
qed (simp add: switch_out_def)

lemma phantom_switch_handler_step:
  assumes "page_size_ok pg" and "g2h_safe pg (shm s)" and "count_inv s"
  shows "\<exists>s'. phantom_switch_handler pg ktime ctx s = Some s' \<and> count_inv s' \<and> shm s' = shm s"
proof -
  obtain s1 st where 1: "switch_in pg ktime ctx s = Some (s1, st)"
    using switch_in_total [OF assms(1,2)] by blast
  have shm1: "shm s1 = shm s" by (rule switch_in_shm [OF 1])
  obtain s2 where 2: "switch_out pg ktime ctx st s1 = Some s2"
    using switch_out_total [OF assms(1)] assms(2) shm1 by metis
  have "count_inv s2" by (rule switch_out_inv [OF switch_in_inv [OF assms(3) 1] 2])
  with 1 2 shm1 switch_out_shm [OF 2] show ?thesis by (simp add: phantom_switch_handler_def)
qed

lemma count_inv_bounds:
  assumes "count_inv s" and "vms s n = Some vm"
  shows "sint (vm_phantom_count vm) = int (card (phantoms s n)) \<and>
    sint (vm_phantom_count vm) \<le> uint (nb_vcpus vm)"
proof -
  have v: "vm_view s n = Some (vm_phantom_count vm, nb_vcpus vm)" by (simp add: vm_view_def assms(2))
  with assms(1) have "card (members s n) \<le> unat (nb_vcpus vm)"
    and c: "sint (vm_phantom_count vm) = int (card (phantoms s n))" by (auto simp: count_inv_def)
  moreover have "card (phantoms s n) \<le> card (members s n)"
    by (rule card_mono [OF finite_members [OF assms(1)] phantoms_subset])
  ultimately have "int (card (phantoms s n)) \<le> int (unat (nb_vcpus vm))" by linarith
  with c show ?thesis by simp
qed

subsection \<open>Flags after each half\<close>

lemma switch_in_vcpus:
  assumes "switch_in pg ktime ctx s = Some (s', st)"
  shows "vcpus s' = (case vcpus s (next_pid ctx) of None \<Rightarrow> vcpus s | Some v \<Rightarrow>
      if runs_omp pg s (next_pid ctx) \<and> is_phantom v = 1
      then (vcpus s)(next_pid ctx \<mapsto> v\<lparr>is_phantom := 0\<rparr>) else vcpus s) \<and> st = seen_state ctx s"
proof (cases "vcpus s (next_pid ctx)")
  case (Some v)
  then obtain m where m: "guest_run_state pg s (vcpu_index v) = Some m"
    using assms by (auto simp: switch_in_def Option.bind_eq_Some_conv)
  show ?thesis
    using assms Some m
    by (cases "m = 1 \<and> is_phantom v = 1")
      (auto simp: switch_in_def Let_def runs_omp_def seen_state_def split: option.splits prod.splits)
qed (use assms in \<open>simp add: switch_in_def seen_state_def\<close>)

lemma switch_out_vcpus:
  assumes "switch_out pg ktime ctx st s = Some s'"
  shows "vcpus s' = (case vcpus s (prev_pid ctx) of None \<Rightarrow> vcpus s | Some v \<Rightarrow>
      if runs_omp pg s (prev_pid ctx) \<and> st \<in> {TASK_RUNNING, TASK_WAKING} \<and> is_phantom v = 0
      then (vcpus s)(prev_pid ctx \<mapsto> v\<lparr>is_phantom := 1\<rparr>) else vcpus s)"
proof (cases "vcpus s (prev_pid ctx)")
  case (Some v)
  then obtain m where m: "guest_run_state pg s (vcpu_index v) = Some m"
    using assms by (auto simp: switch_out_def Option.bind_eq_Some_conv)
  show ?thesis
    using assms Some m
    by (cases "m = 1 \<and> (st = TASK_RUNNING \<or> st = TASK_WAKING) \<and> is_phantom v = 0")
      (auto simp: switch_out_def Let_def runs_omp_def split: option.splits prod.splits)
qed (use assms in \<open>simp add: switch_out_def\<close>)

lemma switch_in_sets:
  assumes "switch_in pg ktime ctx s = Some (s', st)"
  shows "phantoms s' n = phantoms s n - arriving pg ctx s" and "members s' n = members s n"
    and "runs_omp pg s' t = runs_omp pg s t"
  using guest_run_state_cong [OF switch_in_shm [OF assms]] switch_in_vcpus [OF assms]
  by (auto simp: phantoms_def members_def arriving_def runs_omp_def split: option.splits if_splits)

lemma switch_out_sets:
  assumes "switch_out pg ktime ctx st s = Some s'" and "count_inv s"
  shows "phantoms s' n = phantoms s n \<union>
    (if runs_omp pg s (prev_pid ctx) \<and> st \<in> {TASK_RUNNING, TASK_WAKING}
     then {prev_pid ctx} \<inter> members s n else {})"
proof -
  have flag: "is_phantom v = 0 \<or> is_phantom v = 1" if "vcpus s t = Some v" for t v
    using assms(2) that by (auto simp: count_inv_def)
  show ?thesis
  proof (cases "vcpus s (prev_pid ctx)")
    case (Some v)
    with flag [OF this] show ?thesis
      by (auto simp: phantoms_def members_def switch_out_vcpus [OF assms(1)])
  qed (auto simp: phantoms_def members_def switch_out_vcpus [OF assms(1)])
qed

subsection \<open>An example state\<close>

text \<open>
  One VM with two vCPU threads, 101 and 102, whose guest reports an OpenMP thread on both; 102
  is a phantom.
\<close>

definition shm_example :: host_registry where
  "shm_example = registry_zero\<lparr>devices := [FIRST_VM_MINOR \<mapsto>
     \<lparr>be_cdev = True, be_dev = True, debugfs_dentry = False, debugfs_blob_data = False, debugfs_blob_size = 0,
      be_mem = Some (store_le 8 (store_le 8 (\<lambda>_. 0) 8192 1) 8256 1), be_size = 16384, be_minor = 1\<rparr>]\<rparr>"

definition host_example :: host_state where
  "host_example =
     \<lparr>vms = [vm_key ''vm0'' \<mapsto> \<lparr>qmp_socket = [], vm_phantom_count = 1, collection_buff_1_index = 0,
        collection_buff_2_index = 0, is_collectx_in_buff_1 = 1, nb_vcpus = 2, h2g_history_index = 0\<rparr>],
      vcpus = [101 \<mapsto> \<lparr>vcpu_index = 0, vm_name = vm_key ''vm0'', is_phantom = 0\<rparr>,
               102 \<mapsto> \<lparr>vcpu_index = 1, vm_name = vm_key ''vm0'', is_phantom = 1\<rparr>],
      map_registry = [collection_key CHR ''1'' (vm_key ''vm0'') \<mapsto> 7],
      inner_maps = (\<lambda>_. \<lparr>arr_max = 100, arr_val = (\<lambda>_. phantom_count_zero)\<rparr>),
      ktime_calls = 0, shm = shm_example\<rparr>"

lemma host_example_phantoms: "phantoms host_example n = (if n = vm_key ''vm0'' then {102} else {})"
  by (auto simp: phantoms_def host_example_def split: if_splits)

lemma host_example_members: "members host_example n = (if n = vm_key ''vm0'' then {101, 102} else {})"
  by (auto simp: members_def host_example_def split: if_splits)

lemma host_example_inv: "count_inv host_example"
  unfolding count_inv_def host_example_phantoms host_example_members
  by (auto simp: host_example_def vm_view_def card_insert_if split: if_splits)

lemma g2h_safe_example: "g2h_safe 4096 (shm host_example)"
  by (simp add: g2h_safe_def host_example_def shm_example_def FIRST_VM_MINOR_def)

lemma host_example_runs: "runs_omp 4096 host_example 101" "runs_omp 4096 host_example 102"
  by (simp_all add: runs_omp_def guest_run_state_def bpf_host_ivshmem_g2h_read_def host_ivshmem_g2h_read_def
      host_example_def shm_example_def FIRST_VM_MINOR_def abi_defs mem_simps gh_message_zero_def)

subsection \<open>Properties\<close>

text \<open>
  C2. Whatever context switches happen, the handler returns, and afterwards the phantom count of
  every VM is exactly the number of its vCPU threads marked phantom and does not exceed its
  number of vCPUs; in particular it is never negative.
\<close>

theorem phantom_switches_count:
  assumes "page_size_ok pg" and "g2h_safe pg (shm s)" and "count_inv s"
  shows "\<exists>s'. phantom_switches pg ktime ctxs s = Some s' \<and> count_inv s' \<and>
    (\<forall>n vm. vms s' n = Some vm \<longrightarrow> sint (vm_phantom_count vm) = int (card (phantoms s' n)) \<and>
       sint (vm_phantom_count vm) \<le> uint (nb_vcpus vm))"
  using assms(2,3)
proof (induction ctxs arbitrary: s)
  case Nil
  then show ?case using count_inv_bounds [of s] by (metis phantom_switches.simps(1))
next
  case (Cons ctx ctxs)
  then obtain s1 where "phantom_switch_handler pg ktime ctx s = Some s1" "count_inv s1" "shm s1 = shm s"
    using phantom_switch_handler_step [OF assms(1)] by blast
  with Cons.IH [of s1] Cons.prems show ?case by simp
qed

theorem phantom_switches_count_witness:
  "\<exists>s'. phantom_switches 4096 of_nat
     [\<lparr>next_pid = 102, prev_pid = 101, ctx_prev_state = 0\<rparr>, \<lparr>next_pid = 101, prev_pid = 5, ctx_prev_state = 1\<rparr>]
     host_example = Some s' \<and> count_inv s'"
  using phantom_switches_count [OF page_size_ok_4096 g2h_safe_example host_example_inv, of of_nat
      "[\<lparr>next_pid = 102, prev_pid = 101, ctx_prev_state = 0\<rparr>, \<lparr>next_pid = 101, prev_pid = 5, ctx_prev_state = 1\<rparr>]"]
  by blast

text \<open>What a context switch does to the sets of phantoms.\<close>

lemma switch_handler_sets:
  assumes "count_inv s" and "phantom_switch_handler pg ktime ctx s = Some s'"
  shows "phantoms s' n = (phantoms s n - arriving pg ctx s) \<union> (departing pg ctx s \<inter> members s n)"
proof -
  obtain s1 st where 1: "switch_in pg ktime ctx s = Some (s1, st)" and 2: "switch_out pg ktime ctx st s1 = Some s'"
    using assms(2) by (auto simp: phantom_switch_handler_def Option.bind_eq_Some_conv)
  have "st = seen_state ctx s" using switch_in_vcpus [OF 1] by simp
  with switch_out_sets [OF 2 switch_in_inv [OF assms(1) 1], of n] show ?thesis
    using switch_in_sets(2) [OF 1, of n]
    by (auto simp: switch_in_sets(1,3) [OF 1] departing_def split: if_splits)
qed



text \<open>
  Where the handler departs from its documentation. When the incoming thread is not a
  registered vCPU, the task state of the outgoing one is never looked at: an outgoing vCPU on
  which an OpenMP thread runs becomes a phantom even if it blocked of its own accord. And an
  incoming vCPU that is marked stays a phantom, and stays counted while it runs, if its guest
  runs no OpenMP thread on it.
\<close>

theorem phantom_switch_handler_diverges:
  assumes "count_inv s" and "phantom_switch_handler pg ktime ctx s = Some s'"
  shows "(vcpus s (next_pid ctx) = None \<and> vcpus s (prev_pid ctx) = Some v \<and> runs_omp pg s (prev_pid ctx) \<longrightarrow>
      prev_pid ctx \<in> phantoms s' (vm_name v)) \<and>
    (next_pid ctx \<in> phantoms s n \<and> \<not> runs_omp pg s (next_pid ctx) \<longrightarrow> next_pid ctx \<in> phantoms s' n)"
  by (auto simp: switch_handler_sets [OF assms] arriving_def departing_def seen_state_def members_def
      TASK_RUNNING_def)

theorem phantom_switch_handler_diverges_witness:
  "\<exists>s'. phantom_switch_handler 4096 of_nat \<lparr>next_pid = 9, prev_pid = 101, ctx_prev_state = 1\<rparr> host_example =
     Some s' \<and> 101 \<in> phantoms s' (vm_key ''vm0'')"
proof -
  let ?c = "\<lparr>next_pid = 9, prev_pid = 101, ctx_prev_state = 1\<rparr>"
  let ?v = "\<lparr>vcpu_index = 0, vm_name = vm_key ''vm0'', is_phantom = 0\<rparr>"
  obtain s' where s': "phantom_switch_handler 4096 of_nat ?c host_example = Some s'"
    using phantom_switch_handler_step [OF page_size_ok_4096 g2h_safe_example host_example_inv] by blast
  have "vcpus host_example 9 = None" and "vcpus host_example 101 = Some ?v"
    by (simp_all add: host_example_def)
  then show ?thesis
    using phantom_switch_handler_diverges [OF host_example_inv s', of ?v] host_example_runs(1) s' by simp
qed

lemma phantom_switch_handler_inv:
  assumes "count_inv s" and "phantom_switch_handler pg ktime ctx s = Some s'"
  shows "count_inv s'"
proof -
  obtain s1 st where 1: "switch_in pg ktime ctx s = Some (s1, st)" and 2: "switch_out pg ktime ctx st s1 = Some s'"
    using assms(2) by (auto simp: phantom_switch_handler_def Option.bind_eq_Some_conv)
  show ?thesis by (rule switch_out_inv [OF switch_in_inv [OF assms(1) 1] 2])
qed

lemma record_sample_effect:
  assumes "vms s n = Some vm" and "map_registry s (collection_key (collecting_digit vm) n) = Some mid"
    and "s' = record_sample ktime n c s"
  shows "inner_maps s' = (inner_maps s)(mid := snd (array_update (inner_maps s mid) (collecting_index vm)
      \<lparr>pc_count = c, pc_timestamp = ktime (ktime_calls s)\<rparr>)) \<and>
    (\<exists>vm'. vms s' n = Some vm' \<and> collecting_index vm' = collecting_index vm + 1 \<and>
      collecting_digit vm' = collecting_digit vm)"
proof (cases "is_collectx_in_buff_1 vm = 1")
  case True
  then show ?thesis
    using assms by (simp add: record_sample_def inner_update_def collecting_digit_def collecting_index_def Let_def)
next
  case False
  then show ?thesis
    using assms by (simp add: record_sample_def inner_update_def collecting_digit_def collecting_index_def Let_def)
qed

text \<open>
  Between two states, the samples \<open>xs\<close> were appended to the buffer \<open>mid\<close> of a VM that is
  collecting, and nothing else in it changed.
\<close>

definition appended :: "string \<Rightarrow> nat \<Rightarrow> host_state \<Rightarrow> host_state \<Rightarrow> phantom_count list \<Rightarrow> bool" where
  "appended n mid s s' xs \<longleftrightarrow> (\<exists>vm vm'. vms s n = Some vm \<and> vms s' n = Some vm' \<and>
     collecting_digit vm' = collecting_digit vm \<and>
     unat (collecting_index vm') = unat (collecting_index vm) + length xs \<and>
     arr_max (inner_maps s' mid) = arr_max (inner_maps s mid) \<and>
     (\<forall>j. arr_val (inner_maps s' mid) j =
        (if unat (collecting_index vm) \<le> j \<and> j < unat (collecting_index vm) + length xs
         then xs ! (j - unat (collecting_index vm)) else arr_val (inner_maps s mid) j)))"

lemma appended_trans:
  assumes "appended n mid s s1 xs" and "appended n mid s1 s2 ys"
  shows "appended n mid s s2 (xs @ ys)"
proof -
  obtain vm vm1 vm2 where a: "vms s n = Some vm" "vms s1 n = Some vm1" "vms s2 n = Some vm2"
    using assms by (auto simp: appended_def)
  let ?i = "unat (collecting_index vm)"
  note 1 = assms(1) [unfolded appended_def a option.inject, simplified]
    and 2 = assms(2) [unfolded appended_def a option.inject, simplified]
  have "arr_val (inner_maps s2 mid) j = (if ?i \<le> j \<and> j < ?i + length (xs @ ys) then (xs @ ys) ! (j - ?i)
      else arr_val (inner_maps s mid) j)" for j
    using 1 2 by (auto simp: nth_append)
  with 1 2 a show ?thesis unfolding appended_def by simp
qed

lemma appended_none:
  assumes "vms s n = Some vm" and "vms s' n = Some vm'" and "collecting_digit vm' = collecting_digit vm"
    and "collecting_index vm' = collecting_index vm" and "inner_maps s' mid = inner_maps s mid"
  shows "appended n mid s s' []"
  using assms by (auto simp: appended_def)

text \<open>A buffer that belongs to one VM only and has room for \<open>k\<close> more samples.\<close>

definition collects_in :: "host_state \<Rightarrow> string \<Rightarrow> nat \<Rightarrow> nat \<Rightarrow> bool" where
  "collects_in s n mid k \<longleftrightarrow> (\<exists>vm. vms s n = Some vm \<and>
     map_registry s (collection_key (collecting_digit vm) n) = Some mid \<and>
     unat (collecting_index vm) + k \<le> arr_max (inner_maps s mid) \<and> arr_max (inner_maps s mid) < 2 ^ 32) \<and>
     (\<forall>m \<in> dom (vms s) - {n}. \<forall>d. map_registry s (collection_key d m) \<noteq> Some mid)"

lemma collects_in_appended:
  assumes "collects_in s n mid (length xs + k)" and "appended n mid s s' xs" and "map_registry s' = map_registry s"
    and "dom (vms s') = dom (vms s)"
  shows "collects_in s' n mid k"
  using assms by (simp add: collects_in_def appended_def) auto

lemma record_sample_appends:
  assumes "collects_in s n mid 1" and "s' = record_sample ktime m c s"
  shows "ktime_calls s \<le> ktime_calls s' \<and>
    (if m = n then ktime_calls s' = Suc (ktime_calls s) \<and>
       appended n mid s s' [\<lparr>pc_count = c, pc_timestamp = ktime (ktime_calls s)\<rparr>]
     else appended n mid s s' [])"
proof (cases "m = n")
  case True
  obtain vm where vm: "vms s n = Some vm" "map_registry s (collection_key (collecting_digit vm) n) = Some mid"
      "unat (collecting_index vm) < arr_max (inner_maps s mid)" "arr_max (inner_maps s mid) < 2 ^ 32"
    using assms(1) by (auto simp: collects_in_def)
  have i: "unat (collecting_index vm + 1) = Suc (unat (collecting_index vm))"
    using vm(3,4) by (subst unat_add_one_no_wrap) auto
  have k: "ktime_calls s' = Suc (ktime_calls s)"
    using vm(1,2) True unfolding assms(2)
    by (cases "is_collectx_in_buff_1 vm = 1") (simp_all add: record_sample_def inner_update_def collecting_digit_def Let_def)
  have "s' = record_sample ktime n c s" using assms(2) True by simp
  from record_sample_effect [OF vm(1,2) this] obtain vm' where
    im: "inner_maps s' mid = snd (array_update (inner_maps s mid) (collecting_index vm)
      \<lparr>pc_count = c, pc_timestamp = ktime (ktime_calls s)\<rparr>)"
    and vm': "vms s' n = Some vm'" "collecting_index vm' = collecting_index vm + 1"
      "collecting_digit vm' = collecting_digit vm" by auto
  have "appended n mid s s' [\<lparr>pc_count = c, pc_timestamp = ktime (ktime_calls s)\<rparr>]"
    unfolding appended_def
    by (rule exI [of _ vm], rule exI [of _ vm']) (use vm vm' i in \<open>auto simp: im bpf_simps\<close>)
  with k True show ?thesis by simp
next
  case False
  obtain vm where vm: "vms s n = Some vm" using assms(1) by (auto simp: collects_in_def)
  have "vms s m = None \<or> (\<forall>d. map_registry s (collection_key d m) \<noteq> Some mid)"
    using assms(1) False by (auto simp: collects_in_def)
  then have "vms s' n = Some vm \<and> inner_maps s' mid = inner_maps s mid \<and> ktime_calls s \<le> ktime_calls s'"
    using vm False unfolding assms(2)
    by (auto simp: record_sample_def inner_update_def Let_def split: option.split)
  with vm False show ?thesis by (auto intro: appended_none)
qed

text \<open>
  Each half of the handler: a vCPU of the VM that changes its mark leaves one sample, with the
  count of the VM after the change and a reading of the clock; otherwise none is left.
\<close>

definition half_sample :: "(nat \<Rightarrow> u64) \<Rightarrow> string \<Rightarrow> nat \<Rightarrow> host_state \<Rightarrow> host_state \<Rightarrow> bool \<Rightarrow> bool" where
  "half_sample ktime n mid s s' moved \<longleftrightarrow> ktime_calls s \<le> ktime_calls s' \<and>
     (if moved then \<exists>x. appended n mid s s' [x] \<and> sint (pc_count x) = int (card (phantoms s' n)) \<and>
        pc_timestamp x = ktime (ktime_calls s) \<and> ktime_calls s' = Suc (ktime_calls s)
      else appended n mid s s' [])"

lemma half_sampleD:
  assumes "half_sample ktime n mid s s' moved"
  obtains xs where "appended n mid s s' xs" and "ktime_calls s \<le> ktime_calls s'"
    and "map (sint \<circ> pc_count) xs = (if moved then [int (card (phantoms s' n))] else [])"
    and "\<forall>x \<in> set xs. pc_timestamp x = ktime (ktime_calls s) \<and> ktime_calls s' = Suc (ktime_calls s)"
proof (cases moved)
  case True
  with assms obtain x where "appended n mid s s' [x]" "sint (pc_count x) = int (card (phantoms s' n))"
      "pc_timestamp x = ktime (ktime_calls s)" "ktime_calls s' = Suc (ktime_calls s)"
    by (auto simp: half_sample_def)
  with True that [of "[x]"] show ?thesis by simp
next
  case False
  with assms that [of "[]"] show ?thesis by (simp add: half_sample_def)
qed

text \<open>The common tail: a flag and a counter change, then the sample.\<close>

lemma half_sample_change:
  assumes c: "collects_in s n mid 1" and inv: "count_inv s'"
    and s1: "s1 = s\<lparr>vcpus := vs, vms := (vms s)(m \<mapsto> vm\<lparr>vm_phantom_count := p\<rparr>)\<rparr>"
    and vm: "vms s m = Some vm" and s': "s' = record_sample ktime m p s1"
  shows "half_sample ktime n mid s s' (m = n)"
proof -
  obtain vm0 where vm0: "vms s n = Some vm0" using c by (auto simp: collects_in_def)
  have a: "appended n mid s s1 []"
    by (rule appended_none [OF vm0, of _ "if m = n then vm\<lparr>vm_phantom_count := p\<rparr> else vm0"])
      (use vm vm0 in \<open>auto simp: s1 collecting_digit_def collecting_index_def\<close>)
  have "collects_in s1 n mid 1" by (rule collects_in_appended [OF _ a]) (use c s1 vm in auto)
  note r = record_sample_appends [OF this s']
  have "vm_view s' m = vm_view s1 m" unfolding s' by simp
  then have "vm_view s' m = Some (p, nb_vcpus vm)" by (simp add: vm_view_def s1)
  then have "sint p = int (card (phantoms s' m))" using inv by (auto simp: count_inv_def)
  moreover have "ktime_calls s1 = ktime_calls s" by (simp add: s1)
  ultimately show ?thesis
    using r appended_trans [OF a, of s'] by (cases "m = n") (fastforce simp: half_sample_def)+
qed

lemma half_sample_same:
  assumes "collects_in s n mid 1"
  shows "half_sample ktime n mid s s False"
proof -
  obtain vm where "vms s n = Some vm" using assms by (auto simp: collects_in_def)
  then show ?thesis by (auto simp: half_sample_def appended_def)
qed

lemma switch_in_sample:
  assumes "count_inv s" and "collects_in s n mid 1" and run: "switch_in pg ktime ctx s = Some (s', st)"
  shows "half_sample ktime n mid s s' (next_pid ctx \<in> phantoms s n \<and> runs_omp pg s (next_pid ctx))"
proof (cases "\<exists>v. vcpus s (next_pid ctx) = Some v \<and> runs_omp pg s (next_pid ctx) \<and> is_phantom v = 1")
  case True
  then obtain v where v: "vcpus s (next_pid ctx) = Some v" "runs_omp pg s (next_pid ctx)" "is_phantom v = 1" by blast
  obtain vm where vm: "vms s (vm_name v) = Some vm" using count_inv_vm [OF assms(1) v(1)] by blast
  define p where "p = fst (atomic_dec_if_pos quiet (vm_phantom_count vm))"
  have d: "atomic_dec_if_pos quiet (vm_phantom_count vm) = (p, p)" by (simp add: p_def atomic_dec_quiet)
  have g: "guest_run_state pg s (vcpu_index v) = Some 1" using v by (simp add: runs_omp_def)
  have s': "s' = record_sample ktime (vm_name v) p (s\<lparr>vcpus := (vcpus s)(next_pid ctx \<mapsto> v\<lparr>is_phantom := 0\<rparr>),
      vms := (vms s)(vm_name v \<mapsto> vm\<lparr>vm_phantom_count := p\<rparr>)\<rparr>)"
    using run by (simp add: switch_in_def v g vm d Let_def)
  have "next_pid ctx \<in> phantoms s n \<longleftrightarrow> vm_name v = n" using v by (auto simp: phantoms_def)
  with half_sample_change [OF assms(2) switch_in_inv [OF assms(1) run] refl vm s'] v(2) show ?thesis by simp
next
  case False
  then have "s' = s"
    using run by (auto simp: switch_in_def runs_omp_def Let_def Option.bind_eq_Some_conv split: option.splits if_splits)
  moreover have "\<not> (next_pid ctx \<in> phantoms s n \<and> runs_omp pg s (next_pid ctx))"
    using False by (auto simp: phantoms_def)
  ultimately show ?thesis using half_sample_same [OF assms(2)] by metis
qed

lemma switch_out_sample:
  assumes "count_inv s" and "collects_in s n mid 1" and run: "switch_out pg ktime ctx st s = Some s'"
  shows "half_sample ktime n mid s s' (prev_pid ctx \<in> phantoms s' n - phantoms s n)"
proof (cases "\<exists>v. vcpus s (prev_pid ctx) = Some v \<and> runs_omp pg s (prev_pid ctx) \<and>
    st \<in> {TASK_RUNNING, TASK_WAKING} \<and> is_phantom v = 0")
  case True
  then obtain v where v: "vcpus s (prev_pid ctx) = Some v" "runs_omp pg s (prev_pid ctx)" "is_phantom v = 0"
    and st: "st \<in> {TASK_RUNNING, TASK_WAKING}" by blast
  obtain vm where vm: "vms s (vm_name v) = Some vm" using count_inv_vm [OF assms(1) v(1)] by blast
  define p where "p = fst (atomic_inc_if_lt_ceil quiet (vm_phantom_count vm) (nb_vcpus vm))"
  have d: "atomic_inc_if_lt_ceil quiet (vm_phantom_count vm) (nb_vcpus vm) = (p, p)" by (simp add: p_def atomic_inc_quiet)
  have g: "guest_run_state pg s (vcpu_index v) = Some 1" using v by (simp add: runs_omp_def)
  have s': "s' = record_sample ktime (vm_name v) p (s\<lparr>vcpus := (vcpus s)(prev_pid ctx \<mapsto> v\<lparr>is_phantom := 1\<rparr>),
      vms := (vms s)(vm_name v \<mapsto> vm\<lparr>vm_phantom_count := p\<rparr>)\<rparr>)"
    using run st by (simp add: switch_out_def v g vm d Let_def disj_comms)
  have "prev_pid ctx \<in> phantoms s' n - phantoms s n \<longleftrightarrow> vm_name v = n"
    using v st unfolding switch_out_sets [OF run assms(1)] by (auto simp: phantoms_def members_def)
  with half_sample_change [OF assms(2) switch_out_inv [OF assms(1) run] refl vm s'] show ?thesis by simp
next
  case False
  then have "s' = s"
    using run by (auto simp: switch_out_def runs_omp_def Let_def Option.bind_eq_Some_conv split: option.splits if_splits)
  with half_sample_same [OF assms(2)] show ?thesis by simp
qed

text \<open>Both halves: the samples of a whole switch.\<close>

lemma switch_samples:
  assumes inv: "count_inv s" and run: "phantom_switch_handler pg ktime ctx s = Some s'" and c: "collects_in s n mid 2"
  obtains s1 xs ys where "phantoms s1 n = phantoms s n - arriving pg ctx s"
    and "phantoms s' n - phantoms s1 n \<subseteq> {prev_pid ctx}" and "phantoms s1 n \<subseteq> phantoms s' n"
    and "appended n mid s s' (xs @ ys)" and "ktime_calls s \<le> ktime_calls s1" and "ktime_calls s1 \<le> ktime_calls s'"
    and "map (sint \<circ> pc_count) xs =
      (if next_pid ctx \<in> phantoms s n \<and> runs_omp pg s (next_pid ctx) then [int (card (phantoms s1 n))] else [])"
    and "\<forall>x \<in> set xs. pc_timestamp x = ktime (ktime_calls s) \<and> ktime_calls s1 = Suc (ktime_calls s)"
    and "map (sint \<circ> pc_count) ys =
      (if prev_pid ctx \<in> phantoms s' n - phantoms s1 n then [int (card (phantoms s' n))] else [])"
    and "\<forall>y \<in> set ys. pc_timestamp y = ktime (ktime_calls s1) \<and> ktime_calls s' = Suc (ktime_calls s1)"
proof -
  obtain s1 st where 1: "switch_in pg ktime ctx s = Some (s1, st)" and 2: "switch_out pg ktime ctx st s1 = Some s'"
    using run by (auto simp: phantom_switch_handler_def Option.bind_eq_Some_conv)
  have inv1: "count_inv s1" by (rule switch_in_inv [OF inv 1])
  have "collects_in s n mid 1" using c by (auto simp: collects_in_def)
  from switch_in_sample [OF inv this 1]
  obtain xs where xs: "appended n mid s s1 xs" "ktime_calls s \<le> ktime_calls s1"
      "map (sint \<circ> pc_count) xs =
        (if next_pid ctx \<in> phantoms s n \<and> runs_omp pg s (next_pid ctx) then [int (card (phantoms s1 n))] else [])"
      "\<forall>x \<in> set xs. pc_timestamp x = ktime (ktime_calls s) \<and> ktime_calls s1 = Suc (ktime_calls s)"
    by (rule half_sampleD)
  have "length xs \<le> 1" using arg_cong [OF xs(3), of length] by (auto split: if_splits)
  then have "collects_in s n mid (length xs + 1)" using c by (auto simp: collects_in_def)
  moreover have "map_registry s1 = map_registry s" "dom (vms s1) = dom (vms s)"
    using 1 by (auto simp: switch_in_def Let_def Option.bind_eq_Some_conv record_sample_def inner_update_def
        split: option.splits if_splits prod.splits)
  ultimately have "collects_in s1 n mid 1" using collects_in_appended [OF _ xs(1)] by blast
  from switch_out_sample [OF inv1 this 2]
  obtain ys where ys: "appended n mid s1 s' ys" "ktime_calls s1 \<le> ktime_calls s'"
      "map (sint \<circ> pc_count) ys = (if prev_pid ctx \<in> phantoms s' n - phantoms s1 n then [int (card (phantoms s' n))] else [])"
      "\<forall>y \<in> set ys. pc_timestamp y = ktime (ktime_calls s1) \<and> ktime_calls s' = Suc (ktime_calls s1)"
    by (rule half_sampleD)
  show ?thesis
    by (rule that [OF switch_in_sets(1) [OF 1] _ _ appended_trans [OF xs(1) ys(1)] xs(2) ys(2) xs(3,4) ys(3,4)])
      (auto simp: switch_out_sets [OF 2 inv1] split: if_splits)
qed

text \<open>
  C24. Every change of a mark leaves a sample: if during a context switch a vCPU of a VM stops
  being a phantom, or one becomes a phantom, or both, then the buffer of the VM that is
  collecting receives, at its next free indices and in this order, the number of phantoms of the
  VM after each change, stamped with successive readings of the clock during the switch; with no
  change it receives nothing. All its other entries are untouched and the next index moves by
  the number of samples. The buffer must be registered for this VM only and have room for two.
\<close>

theorem phantom_switch_handler_sample:
  assumes inv: "count_inv s" and run: "phantom_switch_handler pg ktime ctx s = Some s'"
    and ne: "next_pid ctx \<noteq> prev_pid ctx" and c: "collects_in s n mid 2"
  shows "\<exists>xs. appended n mid s s' xs \<and>
    map (sint \<circ> pc_count) xs =
      (if next_pid ctx \<in> phantoms s n - phantoms s' n then [int (card (phantoms s n)) - 1] else []) @
      (if prev_pid ctx \<in> phantoms s' n - phantoms s n then [int (card (phantoms s' n))] else []) \<and>
    (\<forall>x \<in> set xs. pc_timestamp x \<in> ktime ` {ktime_calls s..<ktime_calls s'}) \<and>
    (length xs = 2 \<longrightarrow> pc_timestamp (xs ! 0) = ktime (ktime_calls s) \<and> pc_timestamp (xs ! 1) = ktime (Suc (ktime_calls s)))"
proof -
  let ?in = "next_pid ctx \<in> phantoms s n \<and> runs_omp pg s (next_pid ctx)"
  obtain s1 xs ys where ph1: "phantoms s1 n = phantoms s n - arriving pg ctx s"
      "phantoms s' n - phantoms s1 n \<subseteq> {prev_pid ctx}" "phantoms s1 n \<subseteq> phantoms s' n"
    and app: "appended n mid s s' (xs @ ys)" and calls: "ktime_calls s \<le> ktime_calls s1" "ktime_calls s1 \<le> ktime_calls s'"
    and xs: "map (sint \<circ> pc_count) xs = (if ?in then [int (card (phantoms s1 n))] else [])"
      "\<forall>x \<in> set xs. pc_timestamp x = ktime (ktime_calls s) \<and> ktime_calls s1 = Suc (ktime_calls s)"
    and ys: "map (sint \<circ> pc_count) ys =
        (if prev_pid ctx \<in> phantoms s' n - phantoms s1 n then [int (card (phantoms s' n))] else [])"
      "\<forall>y \<in> set ys. pc_timestamp y = ktime (ktime_calls s1) \<and> ktime_calls s' = Suc (ktime_calls s1)"
    by (rule switch_samples [OF inv run c])
  have gone: "?in \<longleftrightarrow> next_pid ctx \<in> phantoms s n - phantoms s' n"
    and new: "prev_pid ctx \<in> phantoms s' n - phantoms s1 n \<longleftrightarrow> prev_pid ctx \<in> phantoms s' n - phantoms s n"
    using ne ph1 by (auto simp: arriving_def split: if_splits)
  have fin: "finite (phantoms s n)" by (rule finite_subset [OF phantoms_subset finite_members [OF inv]])
  have card: "int (card (phantoms s1 n)) = int (card (phantoms s n)) - 1" if ?in
    using that fin card_gt_0_iff [of "phantoms s n"] by (auto simp: ph1 arriving_def)
  have counts: "map (sint \<circ> pc_count) (xs @ ys) =
      (if next_pid ctx \<in> phantoms s n - phantoms s' n then [int (card (phantoms s n)) - 1] else []) @
      (if prev_pid ctx \<in> phantoms s' n - phantoms s n then [int (card (phantoms s' n))] else [])"
    using xs(1) ys(1) card unfolding gone new by simp
  have len: "length xs \<le> 1" "length ys \<le> 1"
    using arg_cong [OF xs(1), of length] arg_cong [OF ys(1), of length] by (auto split: if_splits)
  have stamps: "\<forall>x \<in> set (xs @ ys). pc_timestamp x \<in> ktime ` {ktime_calls s..<ktime_calls s'}"
    using calls xs(2) ys(2) by fastforce
  have "pc_timestamp ((xs @ ys) ! 0) = ktime (ktime_calls s) \<and> pc_timestamp ((xs @ ys) ! 1) = ktime (Suc (ktime_calls s))"
    if "length (xs @ ys) = 2"
  proof -
    from that len obtain x y where "xs = [x]" "ys = [y]" by (cases xs; cases ys) auto
    with xs(2) ys(2) show ?thesis by simp
  qed
  with app counts stamps show ?thesis by blast
qed

theorem phantom_switch_handler_sample_witness:
  "\<exists>s'. phantom_switch_handler 4096 of_nat \<lparr>next_pid = 102, prev_pid = 101, ctx_prev_state = 0\<rparr> host_example =
     Some s' \<and> sint (pc_count (arr_val (inner_maps s' 7) 0)) = 0 \<and> sint (pc_count (arr_val (inner_maps s' 7) 1)) = 1"
proof -
  let ?c = "\<lparr>next_pid = 102, prev_pid = 101, ctx_prev_state = 0\<rparr>" and ?n = "vm_key ''vm0''"
  obtain s' where s': "phantom_switch_handler 4096 of_nat ?c host_example = Some s'"
    using phantom_switch_handler_step [OF page_size_ok_4096 g2h_safe_example host_example_inv] by blast
  have "vcpus host_example 102 \<noteq> None" by (simp add: host_example_def)
  then have "phantoms s' ?n = {101}"
    using switch_handler_sets [OF host_example_inv s', of ?n] host_example_runs
    by (simp add: host_example_phantoms host_example_members arriving_def departing_def seen_state_def TASK_RUNNING_def)
  moreover have c: "collects_in host_example ?n 7 2"
    by (auto simp: collects_in_def host_example_def collecting_digit_def collecting_index_def split: if_splits)
  ultimately obtain xs where xs: "appended ?n 7 host_example s' xs" "map (sint \<circ> pc_count) xs = [0, 1]"
    using phantom_switch_handler_sample [OF host_example_inv s' _ c] by (auto simp: host_example_phantoms)
  then obtain x y where "xs = [x, y]" "sint (pc_count x) = 0" "sint (pc_count y) = 1" by auto
  with xs(1) have "arr_val (inner_maps s' 7) 0 = x" "arr_val (inner_maps s' 7) 1 = y"
    by (auto simp: appended_def host_example_def collecting_index_def)
  with s' \<open>sint (pc_count x) = 0\<close> \<open>sint (pc_count y) = 1\<close> show ?thesis by simp
qed

end
