(* ===== verification/Cas_Counter.thy ===== *)
theory Cas_Counter
  imports Phantom_Switch
begin

text \<open>
  The phantom counter under concurrency. The two update loops of
  \<^verbatim>\<open>create_maps.bpf.c\<close> run on several CPUs at once; here every volatile read and every
  compare-and-swap is one step of a relation, in any interleaving. \<open>Phantom_Switch\<close> has the
  same loops as functions of what the other CPUs do in between.
\<close>

subsection \<open>The step relation\<close>

datatype cas_op = Dec | Inc

text \<open>When the loop gives up on a value it read, and the value it tries to install.\<close>

fun blocked :: "cas_op \<Rightarrow> u32 \<Rightarrow> s64 \<Rightarrow> bool" where
  "blocked Dec ceil_val old \<longleftrightarrow> sint old \<le> 0"
| "blocked Inc ceil_val old \<longleftrightarrow> uint ceil_val \<le> sint old"

fun moved :: "cas_op \<Rightarrow> s64 \<Rightarrow> s64" where
  "moved Dec old = old - 1"
| "moved Inc old = old + 1"

text \<open>
  Where a CPU is: not in a loop, about to read in attempt \<open>k\<close>, about to swap the value it
  read in attempt \<open>k\<close>, or returned with a value.
\<close>

datatype cas_pc = Idle | Try cas_op nat | Loaded cas_op nat s64 | Done s64

text \<open>\<open>incs\<close> and \<open>decs\<close> count the swaps that succeeded; the code has no such fields.\<close>

record cas_state =
  cval :: s64
  pcs :: "nat \<Rightarrow> cas_pc"
  incs :: nat
  decs :: nat

definition cas_attempts :: nat where
  "cas_attempts = 24"

inductive cas_step :: "u32 \<Rightarrow> nat \<Rightarrow> cas_state \<Rightarrow> cas_state \<Rightarrow> bool" for ceil_val :: u32 and cpu :: nat where
  enter: "pcs s cpu = Idle \<or> pcs s cpu = Done r \<Longrightarrow>
    cas_step ceil_val cpu s (s\<lparr>pcs := (pcs s)(cpu := Try oper 0)\<rparr>)"
| give_up: "pcs s cpu = Try oper k \<Longrightarrow> k < cas_attempts \<Longrightarrow> blocked oper ceil_val (cval s) \<Longrightarrow>
    cas_step ceil_val cpu s (s\<lparr>pcs := (pcs s)(cpu := Done (cval s))\<rparr>)"
| load: "pcs s cpu = Try oper k \<Longrightarrow> k < cas_attempts \<Longrightarrow> \<not> blocked oper ceil_val (cval s) \<Longrightarrow>
    cas_step ceil_val cpu s (s\<lparr>pcs := (pcs s)(cpu := Loaded oper k (cval s))\<rparr>)"
| exhausted: "pcs s cpu = Try oper k \<Longrightarrow> cas_attempts \<le> k \<Longrightarrow>
    cas_step ceil_val cpu s (s\<lparr>pcs := (pcs s)(cpu := Done (cval s))\<rparr>)"
| swap: "pcs s cpu = Loaded oper k old \<Longrightarrow> cval s = old \<Longrightarrow>
    cas_step ceil_val cpu s (s\<lparr>cval := moved oper old, pcs := (pcs s)(cpu := Done (moved oper old)),
      incs := incs s + (if oper = Inc then 1 else 0), decs := decs s + (if oper = Dec then 1 else 0)\<rparr>)"
| retry: "pcs s cpu = Loaded oper k old \<Longrightarrow> cval s \<noteq> old \<Longrightarrow>
    cas_step ceil_val cpu s (s\<lparr>pcs := (pcs s)(cpu := Try oper (Suc k))\<rparr>)"

inductive_cases cas_stepE: "cas_step ceil_val cpu s s'"

inductive cas_run :: "u32 \<Rightarrow> cas_state \<Rightarrow> cas_state \<Rightarrow> bool" for ceil_val :: u32 where
  none: "cas_run ceil_val s s"
| more: "cas_run ceil_val s s' \<Longrightarrow> cas_step ceil_val cpu s' s'' \<Longrightarrow> cas_run ceil_val s s''"

definition cas_start :: "s64 \<Rightarrow> cas_state" where
  "cas_start v = \<lparr>cval = v, pcs = (\<lambda>_. Idle), incs = 0, decs = 0\<rparr>"

text \<open>Solo steps of one CPU: how many reads and swaps it still may need.\<close>

fun pc_work :: "cas_pc \<Rightarrow> nat" where
  "pc_work Idle = 0"
| "pc_work (Done v) = 0"
| "pc_work (Try oper k) = 2 * (cas_attempts - k) + 1"
| "pc_work (Loaded oper k v) = 2 * (cas_attempts - k)"

subsection \<open>The invariant\<close>

fun pc_ok :: "u32 \<Rightarrow> cas_pc \<Rightarrow> bool" where
  "pc_ok ceil_val (Loaded oper k old) \<longleftrightarrow> k < cas_attempts \<and> \<not> blocked oper ceil_val old"
| "pc_ok ceil_val (Done v) \<longleftrightarrow> 0 \<le> sint v \<and> sint v \<le> uint ceil_val"
| "pc_ok ceil_val (Try oper k) \<longleftrightarrow> k \<le> cas_attempts"
| "pc_ok ceil_val Idle \<longleftrightarrow> True"

definition cas_inv :: "u32 \<Rightarrow> s64 \<Rightarrow> cas_state \<Rightarrow> bool" where
  "cas_inv ceil_val v0 s \<longleftrightarrow> 0 \<le> sint (cval s) \<and> sint (cval s) \<le> uint ceil_val \<and>
     sint (cval s) = sint v0 + int (incs s) - int (decs s) \<and> (\<forall>c. pc_ok ceil_val (pcs s c))"

lemma uint_u32_bound: "uint (c :: u32) < 2 ^ 63 - 1"
  using uint_lt2p [of c] by simp

lemma moved_sint:
  assumes "\<not> blocked oper ceil_val v"
  shows "sint (moved oper v) = sint v + (if oper = Inc then 1 else -1)"
  using assms uint_u32_bound [of ceil_val] by (cases oper) (auto simp: sint_add_one sint_sub_one)

lemma cas_inv_step:
  assumes "cas_step ceil_val cpu s s'" and "cas_inv ceil_val v0 s"
  shows "cas_inv ceil_val v0 s'"
  using assms(1)
proof cases
  case (swap oper k old)
  with assms(2) have "pc_ok ceil_val (Loaded oper k old)" by (metis cas_inv_def)
  then have nb: "\<not> blocked oper ceil_val old" by simp
  with assms(2) swap moved_sint [OF nb] show ?thesis
    by (cases oper) (auto simp: cas_inv_def)
next
  case (retry oper k old)
  with assms(2) have "pc_ok ceil_val (Loaded oper k old)" by (metis cas_inv_def)
  with assms(2) retry show ?thesis by (auto simp: cas_inv_def)
qed (use assms(2) in \<open>auto simp: cas_inv_def\<close>)

lemma cas_inv_run: "cas_run ceil_val s s' \<Longrightarrow> cas_inv ceil_val v0 s \<Longrightarrow> cas_inv ceil_val v0 s'"
  by (induction rule: cas_run.induct) (auto intro: cas_inv_step)

lemma cas_inv_start: "0 \<le> sint v \<Longrightarrow> sint v \<le> uint ceil_val \<Longrightarrow> cas_inv ceil_val v (cas_start v)"
  by (simp add: cas_inv_def cas_start_def)

text \<open>What a busy CPU is about to do is always possible, and brings it closer to its return.\<close>

definition busy :: "cas_pc \<Rightarrow> bool" where
  "busy p \<longleftrightarrow> p \<noteq> Idle \<and> (\<forall>v. p \<noteq> Done v)"

lemma busy_can_step:
  assumes "busy (pcs s cpu)"
  shows "\<exists>s'. cas_step ceil_val cpu s s'"
proof (cases "pcs s cpu")
  case (Try oper k)
  then show ?thesis
    by (meson cas_step.exhausted cas_step.give_up cas_step.load not_le)
next
  case (Loaded oper k v)
  then show ?thesis
    by (cases "cval s = v") (blast intro: cas_step.swap cas_step.retry)+
qed (use assms in \<open>auto simp: busy_def\<close>)

lemma busy_step_work:
  assumes "cas_step ceil_val cpu s s'" and "busy (pcs s cpu)" and "pc_ok ceil_val (pcs s cpu)"
  shows "pc_work (pcs s' cpu) < pc_work (pcs s cpu)"
  using assms by cases (auto simp: busy_def)

lemma cas_step_others: "cas_step ceil_val cpu s s' \<Longrightarrow> c \<noteq> cpu \<Longrightarrow> pcs s' c = pcs s c"
  by (erule cas_stepE) auto

lemma pc_work_bound: "pc_work p \<le> 2 * cas_attempts + 1"
  by (cases p) auto

subsection \<open>Interference on one loop\<close>

definition in_bounds :: "u32 \<Rightarrow> s64 \<Rightarrow> bool" where
  "in_bounds ceil_val v \<longleftrightarrow> 0 \<le> sint v \<and> sint v \<le> uint ceil_val"

lemma in_bounds_moved: "\<not> blocked oper c v \<Longrightarrow> in_bounds c v \<Longrightarrow> in_bounds c (moved oper v)"
  using moved_sint [of oper c v] by (cases oper) (auto simp: in_bounds_def)

lemma dec_attempts_bounds:
  assumes "\<forall>k v. in_bounds c v \<longrightarrow> in_bounds c (env k v)" and "in_bounds c p"
  shows "in_bounds c (fst (dec_attempts n env k p)) \<and> in_bounds c (snd (dec_attempts n env k p))"
  using assms(2)
proof (induction n arbitrary: k p)
  case (Suc n)
  then have "in_bounds c (env (Suc k) (env k p))" using assms(1) by blast
  with Suc in_bounds_moved [of Dec c p] show ?case by (simp add: Let_def)
qed simp

lemma inc_attempts_bounds:
  assumes "\<forall>k v. in_bounds c v \<longrightarrow> in_bounds c (env k v)" and "in_bounds c p"
  shows "in_bounds c (fst (inc_attempts n env k p c)) \<and> in_bounds c (snd (inc_attempts n env k p c))"
  using assms(2)
proof (induction n arbitrary: k p)
  case (Suc n)
  then have "in_bounds c (env (Suc k) (env k p))" using assms(1) by blast
  with Suc in_bounds_moved [of Inc c p] show ?case by (simp add: Let_def)
qed simp

subsection \<open>Properties\<close>

text \<open>
  In every interleaving of increments and decrements on any number of CPUs, started from a
  count between 0 and the number of vCPUs, the counter stays between these bounds and is
  exactly the initial count plus the successful increments minus the successful decrements: no
  update is lost, whatever a CPU read before its compare-and-swap. Values returned by the loops
  are within the bounds too.
\<close>

theorem cas_counter_exact:
  assumes "cas_run ceil_val (cas_start v) s" and "0 \<le> sint v" and "sint v \<le> uint ceil_val"
  shows "0 \<le> sint (cval s) \<and> sint (cval s) \<le> uint ceil_val \<and>
    sint (cval s) = sint v + int (incs s) - int (decs s) \<and>
    (\<forall>c r. pcs s c = Done r \<longrightarrow> 0 \<le> sint r \<and> sint r \<le> uint ceil_val)"
proof -
  have inv: "cas_inv ceil_val v s"
    using cas_inv_run [OF assms(1) cas_inv_start [OF assms(2,3)]] .
  then have "pcs s c = Done r \<Longrightarrow> pc_ok ceil_val (Done r)" for c r by (metis cas_inv_def)
  with inv show ?thesis by (auto simp: cas_inv_def)
qed

text \<open>A run in which two CPUs read the same count and the slower one has to retry.\<close>

lemma one_neq_two: "(1 :: s64) \<noteq> 2"
  by (simp add: word_uint_eq_iff)

lemma cas_run_example:
  "\<exists>s. cas_run 4 (cas_start 1) s \<and> pcs s 0 = Done 2 \<and> pcs s 1 = Try Inc 1"
proof -
  let ?s1 = "(cas_start 1)\<lparr>pcs := (pcs (cas_start 1))(0 := Try Inc 0)\<rparr>"
  let ?s2 = "?s1\<lparr>pcs := (pcs ?s1)(1 := Try Inc 0)\<rparr>"
  let ?s3 = "?s2\<lparr>pcs := (pcs ?s2)(0 := Loaded Inc 0 (cval ?s2))\<rparr>"
  let ?s4 = "?s3\<lparr>pcs := (pcs ?s3)(1 := Loaded Inc 0 (cval ?s3))\<rparr>"
  let ?s5 = "?s4\<lparr>cval := moved Inc 1, pcs := (pcs ?s4)(0 := Done (moved Inc 1)),
      incs := incs ?s4 + (if Inc = Inc then 1 else 0), decs := decs ?s4 + (if Inc = Dec then 1 else 0)\<rparr>"
  let ?s6 = "?s5\<lparr>pcs := (pcs ?s5)(1 := Try Inc (Suc 0))\<rparr>"
  have "cas_run 4 (cas_start 1) (cas_start 1)" by (rule cas_run.none)
  then have "cas_run 4 (cas_start 1) ?s1"
    by (rule cas_run.more) (rule cas_step.enter, simp add: cas_start_def)
  then have "cas_run 4 (cas_start 1) ?s2"
    by (rule cas_run.more) (rule cas_step.enter, simp add: cas_start_def)
  then have "cas_run 4 (cas_start 1) ?s3"
    by (rule cas_run.more) (rule cas_step.load, simp_all add: cas_start_def cas_attempts_def)
  then have "cas_run 4 (cas_start 1) ?s4"
    by (rule cas_run.more) (rule cas_step.load, simp_all add: cas_start_def cas_attempts_def)
  then have "cas_run 4 (cas_start 1) ?s5"
    by (rule cas_run.more) (rule cas_step.swap, simp_all add: cas_start_def)
  then have "cas_run 4 (cas_start 1) ?s6"
    by (rule cas_run.more) (rule cas_step.retry, simp, simp add: cas_start_def one_neq_two [symmetric])
  then show ?thesis by (rule_tac x = ?s6 in exI) simp
qed

theorem cas_counter_exact_witness:
  "\<exists>s. cas_run 4 (cas_start 1) s \<and> pcs s 0 = Done 2 \<and>
     sint (cval s) = 1 + int (incs s) - int (decs s) \<and> sint (cval s) \<le> 4"
proof -
  obtain s where s: "cas_run 4 (cas_start 1) s" "pcs s 0 = Done 2" using cas_run_example by blast
  from cas_counter_exact [OF s(1)] s show ?thesis by (intro exI [of _ s]) simp
qed

text \<open>
  The loops always come back: in every reachable state a CPU inside a loop has a next step,
  each of its own steps strictly decreases the number of reads and swaps it still may need, that
  number is at most 49, and steps of other CPUs do not increase it.
\<close>

theorem cas_loop_returns:
  assumes "cas_run ceil_val (cas_start v) s" and "0 \<le> sint v" and "sint v \<le> uint ceil_val" and "busy (pcs s cpu)"
  shows "pc_work (pcs s cpu) \<le> 49 \<and> (\<exists>s'. cas_step ceil_val cpu s s') \<and>
    (\<forall>s'. cas_step ceil_val cpu s s' \<longrightarrow> pc_work (pcs s' cpu) < pc_work (pcs s cpu)) \<and>
    (\<forall>c s'. cas_step ceil_val c s s' \<and> c \<noteq> cpu \<longrightarrow> pcs s' cpu = pcs s cpu)"
proof -
  have ok: "pc_ok ceil_val (pcs s cpu)"
    using cas_inv_run [OF assms(1) cas_inv_start [OF assms(2,3)]] by (simp add: cas_inv_def)
  show ?thesis
  proof (intro conjI allI impI)
    show "pc_work (pcs s cpu) \<le> 49" using pc_work_bound [of "pcs s cpu"] by (simp add: cas_attempts_def)
  qed (use busy_can_step [OF assms(4)] busy_step_work [OF _ assms(4) ok] cas_step_others in \<open>blast | metis\<close>)+
qed

theorem cas_loop_returns_witness:
  "\<exists>s s'. cas_run 4 (cas_start 1) s \<and> pcs s 1 = Try Inc 1 \<and> cas_step 4 1 s s'"
proof -
  obtain s where s: "cas_run 4 (cas_start 1) s" "pcs s 1 = Try Inc 1" using cas_run_example by blast
  have "busy (pcs s 1)" using s(2) by (simp add: busy_def)
  from cas_loop_returns [OF s(1) _ _ this] s show ?thesis by (simp add: cas_pc.inject) blast
qed

text \<open>
  Seen from one CPU: as long as what the others do to the counter keeps it between 0 and
  the number of vCPUs, so do both updates, in the value they leave and in the value they return.
\<close>

theorem atomic_updates_in_bounds:
  assumes "\<forall>k w. in_bounds ceil_val w \<longrightarrow> in_bounds ceil_val (env k w)" and "in_bounds ceil_val p"
  shows "\<forall>res \<in> {atomic_dec_if_pos env p, atomic_inc_if_lt_ceil env p ceil_val}.
    in_bounds ceil_val (fst res) \<and> in_bounds ceil_val (snd res)"
  using dec_attempts_bounds [OF assms] inc_attempts_bounds [OF assms]
  by (simp add: atomic_dec_if_pos_def atomic_inc_if_lt_ceil_def)

theorem atomic_updates_in_bounds_witness:
  "in_bounds 2 (snd (atomic_inc_if_lt_ceil (\<lambda>k w. if k = 0 then 2 else 1) 1 2))"
  using atomic_updates_in_bounds [of 2 "\<lambda>k w. if k = 0 then 2 else 1" 1]
  by (simp add: in_bounds_def)

end
