(* ===== verification/Sample_Average.thy ===== *)
theory Sample_Average
  imports Bpf_Maps
begin

text \<open>
  Time-weighted averages over a buffer of timestamped samples. Two eBPF programs contain the
  same callback over two structures: \<open>phantom_avg_cb\<close> in \<^verbatim>\<open>timer.bpf.c\<close> and
  \<open>nr_running_avg_sample_cb\<close> in \<^verbatim>\<open>global_running_tracker.bpf.c\<close>. The reference is a
  sum over unbounded integers; the locale states what one call of such a callback does, and
  what iterating it over a buffer computes is proved once from that.
\<close>

subsection \<open>The reference\<close>

text \<open>
  Segment \<open>k\<close> runs from sample \<open>k\<close> to the next one. It counts when it starts before sample
  \<open>n\<close>, its end is inside the buffer, and time does not run backwards over it.
\<close>

definition seg_used :: "('v \<Rightarrow> u64) \<Rightarrow> 'v bpf_array \<Rightarrow> nat \<Rightarrow> nat \<Rightarrow> bool" where
  "seg_used stamp a n k \<longleftrightarrow>
     k < n \<and> Suc k < arr_max a \<and> stamp (arr_val a k) \<le> stamp (arr_val a (Suc k))"

definition seg_len :: "('v \<Rightarrow> u64) \<Rightarrow> 'v bpf_array \<Rightarrow> nat \<Rightarrow> int" where
  "seg_len stamp a k = uint (stamp (arr_val a (Suc k))) - uint (stamp (arr_val a k))"

text \<open>A negative count is taken as 0.\<close>

definition seg_area :: "('v \<Rightarrow> s64) \<Rightarrow> ('v \<Rightarrow> u64) \<Rightarrow> 'v bpf_array \<Rightarrow> nat \<Rightarrow> int" where
  "seg_area count stamp a k = max 0 (sint (count (arr_val a k))) * seg_len stamp a k"

definition weighted_area :: "('v \<Rightarrow> s64) \<Rightarrow> ('v \<Rightarrow> u64) \<Rightarrow> 'v bpf_array \<Rightarrow> nat \<Rightarrow> int" where
  "weighted_area count stamp a n =
     (\<Sum>k<arr_max a. if seg_used stamp a n k then seg_area count stamp a k else 0)"

definition time_span :: "('v \<Rightarrow> u64) \<Rightarrow> 'v bpf_array \<Rightarrow> nat \<Rightarrow> int" where
  "time_span stamp a n = (\<Sum>k<arr_max a. if seg_used stamp a n k then seg_len stamp a k else 0)"

text \<open>The first \<open>n\<close> segments of the buffer are all there and in order.\<close>

definition in_order :: "('v \<Rightarrow> u64) \<Rightarrow> 'v bpf_array \<Rightarrow> nat \<Rightarrow> bool" where
  "in_order stamp a n \<longleftrightarrow>
     n < arr_max a \<and> (\<forall>k<n. stamp (arr_val a k) \<le> stamp (arr_val a (Suc k)))"

subsection \<open>Facts about the reference\<close>

lemma uint_diff_bound: "uint (x :: u64) - uint (y :: u64) < 2 ^ 64"
proof -
  have "uint x < 2 ^ 64" using uint_lt2p [of x] by simp
  with uint_ge_0 [of y] show ?thesis by linarith
qed

lemma seg_len_nonneg: "seg_used stamp a n k \<Longrightarrow> 0 \<le> seg_len stamp a k"
  by (simp add: seg_used_def seg_len_def word_le_def)

lemma sum_prefix:
  fixes f :: "nat \<Rightarrow> int"
  assumes "n \<le> m"
  shows "(\<Sum>k<m. if k < n then f k else 0) = (\<Sum>k<n. f k)"
  using assms by (simp add: sum.If_cases lessThan_def Int_def min_def) (rule sum.cong; auto)

lemma seg_used_in_order: "in_order stamp a n \<Longrightarrow> seg_used stamp a n k \<longleftrightarrow> k < n"
  by (auto simp: in_order_def seg_used_def)

lemma time_span_in_order:
  assumes "in_order stamp a n"
  shows "time_span stamp a n = uint (stamp (arr_val a n)) - uint (stamp (arr_val a 0))"
proof -
  have "time_span stamp a n = (\<Sum>k<n. seg_len stamp a k)"
    using assms sum_prefix [of n "arr_max a" "seg_len stamp a"]
    by (simp add: time_span_def seg_used_in_order) (simp add: in_order_def)
  then show ?thesis
    using sum_lessThan_telescope [of "\<lambda>k. uint (stamp (arr_val a k))" n] by (simp add: seg_len_def)
qed

lemma weighted_area_in_order:
  assumes "in_order stamp a n"
  shows "weighted_area count stamp a n = (\<Sum>k<n. seg_area count stamp a k)"
  using assms sum_prefix [of n "arr_max a" "seg_area count stamp a"]
  by (simp add: weighted_area_def seg_used_in_order) (simp add: in_order_def)

lemma time_span_nonneg: "0 \<le> time_span stamp a n"
  unfolding time_span_def by (rule sum_nonneg) (simp add: seg_len_nonneg)

lemma weighted_area_nonneg: "0 \<le> weighted_area count stamp a n"
  unfolding weighted_area_def by (rule sum_nonneg) (simp add: seg_len_nonneg seg_area_def)

lemma weighted_area_le:
  assumes "\<And>k. k < n \<Longrightarrow> max 0 (sint (count (arr_val a k))) \<le> hi"
  shows "weighted_area count stamp a n \<le> hi * time_span stamp a n"
  unfolding weighted_area_def time_span_def sum_distrib_left
proof (rule sum_mono)
  fix k
  show "(if seg_used stamp a n k then seg_area count stamp a k else 0) \<le>
      hi * (if seg_used stamp a n k then seg_len stamp a k else 0)"
    using assms [of k] seg_len_nonneg [of stamp a n k]
    by (auto simp: seg_area_def seg_used_def intro: mult_right_mono)
qed

lemma weighted_area_ge:
  assumes "\<And>k. k < n \<Longrightarrow> lo \<le> max 0 (sint (count (arr_val a k)))"
  shows "lo * time_span stamp a n \<le> weighted_area count stamp a n"
  unfolding weighted_area_def time_span_def sum_distrib_left
proof (rule sum_mono)
  fix k
  show "lo * (if seg_used stamp a n k then seg_len stamp a k else 0) \<le>
      (if seg_used stamp a n k then seg_area count stamp a k else 0)"
    using assms [of k] seg_len_nonneg [of stamp a n k]
    by (auto simp: seg_area_def seg_used_def intro: mult_right_mono)
qed

text \<open>The same quantities as the callbacks compute them, on 64 bits.\<close>

lemma seg_len_word:
  "word_of_int (seg_len stamp a k) = stamp (arr_val a (Suc k)) - stamp (arr_val a k)"
  by (simp add: seg_len_def wi_hom_sub [symmetric])

lemma seg_area_word:
  "word_of_int (seg_area count stamp a k) =
     (if sint (count (arr_val a k)) < 0 then 0 else count (arr_val a k)) *
       (stamp (arr_val a (Suc k)) - stamp (arr_val a k))"
  by (simp add: seg_area_def wi_hom_mult [symmetric] seg_len_word max_def)

lemma seg_used_word:
  assumes "arr_max a < 2 ^ 32" and "unat k < arr_max a"
  shows "seg_used stamp a (unat nb) (unat k) \<longleftrightarrow>
    \<not> nb \<le> k \<and> (case array_lookup a (k + 1) of None \<Rightarrow> False
      | Some v \<Rightarrow> \<not> stamp v < stamp (arr_val a (unat k)))"
proof -
  have "unat (k + 1) = Suc (unat k)"
    using assms by (subst unat_add_one_no_wrap) auto
  then show ?thesis by (auto simp: seg_used_def array_lookup_def word_less_nat_alt word_le_nat_alt)
qed

lemma array_lookup_next:
  assumes "arr_max a < 2 ^ 32" and "unat k < arr_max a" and "array_lookup a (k + 1) = Some w"
  shows "w = arr_val a (Suc (unat k))"
  using assms by (simp add: array_lookup_def unat_add_one_no_wrap split: if_splits)

subsection \<open>The interface of a callback\<close>

locale sample_average =
  fixes count :: "'v \<Rightarrow> s64" and stamp :: "'v \<Rightarrow> u64"
    and cb :: "'v bpf_array \<Rightarrow> u32 \<Rightarrow> 'v \<Rightarrow> 'c \<Rightarrow> 'c"
    and csum :: "'c \<Rightarrow> s64" and ctime :: "'c \<Rightarrow> u64" and cnb :: "'c \<Rightarrow> u32"
  assumes cb_nb: "cnb (cb a k v c) = cnb c"
    and cb_sum: "arr_max a < 2 ^ 32 \<Longrightarrow> unat k < arr_max a \<Longrightarrow> v = arr_val a (unat k) \<Longrightarrow>
      csum (cb a k v c) = csum c + word_of_int
        (if seg_used stamp a (unat (cnb c)) (unat k) then seg_area count stamp a (unat k) else 0)"
    and cb_time: "arr_max a < 2 ^ 32 \<Longrightarrow> unat k < arr_max a \<Longrightarrow> v = arr_val a (unat k) \<Longrightarrow>
      ctime (cb a k v c) = ctime c + word_of_int
        (if seg_used stamp a (unat (cnb c)) (unat k) then seg_len stamp a (unat k) else 0)"
begin

lemma fold_cb:
  assumes "arr_max a < 2 ^ 32" and "m \<le> arr_max a"
  shows "let c' = fold (\<lambda>k. cb a (of_nat k) (arr_val a k)) [0..<m] c in
    cnb c' = cnb c \<and>
    csum c' = csum c + word_of_int
      (\<Sum>k<m. if seg_used stamp a (unat (cnb c)) k then seg_area count stamp a k else 0) \<and>
    ctime c' = ctime c + word_of_int
      (\<Sum>k<m. if seg_used stamp a (unat (cnb c)) k then seg_len stamp a k else 0)"
  using assms(2)
proof (induction m)
  case (Suc m)
  define c' where "c' = fold (\<lambda>k. cb a (of_nat k) (arr_val a k)) [0..<m] c"
  have k: "unat (of_nat m :: u32) = m" using Suc.prems assms(1) by (simp add: unat_of_nat_u32)
  show ?case
    using Suc cb_nb cb_sum [OF assms(1), of "of_nat m" "arr_val a m" c']
      cb_time [OF assms(1), of "of_nat m" "arr_val a m" c']
    by (simp add: Let_def k c'_def [symmetric] wi_hom_add [symmetric] add.assoc)
qed simp

text \<open>
  Iterating the callback over a buffer from an empty context gives the reference sums, modulo
  2 to the 64.
\<close>

lemma for_each_sums:
  assumes "arr_max a < 2 ^ 32" and "csum c = 0" and "ctime c = 0"
  shows "csum (array_for_each (cb a) a c) = word_of_int (weighted_area count stamp a (unat (cnb c)))"
    and "ctime (array_for_each (cb a) a c) = word_of_int (time_span stamp a (unat (cnb c)))"
  using fold_cb [OF assms(1) order_refl, of c] assms(2,3)
  by (simp_all add: Let_def array_for_each_def weighted_area_def time_span_def)

text \<open>Without overflow the quotient is the quotient of the reference sums.\<close>

lemma for_each_quotient:
  assumes "arr_max a < 2 ^ 32" and "csum c = 0" and "ctime c = 0"
    and "weighted_area count stamp a (unat (cnb c)) < 2 ^ 64"
    and "time_span stamp a (unat (cnb c)) < 2 ^ 64"
  shows "uint (csum (array_for_each (cb a) a c) div ctime (array_for_each (cb a) a c)) =
      weighted_area count stamp a (unat (cnb c)) div time_span stamp a (unat (cnb c))"
    and "0 < ctime (array_for_each (cb a) a c) \<longleftrightarrow> 0 < time_span stamp a (unat (cnb c))"
proof -
  have s: "uint (csum (array_for_each (cb a) a c)) = weighted_area count stamp a (unat (cnb c))"
    and t: "uint (ctime (array_for_each (cb a) a c)) = time_span stamp a (unat (cnb c))"
    using assms(4,5) weighted_area_nonneg [of count stamp a] time_span_nonneg [of stamp a]
    by (simp_all add: for_each_sums [OF assms(1-3)] uint_word_of_int)
  show "uint (csum (array_for_each (cb a) a c) div ctime (array_for_each (cb a) a c)) =
      weighted_area count stamp a (unat (cnb c)) div time_span stamp a (unat (cnb c))"
    by (simp add: uint_div s t)
  show "0 < ctime (array_for_each (cb a) a c) \<longleftrightarrow> 0 < time_span stamp a (unat (cnb c))"
    by (simp add: word_less_def t)
qed

end

end
