(* ===== verification/Bpf_Timer.thy ===== *)
theory Bpf_Timer
  imports Pv_Prelude
begin

text \<open>
  The kernel's eBPF timers, as far as the programs see them: the answers of the three calls that
  set a timer up, and what a call leaves behind. The programs check the answer of
  \<open>bpf_timer_init\<close> only, or that of \<open>bpf_timer_set_callback\<close> too; a failure of the
  others passes unnoticed, so the answers are arguments of the definitions. A timer is armed with
  a delay; when it fires it is no longer armed, and its callback runs if one was set.

  The locale is the contract of the programs \<open>phantom_timer_handler\<close> and
  \<open>global_running_tracker_timer_init\<close>, which both take the \<open>started\<close> flag of the timer
  element with an atomic exchange, initialise and arm the timer, and give the flag back when the
  initialisation fails.
\<close>

record timer_answers =
  init_ret :: "errno option"
  callback_ret :: "errno option"
  start_ret :: "errno option"

definition bpf_timer_set_callback :: "errno option \<Rightarrow> bool \<Rightarrow> bool" where
  "bpf_timer_set_callback ret has_callback = (if ret = None then True else has_callback)"

definition bpf_timer_start :: "errno option \<Rightarrow> u64 \<Rightarrow> u64 option \<Rightarrow> u64 option" where
  "bpf_timer_start ret nsecs armed = (if ret = None then Some nsecs else armed)"

locale retrying_timer =
  fixes start :: "timer_answers \<Rightarrow> 'e \<Rightarrow> 'e" and armed :: "'e \<Rightarrow> u64 option" and has_callback :: "'e \<Rightarrow> bool"
    and started :: "'e \<Rightarrow> u64" and period :: u64
  assumes start_again: "started e \<noteq> 0 \<Longrightarrow> started (start r e) \<noteq> 0 \<and> armed (start r e) = armed e \<and>
      has_callback (start r e) = has_callback e"
    and start_ok: "started e = 0 \<Longrightarrow> init_ret r = None \<Longrightarrow> started (start r e) \<noteq> 0 \<and>
      armed (start r e) = bpf_timer_start (start_ret r) period (armed e) \<and>
      has_callback (start r e) = bpf_timer_set_callback (callback_ret r) (has_callback e)"
    and start_failed: "started e = 0 \<Longrightarrow> init_ret r \<noteq> None \<Longrightarrow> started (start r e) = 0 \<and>
      armed (start r e) = armed e \<and> has_callback (start r e) = has_callback e"
begin

lemma fold_started:
  "started e \<noteq> 0 \<Longrightarrow> started (fold start rets e) \<noteq> 0 \<and> armed (fold start rets e) = armed e \<and>
    has_callback (fold start rets e) = has_callback e"
  by (induction rets arbitrary: e) (auto simp: start_again)

text \<open>The first call whose initialisation succeeds decides.\<close>

lemma fold_start:
  assumes "started e = 0" and "armed e = None" and "\<not> has_callback e"
  shows "case find (\<lambda>r. init_ret r = None) rets of
      None \<Rightarrow> started (fold start rets e) = 0 \<and> armed (fold start rets e) = None \<and> \<not> has_callback (fold start rets e)
    | Some r \<Rightarrow> started (fold start rets e) \<noteq> 0 \<and>
        armed (fold start rets e) = (if start_ret r = None then Some period else None) \<and>
        (has_callback (fold start rets e) \<longleftrightarrow> callback_ret r = None)"
  using assms
proof (induction rets arbitrary: e)
  case (Cons r rets)
  show ?case
  proof (cases "init_ret r = None")
    case True
    define e1 where "e1 = start r e"
    have "started e1 \<noteq> 0" "armed e1 = (if start_ret r = None then Some period else None)"
      "has_callback e1 \<longleftrightarrow> callback_ret r = None"
      using start_ok [OF Cons.prems(1) True] Cons.prems(2,3)
      by (simp_all add: e1_def bpf_timer_start_def bpf_timer_set_callback_def)
    with fold_started [of e1 rets] True show ?thesis by (simp flip: e1_def)
  next
    case False
    then have "find (\<lambda>r. init_ret r = None) (r # rets) = find (\<lambda>r. init_ret r = None) rets"
      and "fold start (r # rets) e = fold start rets (start r e)" using False by auto
    with start_failed [OF Cons.prems(1) False] Cons.prems Cons.IH [of "start r e"] show ?thesis
      by (simp only:) blast
  qed
qed simp

end

end
