(* ===== verification/Phantom_Timer.thy ===== *)
theory Phantom_Timer
  imports Sample_Average Phantom_Switch Bpf_Timer
begin

text \<open>
  The periodic averaging program, \<^verbatim>\<open>pvsched-ebpf/host/ebpf/timer/timer.bpf.c\<close>: every
  4 ms, for every VM, the collecting buffer is exchanged for the other one, the finished buffer
  is closed and averaged, and a watermark with the average is published to the guest.
\<close>

subsection \<open>The average of a buffer\<close>

record phantom_avg_ctx =
  avg_sum :: s64
  avg_total_time :: u64
  avg_nb_samples :: u32
  avg_avg :: s64

text \<open>
  The comparison of the unsigned key with the \<open>int\<close> number of samples is unsigned, so the
  number of samples is kept as its 32 bits.
\<close>

definition phantom_avg_cb ::
  "phantom_count bpf_array \<Rightarrow> u32 \<Rightarrow> phantom_count \<Rightarrow> phantom_avg_ctx \<Rightarrow> phantom_avg_ctx" where
  "phantom_avg_cb m k current_sample data =
     (if avg_nb_samples data \<le> k then data
      else (case array_lookup m (k + 1) of None \<Rightarrow> data
      | Some next_sample \<Rightarrow>
          if pc_timestamp next_sample < pc_timestamp current_sample then data
          else
            let count = (if sint (pc_count current_sample) < 0 then 0 else pc_count current_sample);
                duration = pc_timestamp next_sample - pc_timestamp current_sample
            in data\<lparr>avg_sum := avg_sum data + count * duration,
                    avg_total_time := avg_total_time data + duration\<rparr>))"

text \<open>The sum is divided as an unsigned number, since the other operand is unsigned.\<close>

definition phantom_average :: "phantom_count bpf_array \<Rightarrow> u32 \<Rightarrow> s64" where
  "phantom_average m nb_samples =
     (let ctx = array_for_each (phantom_avg_cb m) m
            \<lparr>avg_sum = 0, avg_total_time = 0, avg_nb_samples = nb_samples, avg_avg = 0\<rparr>
      in if 0 < avg_total_time ctx then avg_sum ctx div avg_total_time ctx else 0)"

subsection \<open>History slots and watermarks\<close>

definition H2G_HISTORY_SLOT_COUNT :: "nat \<Rightarrow> nat" where
  "H2G_HISTORY_SLOT_COUNT pg = NR_HOST_IVSHMEM_MSGS pg - H2G_FIRST_HISTORY_SLOT"

definition next_history_slot :: "nat \<Rightarrow> vm_t \<Rightarrow> u32 \<times> vm_t" where
  "next_history_slot pg vm =
     (let idx = unat (h2g_history_index vm) mod H2G_HISTORY_SLOT_COUNT pg
      in (of_nat (H2G_FIRST_HISTORY_SLOT + idx), vm\<lparr>h2g_history_index := h2g_history_index vm + 1\<rparr>))"

definition watermark :: "u64 \<Rightarrow> s64 \<Rightarrow> u64 \<Rightarrow> u64" where
  "watermark ts phantom_avg idle_avg =
     (push_bit 32 (ts AND 0xffffffff) OR push_bit 16 (phantom_avg AND 0xffff)) OR (idle_avg AND 0xffff)"

text \<open>The error code of the write is ignored.\<close>

definition write_watermark :: "nat \<Rightarrow> u32 \<Rightarrow> u64 \<Rightarrow> s64 \<Rightarrow> u64 \<Rightarrow> host_registry \<Rightarrow> host_registry option" where
  "write_watermark pg index ts phantom_avg idle_avg r = do {
     (ret, r') \<leftarrow> bpf_host_ivshmem_h2g_write pg r index
        (Some (hg_message_zero\<lparr>hg_msg := watermark ts phantom_avg idle_avg\<rparr>));
     Some r'
   }"

subsection \<open>One VM\<close>

text \<open>
  Exchanging the buffers of a VM. The result is the state, the number of samples of the
  finished buffer and the identity of that buffer.
\<close>

definition swap_buffers ::
  "string \<Rightarrow> vm_t \<Rightarrow> nat \<Rightarrow> nat \<Rightarrow> phantom_count \<Rightarrow> phantom_count \<Rightarrow> host_state \<Rightarrow> host_state \<times> u32 \<times> nat" where
  "swap_buffers key vm collection_map processing_map count_end count_start s =
     (if is_collectx_in_buff_1 vm = 1 then
        let s1 = inner_update processing_map 0 count_start s;
            vm1 = vm\<lparr>collection_buff_2_index := 1\<rparr>;
            vm2 = vm1\<lparr>is_collectx_in_buff_1 := 0\<rparr>;
            end_idx = collection_buff_1_index vm2;
            vm3 = vm2\<lparr>collection_buff_1_index := end_idx + 1\<rparr>;
            s2 = s1\<lparr>vms := (vms s1)(key \<mapsto> vm3)\<rparr>
        in (inner_update collection_map end_idx count_end s2, end_idx, collection_map)
      else
        let s1 = inner_update collection_map 0 count_start s;
            vm1 = vm\<lparr>collection_buff_1_index := 1\<rparr>;
            vm2 = (if is_collectx_in_buff_1 vm1 = 0 then vm1\<lparr>is_collectx_in_buff_1 := 1\<rparr> else vm1);
            end_idx = collection_buff_2_index vm2;
            vm3 = vm2\<lparr>collection_buff_2_index := end_idx + 1\<rparr>;
            s2 = s1\<lparr>vms := (vms s1)(key \<mapsto> vm3)\<rparr>
        in (inner_update processing_map end_idx count_end s2, end_idx, processing_map))"

text \<open>
  The callback for one entry of \<open>vms\<close>; \<open>gs\<close> is the one-entry array the idle tracker
  publishes.
\<close>

definition callback_fn ::
  "nat \<Rightarrow> (nat \<Rightarrow> u64) \<Rightarrow> global_runnx_tracker_state bpf_array \<Rightarrow> string \<Rightarrow> host_state \<Rightarrow> host_state option" where
  "callback_fn pg ktime gs key s =
     (case vms s key of None \<Rightarrow> Some s | Some vm \<Rightarrow>
     (case map_registry s (collection_key CHR ''1'' key) of None \<Rightarrow> Some s | Some collection_map \<Rightarrow>
     (case map_registry s (collection_key CHR ''2'' key) of None \<Rightarrow> Some s | Some processing_map \<Rightarrow>
       let count_end = \<lparr>pc_count = vm_phantom_count vm, pc_timestamp = ktime (ktime_calls s)\<rparr>;
           count_start = \<lparr>pc_count = vm_phantom_count vm, pc_timestamp = ktime (ktime_calls s + 1)\<rparr>;
           s1 = s\<lparr>ktime_calls := ktime_calls s + 2\<rparr>;
           (s2, nb_samples, map_to_use) =
             swap_buffers key vm collection_map processing_map count_end count_start s1;
           avg = phantom_average (inner_maps s2 map_to_use) nb_samples;
           idle_avg = (case array_lookup gs 0 of None \<Rightarrow> 0 | Some gstate \<Rightarrow> last_idle_avg gstate);
           ts = ktime (ktime_calls s2);
           s3 = s2\<lparr>ktime_calls := ktime_calls s2 + 1\<rparr>
       in (case vms s3 key of None \<Rightarrow> Some s3 | Some vm' \<Rightarrow>
            let (history_slot, vm'') = next_history_slot pg vm';
                s4 = s3\<lparr>vms := (vms s3)(key \<mapsto> vm'')\<rparr>
            in do {
              r \<leftarrow> write_watermark pg history_slot ts avg idle_avg (shm s4);
              Some (s4\<lparr>shm := r\<rparr>)
            }))))"

subsection \<open>All VMs, and the timer\<close>

text \<open>
  The order in which \<open>bpf_for_each_map_elem\<close> visits a hash map is not specified; it is the
  argument \<open>order\<close>, the list of keys visited.
\<close>

primrec for_each_vm ::
  "nat \<Rightarrow> (nat \<Rightarrow> u64) \<Rightarrow> global_runnx_tracker_state bpf_array \<Rightarrow> string list \<Rightarrow> host_state \<Rightarrow> host_state option" where
  "for_each_vm pg ktime gs [] s = Some s"
| "for_each_vm pg ktime gs (n # ns) s = do {
     s1 \<leftarrow> callback_fn pg ktime gs n s;
     for_each_vm pg ktime gs ns s1
   }"

record timer_elem =
  te_armed :: "u64 option"
  te_callback :: bool
  te_counter :: u64
  te_started :: u64

text \<open>The timer fires, which leaves it unarmed; \<open>ret\<close> is the answer of \<open>bpf_timer_start\<close>.\<close>

definition timer_cb ::
  "nat \<Rightarrow> (nat \<Rightarrow> u64) \<Rightarrow> global_runnx_tracker_state bpf_array \<Rightarrow> errno option \<Rightarrow> string list \<Rightarrow>
    timer_elem \<Rightarrow> host_state \<Rightarrow> (timer_elem \<times> host_state) option" where
  "timer_cb pg ktime gs ret order val s = do {
     let val1 = val\<lparr>te_counter := te_counter val + 1, te_armed := None\<rparr>;
     s1 \<leftarrow> for_each_vm pg ktime gs order s;
     Some (val1\<lparr>te_armed := bpf_timer_start ret 4000000 (te_armed val1)\<rparr>, s1)
   }"

definition MSG_TIMER_PERIOD_NS :: u64 where
  "MSG_TIMER_PERIOD_NS = 4000000"

text \<open>The answers of \<open>bpf_timer_set_callback\<close> and \<open>bpf_timer_start\<close> are dropped.\<close>

definition phantom_timer_handler :: "timer_answers \<Rightarrow> timer_elem \<Rightarrow> timer_elem" where
  "phantom_timer_handler ans e =
     (let old = te_started e; e1 = e\<lparr>te_started := 1\<rparr> in
      if old \<noteq> 0 then e1
      else if init_ret ans \<noteq> None then
        (if te_started e1 = 1 then e1\<lparr>te_started := 0\<rparr> else e1)
      else
        let e2 = e1\<lparr>te_callback := bpf_timer_set_callback (callback_ret ans) (te_callback e1)\<rparr>
        in e2\<lparr>te_armed := bpf_timer_start (start_ret ans) MSG_TIMER_PERIOD_NS (te_armed e2)\<rparr>)"

subsection \<open>The average: lemmas\<close>

interpretation pavg: sample_average pc_count pc_timestamp phantom_avg_cb avg_sum avg_total_time avg_nb_samples
proof unfold_locales
  fix a :: "phantom_count bpf_array" and k v c
  show "avg_nb_samples (phantom_avg_cb a k v c) = avg_nb_samples c"
    by (simp add: phantom_avg_cb_def Let_def split: option.split)
  assume a: "arr_max a < 2 ^ 32" "unat k < arr_max a" and v: "v = arr_val a (unat k)"
  note next_k = array_lookup_next [OF a]
  show "avg_sum (phantom_avg_cb a k v c) = avg_sum c + word_of_int
      (if seg_used pc_timestamp a (unat (avg_nb_samples c)) (unat k)
       then seg_area pc_count pc_timestamp a (unat k) else 0)"
    by (auto simp: phantom_avg_cb_def Let_def v seg_used_word [OF a] seg_area_word dest: next_k split: option.split)
  show "avg_total_time (phantom_avg_cb a k v c) = avg_total_time c + word_of_int
      (if seg_used pc_timestamp a (unat (avg_nb_samples c)) (unat k)
       then seg_len pc_timestamp a (unat k) else 0)"
    by (auto simp: phantom_avg_cb_def Let_def v seg_used_word [OF a] seg_len_word dest: next_k split: option.split)
qed

lemma phantom_average_quotient:
  assumes "arr_max a < 2 ^ 32"
    and "weighted_area pc_count pc_timestamp a (unat nb) < 2 ^ 64"
    and "time_span pc_timestamp a (unat nb) < 2 ^ 64"
  shows "uint (phantom_average a nb) =
    weighted_area pc_count pc_timestamp a (unat nb) div time_span pc_timestamp a (unat nb)"
  using pavg.for_each_quotient
    [of a "\<lparr>avg_sum = 0, avg_total_time = 0, avg_nb_samples = nb, avg_avg = 0\<rparr>"] assms
    time_span_nonneg [of pc_timestamp a "unat nb"]
  by (auto simp: phantom_average_def Let_def)

subsection \<open>History slots\<close>

lemma history_slot_count:
  assumes "page_size_ok pg"
  shows "0 < H2G_HISTORY_SLOT_COUNT pg" and "NR_HOST_IVSHMEM_MSGS pg = H2G_HISTORY_SLOT_COUNT pg + 1"
    and "H2G_HISTORY_SLOT_COUNT pg < 1024"
  using assms by (auto simp: H2G_HISTORY_SLOT_COUNT_def abi_defs page_size_ok_def)

lemma next_history_slot_value:
  assumes "page_size_ok pg"
  shows "unat (fst (next_history_slot pg vm)) = 1 + unat (h2g_history_index vm) mod H2G_HISTORY_SLOT_COUNT pg"
proof -
  have "unat (h2g_history_index vm) mod H2G_HISTORY_SLOT_COUNT pg < 1024"
    using history_slot_count [OF assms] mod_less_divisor [of "H2G_HISTORY_SLOT_COUNT pg" "unat (h2g_history_index vm)"]
    by linarith
  then show ?thesis
    by (simp add: next_history_slot_def Let_def H2G_FIRST_HISTORY_SLOT_def unat_of_nat_u32 del: of_nat_Suc of_nat_add)
qed

lemma next_history_slot_range:
  assumes "page_size_ok pg"
  shows "0 < unat (fst (next_history_slot pg vm))" and "unat (fst (next_history_slot pg vm)) < NR_HOST_IVSHMEM_MSGS pg"
  using history_slot_count [OF assms] by (simp_all add: next_history_slot_value [OF assms])

subsection \<open>Watermarks\<close>

definition watermark_ts :: "u64 \<Rightarrow> u64" where
  "watermark_ts w = drop_bit 32 w"

definition watermark_phantom :: "u64 \<Rightarrow> u64" where
  "watermark_phantom w = take_bit 16 (drop_bit 16 w)"

definition watermark_idle :: "u64 \<Rightarrow> u64" where
  "watermark_idle w = take_bit 16 w"

lemma watermark_fields:
  "watermark_ts (watermark ts p i) = take_bit 32 ts"
  "watermark_phantom (watermark ts p i) = take_bit 16 p"
  "watermark_idle (watermark ts p i) = take_bit 16 i"
proof -
  have m: "(0xffffffff :: u64) = mask 32" "(0xffff :: u64) = mask 16" by (simp_all add: mask_eq_exp_minus_1)
  show "watermark_ts (watermark ts p i) = take_bit 32 ts"
    unfolding watermark_ts_def watermark_def m
    by (rule bit_word_eqI) (auto simp: bit_simps)
  show "watermark_phantom (watermark ts p i) = take_bit 16 p"
    unfolding watermark_phantom_def watermark_def m
    by (rule bit_word_eqI) (auto simp: bit_simps)
  show "watermark_idle (watermark ts p i) = take_bit 16 i"
    unfolding watermark_idle_def watermark_def m
    by (rule bit_word_eqI) (auto simp: bit_simps)
qed

lemma write_watermark_publish:
  "write_watermark pg index ts p i r = h2g_publish pg r index (watermark ts p i)"
  by (cases "bpf_host_ivshmem_h2g_write pg r index (Some (hg_message_zero\<lparr>hg_msg := watermark ts p i\<rparr>))")
    (auto simp: write_watermark_def h2g_publish_def)

subsection \<open>One tick for one VM\<close>

definition has_buffers :: "host_state \<Rightarrow> string \<Rightarrow> bool" where
  "has_buffers s n \<longleftrightarrow> vms s n \<noteq> None \<and> map_registry s (collection_key CHR ''1'' n) \<noteq> None \<and>
     map_registry s (collection_key CHR ''2'' n) \<noteq> None"

text \<open>The two buffers of a VM by role: the one being finished and the one taking over.\<close>

definition finished_map :: "vm_t \<Rightarrow> nat \<Rightarrow> nat \<Rightarrow> nat" where
  "finished_map vm m1 m2 = (if is_collectx_in_buff_1 vm = 1 then m1 else m2)"

definition next_map :: "vm_t \<Rightarrow> nat \<Rightarrow> nat \<Rightarrow> nat" where
  "next_map vm m1 m2 = (if is_collectx_in_buff_1 vm = 1 then m2 else m1)"

definition swapped_vm :: "vm_t \<Rightarrow> vm_t" where
  "swapped_vm vm =
     (if is_collectx_in_buff_1 vm = 1
      then vm\<lparr>collection_buff_2_index := 1, is_collectx_in_buff_1 := 0,
        collection_buff_1_index := collection_buff_1_index vm + 1\<rparr>
      else if is_collectx_in_buff_1 vm = 0
      then vm\<lparr>collection_buff_1_index := 1, is_collectx_in_buff_1 := 1,
        collection_buff_2_index := collection_buff_2_index vm + 1\<rparr>
      else vm\<lparr>collection_buff_1_index := 1,
        collection_buff_2_index := collection_buff_2_index vm + 1\<rparr>)"

lemma swapped_vm_fields [simp]:
  "vm_phantom_count (swapped_vm vm) = vm_phantom_count vm" "nb_vcpus (swapped_vm vm) = nb_vcpus vm"
  "h2g_history_index (swapped_vm vm) = h2g_history_index vm"
  by (simp_all add: swapped_vm_def)

lemma swapped_vm_collecting:
  assumes "is_collectx_in_buff_1 vm \<in> {0, 1}"
  shows "is_collectx_in_buff_1 (swapped_vm vm) = 1 - is_collectx_in_buff_1 vm" and "collecting_index (swapped_vm vm) = 1"
  using assms by (auto simp: swapped_vm_def collecting_index_def)

lemma swap_buffers_result:
  "swap_buffers key vm m1 m2 count_end count_start s =
     (inner_update (finished_map vm m1 m2) (collecting_index vm) count_end
        (inner_update (next_map vm m1 m2) 0 count_start (s\<lparr>vms := (vms s)(key \<mapsto> swapped_vm vm)\<rparr>)),
      collecting_index vm, finished_map vm m1 m2)"
  by (simp add: swap_buffers_def inner_update_def Let_def collecting_index_def finished_map_def next_map_def
      swapped_vm_def)

text \<open>The state after the buffers of a VM have been exchanged, and what is published for it.\<close>

definition tick_state :: "(nat \<Rightarrow> u64) \<Rightarrow> string \<Rightarrow> vm_t \<Rightarrow> nat \<Rightarrow> nat \<Rightarrow> host_state \<Rightarrow> host_state" where
  "tick_state ktime key vm m1 m2 s =
     (inner_update (finished_map vm m1 m2) (collecting_index vm)
       \<lparr>pc_count = vm_phantom_count vm, pc_timestamp = ktime (ktime_calls s)\<rparr>
       (inner_update (next_map vm m1 m2) 0
         \<lparr>pc_count = vm_phantom_count vm, pc_timestamp = ktime (Suc (ktime_calls s))\<rparr>
         (s\<lparr>vms := (vms s)(key \<mapsto> swapped_vm vm)\<rparr>)))\<lparr>ktime_calls := Suc (Suc (Suc (ktime_calls s)))\<rparr>"

definition idle_of :: "global_runnx_tracker_state bpf_array \<Rightarrow> u64" where
  "idle_of gs = (case array_lookup gs 0 of None \<Rightarrow> 0 | Some g \<Rightarrow> last_idle_avg g)"

definition tick_message ::
  "(nat \<Rightarrow> u64) \<Rightarrow> global_runnx_tracker_state bpf_array \<Rightarrow> string \<Rightarrow> vm_t \<Rightarrow> nat \<Rightarrow> nat \<Rightarrow> host_state \<Rightarrow> u64" where
  "tick_message ktime gs key vm m1 m2 s =
     watermark (ktime (Suc (Suc (ktime_calls s))))
       (phantom_average (inner_maps (tick_state ktime key vm m1 m2 s) (finished_map vm m1 m2)) (collecting_index vm))
       (idle_of gs)"

lemma bind_Some_map: "Option.bind x (\<lambda>r. Some (f r)) = map_option f x"
  by (cases x) simp_all

lemma callback_fn_eq:
  assumes "vms s key = Some vm" and "map_registry s (collection_key CHR ''1'' key) = Some m1"
    and "map_registry s (collection_key CHR ''2'' key) = Some m2"
  shows "callback_fn pg ktime gs key s =
    map_option (\<lambda>r. (tick_state ktime key vm m1 m2 s)
        \<lparr>vms := (vms s)(key \<mapsto> snd (next_history_slot pg (swapped_vm vm))), shm := r\<rparr>)
      (h2g_publish pg (shm s) (fst (next_history_slot pg (swapped_vm vm))) (tick_message ktime gs key vm m1 m2 s))"
  by (simp add: callback_fn_def assms Let_def swap_buffers_result tick_state_def tick_message_def idle_of_def
      inner_update_def write_watermark_publish bind_Some_map case_prod_beta)

lemma callback_fn_skip: "\<not> has_buffers s key \<Longrightarrow> callback_fn pg ktime gs key s = Some s"
  by (auto simp: has_buffers_def callback_fn_def split: option.splits)

lemma tick_state_frame [simp]:
  "vcpus (tick_state ktime key vm m1 m2 s) = vcpus s"
  "map_registry (tick_state ktime key vm m1 m2 s) = map_registry s"
  "shm (tick_state ktime key vm m1 m2 s) = shm s"
  by (simp_all add: tick_state_def inner_update_def)

lemma tick_state_maps:
  assumes "m1 \<noteq> m2"
  shows "inner_maps (tick_state ktime key vm m1 m2 s) = (inner_maps s)
     (next_map vm m1 m2 := snd (array_update (inner_maps s (next_map vm m1 m2)) 0
         \<lparr>pc_count = vm_phantom_count vm, pc_timestamp = ktime (Suc (ktime_calls s))\<rparr>),
      finished_map vm m1 m2 := snd (array_update (inner_maps s (finished_map vm m1 m2)) (collecting_index vm)
         \<lparr>pc_count = vm_phantom_count vm, pc_timestamp = ktime (ktime_calls s)\<rparr>))"
  using assms by (auto simp: tick_state_def inner_update_def next_map_def finished_map_def)

text \<open>What a tick for one VM always does.\<close>

lemma callback_fn_step:
  assumes pg: "page_size_ok pg" and r: "h2g_ready pg (shm s)"
  shows "\<exists>s'. callback_fn pg ktime gs key s = Some s' \<and> h2g_ready pg (shm s') \<and>
    vcpus s' = vcpus s \<and> map_registry s' = map_registry s \<and> (\<forall>n. vm_view s' n = vm_view s n) \<and>
    (if has_buffers s key
     then \<exists>i w. h2g_publish pg (shm s) i w = Some (shm s') \<and> 0 < unat i \<and> unat i < NR_HOST_IVSHMEM_MSGS pg \<and>
       watermark_idle w = take_bit 16 (idle_of gs)
     else shm s' = shm s)"
proof (cases "has_buffers s key")
  case True
  then obtain vm m1 m2 where b: "vms s key = Some vm" "map_registry s (collection_key CHR ''1'' key) = Some m1"
      "map_registry s (collection_key CHR ''2'' key) = Some m2"
    by (auto simp: has_buffers_def)
  let ?vm = "swapped_vm vm" and ?w = "tick_message ktime gs key vm m1 m2 s"
  note range = next_history_slot_range [OF pg, of ?vm]
  obtain r' where r': "h2g_publish pg (shm s) (fst (next_history_slot pg ?vm)) ?w = Some r'" "h2g_ready pg r'"
    using h2g_publish_ready [OF pg r range] by blast
  have view: "vm_view (s0\<lparr>vms := (vms s)(key \<mapsto> snd (next_history_slot pg ?vm)), shm := r'\<rparr>) n = vm_view s n" for s0 n
    by (simp add: vm_view_def next_history_slot_def Let_def b)
  have "watermark_idle ?w = take_bit 16 (idle_of gs)"
    by (simp add: tick_message_def watermark_fields)
  with True r' range view callback_fn_eq [OF b, of pg ktime gs] show ?thesis
    by (intro exI [of _ "(tick_state ktime key vm m1 m2 s)
        \<lparr>vms := (vms s)(key \<mapsto> snd (next_history_slot pg ?vm)), shm := r'\<rparr>"]) auto
next
  case False
  with r show ?thesis by (simp add: callback_fn_skip)
qed

lemma has_buffers_cong:
  assumes "map_registry s' = map_registry s" and "\<And>n. vm_view s' n = vm_view s n"
  shows "has_buffers s' = has_buffers s"
proof
  fix n
  have "vms s'' n = None \<longleftrightarrow> vm_view s'' n = None" for s'' by (simp add: vm_view_def)
  then show "has_buffers s' n = has_buffers s n" by (simp add: has_buffers_def assms)
qed

lemma for_each_vm_publishes:
  assumes pg: "page_size_ok pg" and "h2g_ready pg (shm s)"
  shows "\<exists>s' ws. for_each_vm pg ktime gs order s = Some s' \<and>
    publish_all (h2g_publish pg) (shm s) ws = Some (shm s') \<and>
    length ws = length (filter (has_buffers s) order) \<and>
    (\<forall>(i, w) \<in> set ws. 0 < unat i \<and> unat i < NR_HOST_IVSHMEM_MSGS pg \<and>
      watermark_idle w = take_bit 16 (idle_of gs)) \<and>
    h2g_ready pg (shm s') \<and> vcpus s' = vcpus s \<and> (\<forall>n. vm_view s' n = vm_view s n)"
  using assms(2)
proof (induction order arbitrary: s)
  case Nil
  then show ?case by (auto intro!: exI [of _ "[]"])
next
  case (Cons n ns)
  obtain s1 where s1: "callback_fn pg ktime gs n s = Some s1" "h2g_ready pg (shm s1)" "vcpus s1 = vcpus s"
      "map_registry s1 = map_registry s" "\<And>n. vm_view s1 n = vm_view s n"
    and pub: "if has_buffers s n
      then \<exists>i w. h2g_publish pg (shm s) i w = Some (shm s1) \<and> 0 < unat i \<and> unat i < NR_HOST_IVSHMEM_MSGS pg \<and>
        watermark_idle w = take_bit 16 (idle_of gs)
      else shm s1 = shm s"
    using callback_fn_step [OF pg Cons.prems, of ktime gs n] by blast
  have hb: "has_buffers s1 = has_buffers s" by (rule has_buffers_cong) (use s1 in auto)
  obtain s' ws where rest: "for_each_vm pg ktime gs ns s1 = Some s'"
      "publish_all (h2g_publish pg) (shm s1) ws = Some (shm s')" "length ws = length (filter (has_buffers s) ns)"
      "\<forall>(i, w) \<in> set ws. 0 < unat i \<and> unat i < NR_HOST_IVSHMEM_MSGS pg \<and> watermark_idle w = take_bit 16 (idle_of gs)"
      "h2g_ready pg (shm s')" "vcpus s' = vcpus s1" "\<And>n. vm_view s' n = vm_view s1 n"
    using Cons.IH [OF s1(2)] unfolding hb by blast
  show ?case
  proof (cases "has_buffers s n")
    case True
    with pub obtain i w where "h2g_publish pg (shm s) i w = Some (shm s1)" "0 < unat i"
      "unat i < NR_HOST_IVSHMEM_MSGS pg" "watermark_idle w = take_bit 16 (idle_of gs)" by auto
    with True rest s1 show ?thesis by (intro exI [of _ s'] exI [of _ "(i, w) # ws"]) auto
  next
    case False
    with pub rest s1 show ?thesis by (intro exI [of _ s'] exI [of _ ws]) auto
  qed
qed

text \<open>The slots \<open>n\<close> successive calls hand out.\<close>

primrec history_slots :: "nat \<Rightarrow> nat \<Rightarrow> vm_t \<Rightarrow> u32 list" where
  "history_slots pg 0 vm = []"
| "history_slots pg (Suc n) vm = (let (i, vm') = next_history_slot pg vm in i # history_slots pg n vm')"

lemma history_slots_value:
  assumes "page_size_ok pg" and "unat (h2g_history_index vm) + n \<le> 2 ^ 32"
  shows "map unat (history_slots pg n vm) =
    map (\<lambda>k. 1 + k mod H2G_HISTORY_SLOT_COUNT pg) [unat (h2g_history_index vm)..<unat (h2g_history_index vm) + n]"
  using assms(2)
proof (induction n arbitrary: vm)
  case (Suc n)
  let ?vm = "snd (next_history_slot pg vm)"
  have idx: "h2g_history_index ?vm = h2g_history_index vm + 1"
    by (simp add: next_history_slot_def Let_def)
  have first: "unat (fst (next_history_slot pg vm)) = 1 + unat (h2g_history_index vm) mod H2G_HISTORY_SLOT_COUNT pg"
    by (rule next_history_slot_value [OF assms(1)])
  show ?case
  proof (cases "n = 0")
    case True
    then show ?thesis using first by (simp add: case_prod_beta)
  next
    case False
    then have "unat (h2g_history_index ?vm) = unat (h2g_history_index vm) + 1"
      using Suc.prems unfolding idx by (subst unat_add_one_no_wrap) auto
    then show ?thesis
      using Suc.IH [of ?vm] Suc.prems first False by (simp add: case_prod_beta upt_conv_Cons del: upt_Suc)
  qed
qed simp

lemma mod_window:
  assumes "0 < (m :: nat)"
  shows "(\<lambda>k. k mod m) ` {i..<i + m} = {..<m}" and "inj_on (\<lambda>k. k mod m) {i..<i + m}"
proof -
  show inj: "inj_on (\<lambda>k. k mod m) {i..<i + m}"
  proof (rule linorder_inj_onI)
    fix x y
    assume "x < y" "x \<in> {i..<i + m}" "y \<in> {i..<i + m}"
    then have "0 < y - x" "y - x < m" by auto
    then have "\<not> m dvd y - x" by (simp add: nat_dvd_not_less)
    then show "x mod m \<noteq> y mod m" using \<open>x < y\<close> mod_eq_dvd_iff_nat [of x y m] by auto
  qed auto
  have "card ((\<lambda>k. k mod m) ` {i..<i + m}) = m" using card_image [OF inj] by simp
  then show "(\<lambda>k. k mod m) ` {i..<i + m} = {..<m}"
    using assms by (intro card_subset_eq) auto
qed

subsection \<open>Properties\<close>

text \<open>
  C26. The average of a buffer whose first samples are in order of time is the exact
  time-weighted mean, rounded down, of the counts over the whole window from the first sample
  to the closing one, negative counts taken as 0; it lies between the smallest and the largest
  of these counts. The only condition is that the largest count times the window fits 64 bits.
\<close>

theorem phantom_average_exact:
  assumes "arr_max a < 2 ^ 32" and "in_order pc_timestamp a (unat nb)"
    and "pc_timestamp (arr_val a 0) < pc_timestamp (arr_val a (unat nb))"
    and "\<forall>k<unat nb. max 0 (sint (pc_count (arr_val a k))) \<in> {lo..hi}"
    and "hi * (uint (pc_timestamp (arr_val a (unat nb))) - uint (pc_timestamp (arr_val a 0))) < 2 ^ 64"
  shows "uint (phantom_average a nb) =
      (\<Sum>k<unat nb. max 0 (sint (pc_count (arr_val a k))) *
         (uint (pc_timestamp (arr_val a (Suc k))) - uint (pc_timestamp (arr_val a k)))) div
      (uint (pc_timestamp (arr_val a (unat nb))) - uint (pc_timestamp (arr_val a 0))) \<and>
    uint (phantom_average a nb) \<in> {lo..hi}"
proof -
  let ?n = "unat nb"
  let ?A = "weighted_area pc_count pc_timestamp a ?n" and ?T = "time_span pc_timestamp a ?n"
  have T: "?T = uint (pc_timestamp (arr_val a ?n)) - uint (pc_timestamp (arr_val a 0))"
    by (rule time_span_in_order [OF assms(2)])
  have pos: "0 < ?T" using assms(3) by (simp add: T word_less_def)
  have T64: "?T < 2 ^ 64" unfolding T by (rule uint_diff_bound)
  have up: "?A \<le> hi * ?T" and low: "lo * ?T \<le> ?A"
    using assms(4) by (auto intro!: weighted_area_le weighted_area_ge)
  have q: "uint (phantom_average a nb) = ?A div ?T"
    by (rule phantom_average_quotient) (use assms up T T64 in auto)
  have "?A div ?T \<le> hi" using up pos
    by (metis div_mult_self_is_m mult.commute zdiv_mono1 less_imp_neq nonzero_mult_div_cancel_left)
  moreover have "lo \<le> ?A div ?T" using low pos
    by (metis mult.commute nonzero_mult_div_cancel_left less_imp_neq zdiv_mono1)
  ultimately show ?thesis
    using q by (simp add: T weighted_area_in_order [OF assms(2)] seg_area_def seg_len_def)
qed

definition samples_example :: "phantom_count bpf_array" where
  "samples_example = \<lparr>arr_max = 8, arr_val = (\<lambda>k.
     if k = 0 then \<lparr>pc_count = 2, pc_timestamp = 100\<rparr>
     else if k = 1 then \<lparr>pc_count = 4, pc_timestamp = 110\<rparr>
     else \<lparr>pc_count = 0, pc_timestamp = 140\<rparr>)\<rparr>"

theorem phantom_average_exact_witness:
  "uint (phantom_average samples_example 2) = (2 * 10 + 4 * 30) div 40"
proof -
  have 1: "in_order pc_timestamp samples_example (unat (2 :: u32))"
    by (auto simp: in_order_def samples_example_def)
  have 2: "\<forall>k<unat (2 :: u32). max 0 (sint (pc_count (arr_val samples_example k))) \<in> {2..4}"
    by (auto simp: samples_example_def less_2_cases_iff)
  have 3: "{..<2 :: nat} = {0, 1}" by auto
  show ?thesis
    using phantom_average_exact [OF _ 1 _ 2] by (simp add: samples_example_def 3)
qed

text \<open>
  The history slots of a VM come in turn: the slot handed out is never the latest slot and
  always exists, and as long as the 32-bit counter does not wrap, any as many successive calls
  as there are history slots hand out each of them exactly once.
\<close>

theorem next_history_slot_cycle:
  assumes "page_size_ok pg" and "unat (h2g_history_index vm) + H2G_HISTORY_SLOT_COUNT pg \<le> 2 ^ 32"
  shows "unat (fst (next_history_slot pg vm)) \<in> {1..<NR_HOST_IVSHMEM_MSGS pg} \<and>
    unat ` set (history_slots pg (H2G_HISTORY_SLOT_COUNT pg) vm) = {1..<NR_HOST_IVSHMEM_MSGS pg} \<and>
    distinct (history_slots pg (H2G_HISTORY_SLOT_COUNT pg) vm)"
proof -
  let ?c = "H2G_HISTORY_SLOT_COUNT pg" and ?i = "unat (h2g_history_index vm)"
  note m = history_slots_value [OF assms] mod_window [OF history_slot_count(1) [OF assms(1)], of ?i]
  have "unat ` set (history_slots pg ?c vm) = Suc ` (\<lambda>k. k mod ?c) ` {?i..<?i + ?c}"
    using arg_cong [OF m(1), of set] by (simp add: image_image)
  also have "\<dots> = {1..<NR_HOST_IVSHMEM_MSGS pg}"
    using history_slot_count(2) [OF assms(1)]
    by (simp only: m(2)) (simp add: lessThan_atLeast0 image_Suc_atLeastLessThan)
  finally have "unat ` set (history_slots pg ?c vm) = {1..<NR_HOST_IVSHMEM_MSGS pg}" .
  moreover have "distinct (map unat (history_slots pg ?c vm))"
    unfolding m(1) using m(3) by (auto simp: distinct_map inj_on_def)
  then have "distinct (history_slots pg ?c vm)" by (simp add: distinct_map)
  ultimately show ?thesis using next_history_slot_range [OF assms(1), of vm] by simp
qed

theorem next_history_slot_cycle_witness:
  "\<exists>vm. unat (h2g_history_index vm) = 100 \<and>
     unat ` set (history_slots 4096 63 vm) = {1..<64}"
proof -
  let ?vm = "\<lparr>qmp_socket = [], vm_phantom_count = 0, collection_buff_1_index = 0, collection_buff_2_index = 0,
    is_collectx_in_buff_1 = 1, nb_vcpus = 1, h2g_history_index = 100\<rparr>"
  have "H2G_HISTORY_SLOT_COUNT 4096 = 63" and "NR_HOST_IVSHMEM_MSGS 4096 = 64"
    by (simp_all add: H2G_HISTORY_SLOT_COUNT_def abi_defs)
  with next_history_slot_cycle [OF page_size_ok_4096, of ?vm] show ?thesis
    by (intro exI [of _ ?vm]) simp
qed

text \<open>
  C29. A published watermark can be taken apart again: the slot it was written to and the latest
  slot both give back the low 32 bits of the time, the low 16 bits of the phantom average and
  the low 16 bits of the idle average; the other history slots are as before.
\<close>

theorem write_watermark_roundtrip:
  assumes "page_size_ok pg" and "h2g_ready pg r" and "0 < unat index" and "unat index < NR_HOST_IVSHMEM_MSGS pg"
  shows "\<exists>r'. write_watermark pg index ts p i r = Some r' \<and>
    (\<forall>j \<in> {H2G_LATEST_SLOT, unat index}. watermark_ts (h2g_slot pg r' j) = take_bit 32 ts \<and>
       watermark_phantom (h2g_slot pg r' j) = take_bit 16 p \<and> watermark_idle (h2g_slot pg r' j) = take_bit 16 i) \<and>
    (\<forall>j. 0 < j \<and> j < NR_HOST_IVSHMEM_MSGS pg \<and> j \<noteq> unat index \<longrightarrow> h2g_slot pg r' j = h2g_slot pg r j)"
proof -
  obtain r' where r': "h2g_publish pg r index (watermark ts p i) = Some r'" "h2g_slot pg r' 0 = watermark ts p i"
      "\<And>j. 0 < j \<Longrightarrow> j < NR_HOST_IVSHMEM_MSGS pg \<Longrightarrow>
        h2g_slot pg r' j = (if j = unat index then watermark ts p i else h2g_slot pg r j)"
    using h2g_publish_ready [OF assms] by blast
  with assms(3,4) show ?thesis
    by (intro exI [of _ r']) (simp add: write_watermark_publish watermark_fields H2G_LATEST_SLOT_def)
qed

theorem write_watermark_roundtrip_witness:
  "\<exists>r r'. write_watermark 4096 7 (2 ^ 32 + 5) 3 2 r = Some r' \<and> watermark_phantom (h2g_slot 4096 r' 7) = 3 \<and>
     watermark_ts (h2g_slot 4096 r' 0) = 5"
proof -
  obtain r where r: "h2g_ready 4096 r" using ready_registry_example by blast
  have "0 < unat (7 :: u32)" and "unat (7 :: u32) < NR_HOST_IVSHMEM_MSGS 4096" by (simp_all add: abi_defs)
  from write_watermark_roundtrip [OF page_size_ok_4096 r this, of "2 ^ 32 + 5" 3 2] show ?thesis
    by (auto simp: H2G_LATEST_SLOT_def)
qed

text \<open>
  C27. A tick for a VM exchanges its buffers without losing anything: the other buffer becomes
  the collecting one and begins with the current phantom count at index 0; the finished buffer
  keeps all its samples and is closed at its next free index with the same phantom count, so
  the two windows join; the count itself and all other VMs are untouched.
\<close>

theorem callback_fn_exchanges:
  assumes "page_size_ok pg" and "h2g_ready pg (shm s)"
    and b: "vms s key = Some vm" "map_registry s (collection_key CHR ''1'' key) = Some m1"
      "map_registry s (collection_key CHR ''2'' key) = Some m2"
    and "m1 \<noteq> m2" and "is_collectx_in_buff_1 vm \<in> {0, 1}"
    and "unat (collecting_index vm) < arr_max (inner_maps s (finished_map vm m1 m2))"
    and "0 < arr_max (inner_maps s (next_map vm m1 m2))"
  shows "\<exists>s' vm'. callback_fn pg ktime gs key s = Some s' \<and> vms s' key = Some vm' \<and>
    is_collectx_in_buff_1 vm' = 1 - is_collectx_in_buff_1 vm \<and> collecting_index vm' = 1 \<and>
    vm_phantom_count vm' = vm_phantom_count vm \<and> (\<forall>n. n \<noteq> key \<longrightarrow> vms s' n = vms s n) \<and>
    arr_val (inner_maps s' (next_map vm m1 m2)) 0 =
      \<lparr>pc_count = vm_phantom_count vm, pc_timestamp = ktime (Suc (ktime_calls s))\<rparr> \<and>
    arr_val (inner_maps s' (finished_map vm m1 m2)) (unat (collecting_index vm)) =
      \<lparr>pc_count = vm_phantom_count vm, pc_timestamp = ktime (ktime_calls s)\<rparr> \<and>
    (\<forall>j. j \<noteq> unat (collecting_index vm) \<longrightarrow>
      arr_val (inner_maps s' (finished_map vm m1 m2)) j = arr_val (inner_maps s (finished_map vm m1 m2)) j)"
proof -
  let ?vm = "snd (next_history_slot pg (swapped_vm vm))"
  obtain r' where "h2g_publish pg (shm s) (fst (next_history_slot pg (swapped_vm vm)))
      (tick_message ktime gs key vm m1 m2 s) = Some r'"
    using h2g_publish_ready [OF assms(1,2) next_history_slot_range [OF assms(1)]] by metis
  then have run: "callback_fn pg ktime gs key s =
      Some ((tick_state ktime key vm m1 m2 s)\<lparr>vms := (vms s)(key \<mapsto> ?vm), shm := r'\<rparr>)" (is "_ = Some ?s")
    by (simp add: callback_fn_eq [OF b])
  have vm: "is_collectx_in_buff_1 ?vm = is_collectx_in_buff_1 (swapped_vm vm)"
      "collecting_index ?vm = collecting_index (swapped_vm vm)" "vm_phantom_count ?vm = vm_phantom_count vm"
    by (simp_all add: next_history_slot_def Let_def collecting_index_def)
  have ne: "finished_map vm m1 m2 \<noteq> next_map vm m1 m2"
    using assms(6) by (auto simp: finished_map_def next_map_def)
  show ?thesis
    unfolding run
    by (intro exI [of _ ?s] exI [of _ ?vm])
      (use ne assms(8,9) in \<open>simp add: vm swapped_vm_collecting [OF assms(7)] tick_state_maps [OF assms(6)] bpf_simps\<close>)
qed

definition gs_example :: "global_runnx_tracker_state bpf_array" where
  "gs_example = \<lparr>arr_max = 1, arr_val = (\<lambda>_. \<lparr>global_runnx_count = 0, gs_buff_1_index = 0, gs_buff_2_index = 0,
     gs_is_collectx_in_buff_1 = 1, nb_cpus = 4, last_idle_avg = 2, global_runnx_avg = 2\<rparr>)\<rparr>"

lemma callback_fn_example_at:
  "\<exists>(s :: host_state) vm. shm s = r \<and> vms s (vm_key ''vm0'') = Some vm \<and>
     map_registry s (collection_key CHR ''1'' (vm_key ''vm0'')) = Some 7 \<and>
     map_registry s (collection_key CHR ''2'' (vm_key ''vm0'')) = Some 8 \<and>
     is_collectx_in_buff_1 vm = 1 \<and> vm_phantom_count vm = 1 \<and> collection_buff_1_index vm = 1 \<and>
     h2g_history_index vm = 0 \<and> ktime_calls s = 0 \<and>
     inner_maps s = (\<lambda>_. \<lparr>arr_max = 100, arr_val = (\<lambda>_. \<lparr>pc_count = 1, pc_timestamp = 5\<rparr>)\<rparr>) \<and>
     dom (vms s) = {vm_key ''vm0''}"
proof -
  have keys: "collection_key CHR ''1'' (vm_key ''vm0'') \<noteq> collection_key CHR ''2'' (vm_key ''vm0'')"
    using fill_buf_inject [of "''vm0_1''" "''vm0_2''" VM_NAME_LEN]
    by (simp add: collection_key_vm_key c_string_def VM_NAME_LEN_def)
  let ?vm = "\<lparr>qmp_socket = [], vm_phantom_count = 1, collection_buff_1_index = 1, collection_buff_2_index = 0,
    is_collectx_in_buff_1 = 1, nb_vcpus = 2, h2g_history_index = 0\<rparr>"
  let ?s = "\<lparr>vms = [vm_key ''vm0'' \<mapsto> ?vm], vcpus = (\<lambda>_. None),
    map_registry = [collection_key CHR ''1'' (vm_key ''vm0'') \<mapsto> 7, collection_key CHR ''2'' (vm_key ''vm0'') \<mapsto> 8],
    inner_maps = (\<lambda>_. \<lparr>arr_max = 100, arr_val = (\<lambda>_. \<lparr>pc_count = 1, pc_timestamp = 5\<rparr>)\<rparr>),
    ktime_calls = 0, shm = r\<rparr>"
  show ?thesis using keys by (intro exI [of _ ?s] exI [of _ ?vm]) simp
qed

lemma callback_fn_example:
  "\<exists>(s :: host_state) vm. h2g_ready 4096 (shm s) \<and> vms s (vm_key ''vm0'') = Some vm \<and>
     map_registry s (collection_key CHR ''1'' (vm_key ''vm0'')) = Some 7 \<and>
     map_registry s (collection_key CHR ''2'' (vm_key ''vm0'')) = Some 8 \<and>
     is_collectx_in_buff_1 vm = 1 \<and> vm_phantom_count vm = 1 \<and> collection_buff_1_index vm = 1 \<and>
     h2g_history_index vm = 0 \<and> ktime_calls s = 0 \<and>
     inner_maps s = (\<lambda>_. \<lparr>arr_max = 100, arr_val = (\<lambda>_. \<lparr>pc_count = 1, pc_timestamp = 5\<rparr>)\<rparr>) \<and>
     dom (vms s) = {vm_key ''vm0''}"
  using ready_registry_example callback_fn_example_at by metis

theorem callback_fn_exchanges_witness:
  "\<exists>s s'. callback_fn 4096 of_nat gs_example (vm_key ''vm0'') s = Some s' \<and>
     arr_val (inner_maps s' 8) 0 = \<lparr>pc_count = 1, pc_timestamp = 1\<rparr> \<and>
     arr_val (inner_maps s' 7) 1 = \<lparr>pc_count = 1, pc_timestamp = 0\<rparr>"
proof -
  obtain s :: host_state and vm where s: "h2g_ready 4096 (shm s)" and b: "vms s (vm_key ''vm0'') = Some vm"
    "map_registry s (collection_key CHR ''1'' (vm_key ''vm0'')) = Some 7"
    "map_registry s (collection_key CHR ''2'' (vm_key ''vm0'')) = Some 8"
    and f: "is_collectx_in_buff_1 vm = 1" "vm_phantom_count vm = 1" "collection_buff_1_index vm = 1" "ktime_calls s = 0"
    "inner_maps s = (\<lambda>_. \<lparr>arr_max = 100, arr_val = (\<lambda>_. \<lparr>pc_count = 1, pc_timestamp = 5\<rparr>)\<rparr>)"
    using callback_fn_example by blast
  have m: "finished_map vm 7 8 = 7" "next_map vm 7 8 = 8" "collecting_index vm = 1"
    by (simp_all add: finished_map_def next_map_def collecting_index_def f)
  have "\<exists>s' vm'. callback_fn 4096 of_nat gs_example (vm_key ''vm0'') s = Some s' \<and>
     arr_val (inner_maps s' (next_map vm 7 8)) 0 =
       \<lparr>pc_count = vm_phantom_count vm, pc_timestamp = of_nat (Suc (ktime_calls s))\<rparr> \<and>
     arr_val (inner_maps s' (finished_map vm 7 8)) (unat (collecting_index vm)) =
       \<lparr>pc_count = vm_phantom_count vm, pc_timestamp = of_nat (ktime_calls s)\<rparr>"
    using callback_fn_exchanges [OF page_size_ok_4096 s b, of of_nat gs_example]
    by (auto simp: m f)
  then show ?thesis by (simp add: m f) blast
qed

text \<open>
  The samples of the finished buffer are a window that is complete and in order, up to now.
\<close>

definition window_ok :: "(nat \<Rightarrow> u64) \<Rightarrow> host_state \<Rightarrow> vm_t \<Rightarrow> phantom_count bpf_array \<Rightarrow> bool" where
  "window_ok ktime s vm a \<longleftrightarrow>
     (let n = unat (collecting_index vm) in
      arr_max a < 2 ^ 32 \<and> 0 < n \<and> n < arr_max a \<and>
      (\<forall>k. Suc k < n \<longrightarrow> pc_timestamp (arr_val a k) \<le> pc_timestamp (arr_val a (Suc k))) \<and>
      pc_timestamp (arr_val a (n - 1)) \<le> ktime (ktime_calls s))"

lemma window_closed:
  assumes "window_ok ktime s vm a" and "a' = snd (array_update a (collecting_index vm)
      \<lparr>pc_count = c, pc_timestamp = ktime (ktime_calls s)\<rparr>)" and "n = unat (collecting_index vm)"
  shows "arr_max a' < 2 ^ 32" and "in_order pc_timestamp a' n" and "arr_val a' 0 = arr_val a 0"
    and "pc_timestamp (arr_val a' n) = ktime (ktime_calls s)" and "\<And>k. k < n \<Longrightarrow> arr_val a' k = arr_val a k"
proof -
  note w = assms(1) [unfolded window_ok_def Let_def]
  have v: "arr_val a' j = (if j = n then \<lparr>pc_count = c, pc_timestamp = ktime (ktime_calls s)\<rparr> else arr_val a j)" for j
    using w by (auto simp: assms(2,3) bpf_simps)
  show "arr_max a' < 2 ^ 32" using w by (simp add: assms(2) bpf_simps)
  show "arr_val a' 0 = arr_val a 0" and "pc_timestamp (arr_val a' n) = ktime (ktime_calls s)"
    and "\<And>k. k < n \<Longrightarrow> arr_val a' k = arr_val a k"
    using w by (auto simp: v assms(3))
  show "in_order pc_timestamp a' n"
    unfolding in_order_def
  proof (intro conjI allI impI)
    show "n < arr_max a'" using w by (simp add: assms(2,3) bpf_simps)
    fix k
    assume "k < n"
    then show "pc_timestamp (arr_val a' k) \<le> pc_timestamp (arr_val a' (Suc k))"
    proof (cases "Suc k = n")
      case True
      then have "unat (collecting_index vm) - 1 = k" by (simp add: assms(3))
      with w True \<open>k < n\<close> show ?thesis by (simp add: v)
    next
      case False
      with w \<open>k < n\<close> show ?thesis by (simp add: v assms(3))
    qed
  qed
qed

text \<open>The latest slot after a tick.\<close>

lemma tick_publishes_mean:
  assumes pg: "page_size_ok pg" and r: "h2g_ready pg (shm s)"
    and b: "vms s key = Some vm" "map_registry s (collection_key CHR ''1'' key) = Some m1"
      "map_registry s (collection_key CHR ''2'' key) = Some m2"
    and ne: "m1 \<noteq> m2" and win: "window_ok ktime s vm (inner_maps s (finished_map vm m1 m2))"
    and a: "a = inner_maps s (finished_map vm m1 m2)" and n: "n = unat (collecting_index vm)"
    and hi: "\<forall>k<n. max 0 (sint (pc_count (arr_val a k))) \<in> {0..hi}"
    and T: "T = uint (ktime (ktime_calls s)) - uint (pc_timestamp (arr_val a 0))" "0 < T" "hi * T < 2 ^ 64"
  shows "\<exists>s' a'. callback_fn pg ktime gs key s = Some s' \<and> a' = inner_maps s' (finished_map vm m1 m2) \<and>
    watermark_ts (h2g_slot pg (shm s') H2G_LATEST_SLOT) = take_bit 32 (ktime (Suc (Suc (ktime_calls s)))) \<and>
    watermark_idle (h2g_slot pg (shm s') H2G_LATEST_SLOT) = take_bit 16 (idle_of gs) \<and>
    uint (watermark_phantom (h2g_slot pg (shm s') H2G_LATEST_SLOT)) =
      (weighted_area pc_count pc_timestamp a' n div T) mod 2 ^ 16 \<and>
    weighted_area pc_count pc_timestamp a' n div T \<le> hi"
proof -
  let ?i = "fst (next_history_slot pg (swapped_vm vm))" and ?w = "tick_message ktime gs key vm m1 m2 s"
  define a' where "a' = snd (array_update a (collecting_index vm)
      \<lparr>pc_count = vm_phantom_count vm, pc_timestamp = ktime (ktime_calls s)\<rparr>)"
  obtain r' where pub: "h2g_publish pg (shm s) ?i ?w = Some r'" "h2g_slot pg r' 0 = ?w"
    using h2g_publish_ready [OF pg r next_history_slot_range [OF pg]] by metis
  note c = window_closed [OF win [folded a] a'_def n]
  let ?A = "weighted_area pc_count pc_timestamp a' n"
  have span: "time_span pc_timestamp a' n = T"
    using time_span_in_order [OF c(2)] by (simp add: c(3,4) T(1))
  have up: "?A \<le> hi * T"
    using weighted_area_le [of n pc_count a' hi pc_timestamp] hi c(5) span by simp
  have "T < 2 ^ 64" unfolding T(1) by (rule uint_diff_bound)
  then have avg: "uint (phantom_average a' (collecting_index vm)) = ?A div T"
    using phantom_average_quotient [OF c(1), of "collecting_index vm"] up T(3) span n by simp
  have fin: "inner_maps (tick_state ktime key vm m1 m2 s) (finished_map vm m1 m2) = a'"
    by (simp add: tick_state_maps [OF ne] a'_def a)
  have "uint (watermark_phantom ?w) = (?A div T) mod 2 ^ 16"
    by (simp add: tick_message_def watermark_fields fin unsigned_take_bit_eq avg) (simp add: take_bit_eq_mod)
  moreover have "?A div T \<le> hi"
    using zdiv_mono1 [OF up T(2)] T(2) by simp
  moreover have "callback_fn pg ktime gs key s = Some ((tick_state ktime key vm m1 m2 s)
      \<lparr>vms := (vms s)(key \<mapsto> snd (next_history_slot pg (swapped_vm vm))), shm := r'\<rparr>)"
    using pub by (simp add: callback_fn_eq [OF b])
  moreover have "watermark_ts ?w = take_bit 32 (ktime (Suc (Suc (ktime_calls s))))"
    "watermark_idle ?w = take_bit 16 (idle_of gs)"
    by (simp_all add: tick_message_def watermark_fields)
  ultimately show ?thesis
    using pub(2) fin by (simp add: H2G_LATEST_SLOT_def)
qed

text \<open>
  C5. What the guest reads after a tick: the latest slot holds the time of the tick, the
  published idle average and the low 16 bits of the exact time-weighted mean of the phantom
  count from the first sample of the finished buffer up to the tick, for a complete and ordered
  window in which the count times the elapsed time fits 64 bits.
\<close>

theorem callback_fn_publishes_mean:
  assumes pg: "page_size_ok pg" and r: "h2g_ready pg (shm s)"
    and b: "vms s key = Some vm" "map_registry s (collection_key CHR ''1'' key) = Some m1"
      "map_registry s (collection_key CHR ''2'' key) = Some m2"
    and ne: "m1 \<noteq> m2" and win: "window_ok ktime s vm (inner_maps s (finished_map vm m1 m2))"
    and a: "a = inner_maps s (finished_map vm m1 m2)" and n: "n = unat (collecting_index vm)"
    and hi: "\<forall>k<n. max 0 (sint (pc_count (arr_val a k))) \<in> {0..hi}"
    and T: "T = uint (ktime (ktime_calls s)) - uint (pc_timestamp (arr_val a 0))" "0 < T" "hi * T < 2 ^ 64"
  shows "\<exists>s' a'. callback_fn pg ktime gs key s = Some s' \<and> a' = inner_maps s' (finished_map vm m1 m2) \<and>
    watermark_ts (h2g_slot pg (shm s') H2G_LATEST_SLOT) = take_bit 32 (ktime (Suc (Suc (ktime_calls s)))) \<and>
    watermark_idle (h2g_slot pg (shm s') H2G_LATEST_SLOT) = take_bit 16 (idle_of gs) \<and>
    uint (watermark_phantom (h2g_slot pg (shm s') H2G_LATEST_SLOT)) =
      (weighted_area pc_count pc_timestamp a' n div T) mod 2 ^ 16 \<and>
    weighted_area pc_count pc_timestamp a' n div T \<le> hi"
  by (rule tick_publishes_mean [OF assms])

theorem callback_fn_publishes_mean_witness:
  "\<exists>s s'. callback_fn 4096 (\<lambda>k. 45 + of_nat k) gs_example (vm_key ''vm0'') s = Some s' \<and>
     watermark_ts (h2g_slot 4096 (shm s') H2G_LATEST_SLOT) = 47"
proof -
  obtain s :: host_state and vm where s: "h2g_ready 4096 (shm s)" and b: "vms s (vm_key ''vm0'') = Some vm"
    "map_registry s (collection_key CHR ''1'' (vm_key ''vm0'')) = Some 7"
    "map_registry s (collection_key CHR ''2'' (vm_key ''vm0'')) = Some 8"
    and f: "is_collectx_in_buff_1 vm = 1" "vm_phantom_count vm = 1" "collection_buff_1_index vm = 1" "ktime_calls s = 0"
    "inner_maps s = (\<lambda>_. \<lparr>arr_max = 100, arr_val = (\<lambda>_. \<lparr>pc_count = 1, pc_timestamp = 5\<rparr>)\<rparr>)"
    using callback_fn_example by blast
  have ne: "(7 :: nat) \<noteq> 8" by simp
  have win: "window_ok (\<lambda>k. 45 + of_nat k) s vm (inner_maps s (finished_map vm 7 8))"
    by (simp add: window_ok_def collecting_index_def f)
  have hi: "\<forall>k<unat (collecting_index vm).
      max 0 (sint (pc_count (arr_val (inner_maps s (finished_map vm 7 8)) k))) \<in> {0..1}"
    by (simp add: f)
  from callback_fn_publishes_mean [OF page_size_ok_4096 s b ne win refl refl hi refl, of gs_example]
  show ?thesis by (auto simp: f)
qed

subsection \<open>One tick for all VMs\<close>

text \<open>
  Entry and buffers of a VM; VMs do not share buffers. \<open>closed_buffer\<close> is the finished
  buffer of a VM with the closing sample, taken at clock reading \<open>c\<close>.
\<close>

definition vm_entry :: "host_state \<Rightarrow> string \<Rightarrow> (vm_t \<times> nat \<times> nat) option" where
  "vm_entry s n = (case vms s n of None \<Rightarrow> None | Some vm \<Rightarrow>
     (case map_registry s (collection_key CHR ''1'' n) of None \<Rightarrow> None | Some m1 \<Rightarrow>
     (case map_registry s (collection_key CHR ''2'' n) of None \<Rightarrow> None | Some m2 \<Rightarrow> Some (vm, m1, m2))))"

definition buffers_apart :: "host_state \<Rightarrow> bool" where
  "buffers_apart s \<longleftrightarrow> (\<forall>n vm m1 m2. vm_entry s n = Some (vm, m1, m2) \<longrightarrow> m1 \<noteq> m2 \<and>
     (\<forall>n' vm' m1' m2'. vm_entry s n' = Some (vm', m1', m2') \<and> n' \<noteq> n \<longrightarrow> {m1, m2} \<inter> {m1', m2'} = {}))"

definition closed_buffer :: "(nat \<Rightarrow> u64) \<Rightarrow> nat \<Rightarrow> host_state \<Rightarrow> vm_t \<Rightarrow> nat \<Rightarrow> nat \<Rightarrow> phantom_count bpf_array" where
  "closed_buffer ktime c s vm m1 m2 =
     snd (array_update (inner_maps s (if is_collectx_in_buff_1 vm = 1 then m1 else m2)) (collecting_index vm)
       \<lparr>pc_count = vm_phantom_count vm, pc_timestamp = ktime c\<rparr>)"

lemma has_buffers_entry: "has_buffers s n \<longleftrightarrow> vm_entry s n \<noteq> None"
  by (auto simp: has_buffers_def vm_entry_def split: option.splits)

lemma vm_entryD:
  assumes "vm_entry s n = Some (vm, m1, m2)"
  shows "vms s n = Some vm" and "map_registry s (collection_key CHR ''1'' n) = Some m1"
    and "map_registry s (collection_key CHR ''2'' n) = Some m2"
  using assms by (auto simp: vm_entry_def split: option.splits)

text \<open>
  What one VM is given, as the map of its name to a slot and a message, and its entry afterwards:
  the specification of a tick, from the state \<open>s\<close> before the tick and the number \<open>c\<close> of
  clock readings so far.
\<close>

definition vm_write :: "nat \<Rightarrow> (nat \<Rightarrow> u64) \<Rightarrow> global_runnx_tracker_state bpf_array \<Rightarrow> host_state \<Rightarrow> nat \<Rightarrow>
    vm_t \<times> nat \<times> nat \<Rightarrow> u32 \<times> u64" where
  "vm_write pg ktime gs s c e = (case e of (vm, m1, m2) \<Rightarrow>
     (fst (next_history_slot pg vm),
      watermark (ktime (c + 2)) (phantom_average (closed_buffer ktime c s vm m1 m2) (collecting_index vm)) (idle_of gs)))"

primrec vm_writes :: "nat \<Rightarrow> (nat \<Rightarrow> u64) \<Rightarrow> global_runnx_tracker_state bpf_array \<Rightarrow> host_state \<Rightarrow> nat \<Rightarrow>
    string list \<Rightarrow> (u32 \<times> u64) list" where
  "vm_writes pg ktime gs s c [] = []"
| "vm_writes pg ktime gs s c (n # ns) = (case vm_entry s n of None \<Rightarrow> vm_writes pg ktime gs s c ns
     | Some e \<Rightarrow> vm_write pg ktime gs s c e # vm_writes pg ktime gs s (c + 3) ns)"

definition ticked_vm :: "vm_t \<Rightarrow> vm_t" where
  "ticked_vm vm = (swapped_vm vm)\<lparr>h2g_history_index := h2g_history_index vm + 1\<rparr>"

lemma vm_writes_length: "length (vm_writes pg ktime gs s c ns) = length (filter (has_buffers s) ns)"
proof (induction ns arbitrary: c)
  case (Cons n ns)
  then show ?case by (cases "vm_entry s n") (simp_all add: has_buffers_entry [of s n])
qed simp

lemma vm_writes_nth:
  assumes "k < length (filter (has_buffers s) ns)" and "vm_entry s (filter (has_buffers s) ns ! k) = Some e"
  shows "vm_writes pg ktime gs s c ns ! k = vm_write pg ktime gs s (c + 3 * k) e"
  using assms
proof (induction ns arbitrary: c k)
  case (Cons n ns)
  show ?case
  proof (cases "vm_entry s n")
    case None
    with Cons show ?thesis by (simp add: has_buffers_entry [of s n])
  next
    case (Some e')
    then have "has_buffers s n" by (simp add: has_buffers_entry)
    with Some Cons.prems Cons.IH [of "k - 1" "c + 3"] show ?thesis
      by (cases k) (simp_all add: add.assoc)
  qed
qed simp

lemma next_history_slot_swapped: "fst (next_history_slot pg (swapped_vm vm)) = fst (next_history_slot pg vm)"
  "snd (next_history_slot pg (swapped_vm vm)) = ticked_vm vm"
  by (simp_all add: next_history_slot_def ticked_vm_def Let_def)

text \<open>A tick for one VM, seen from the other VMs: their entries and buffers stay.\<close>

lemma callback_fn_one:
  assumes pg: "page_size_ok pg" and r: "h2g_ready pg (shm s)" and e: "vm_entry s n = Some (vm, m1, m2)" and ne: "m1 \<noteq> m2"
  shows "\<exists>s'. callback_fn pg ktime gs n s = Some s' \<and> h2g_ready pg (shm s') \<and>
    publish_all (h2g_publish pg) (shm s) [vm_write pg ktime gs s (ktime_calls s) (vm, m1, m2)] = Some (shm s') \<and>
    vms s' = (vms s)(n \<mapsto> ticked_vm vm) \<and> map_registry s' = map_registry s \<and> vcpus s' = vcpus s \<and>
    ktime_calls s' = ktime_calls s + 3 \<and> (\<forall>m. m \<notin> {m1, m2} \<longrightarrow> inner_maps s' m = inner_maps s m)"
proof -
  note b = vm_entryD [OF e]
  let ?i = "fst (next_history_slot pg vm)" and ?w = "tick_message ktime gs n vm m1 m2 s"
  obtain r' where r': "h2g_publish pg (shm s) ?i ?w = Some r'" "h2g_ready pg r'"
    using h2g_publish_ready [OF pg r next_history_slot_range [OF pg]] by metis
  have run: "callback_fn pg ktime gs n s = Some ((tick_state ktime n vm m1 m2 s)\<lparr>vms := (vms s)(n \<mapsto> ticked_vm vm), shm := r'\<rparr>)"
    using r' by (simp add: callback_fn_eq [OF b] next_history_slot_swapped)
  have "inner_maps (tick_state ktime n vm m1 m2 s) (finished_map vm m1 m2) = closed_buffer ktime (ktime_calls s) s vm m1 m2"
    using ne by (simp add: tick_state_maps closed_buffer_def finished_map_def)
  then have "vm_write pg ktime gs s (ktime_calls s) (vm, m1, m2) = (?i, ?w)"
    by (simp add: vm_write_def tick_message_def)
  moreover have "ktime_calls (tick_state ktime n vm m1 m2 s) = ktime_calls s + 3" by (simp add: tick_state_def)
  ultimately show ?thesis
    using r' run ne by (auto simp: tick_state_maps finished_map_def next_map_def)
qed

lemma vm_writes_cong:
  assumes "\<forall>n \<in> set ns. vm_entry s' n = vm_entry s n \<and>
    (\<forall>vm m1 m2. vm_entry s n = Some (vm, m1, m2) \<longrightarrow> inner_maps s' m1 = inner_maps s m1 \<and> inner_maps s' m2 = inner_maps s m2)"
  shows "vm_writes pg ktime gs s' c ns = vm_writes pg ktime gs s c ns"
  using assms
  by (induction ns arbitrary: c) (auto simp: vm_write_def closed_buffer_def split: option.split)

lemma for_each_vm_writes:
  assumes pg: "page_size_ok pg" and "h2g_ready pg (shm s)" and "buffers_apart s" and "distinct order"
  shows "\<exists>s'. for_each_vm pg ktime gs order s = Some s' \<and> h2g_ready pg (shm s') \<and>
    publish_all (h2g_publish pg) (shm s) (vm_writes pg ktime gs s (ktime_calls s) order) = Some (shm s') \<and>
    vcpus s' = vcpus s \<and>
    (\<forall>n. vms s' n = (if n \<in> set order \<and> has_buffers s n then map_option ticked_vm (vms s n) else vms s n))"
  using assms(2-4)
proof (induction order arbitrary: s)
  case (Cons n ns)
  show ?case
  proof (cases "vm_entry s n")
    case None
    with Cons show ?thesis by (fastforce simp: has_buffers_entry callback_fn_skip)
  next
    case (Some e)
    obtain vm m1 m2 where e: "vm_entry s n = Some (vm, m1, m2)" using Some by (cases e) auto
    have ne: "m1 \<noteq> m2" and apart: "\<And>n' vm' m1' m2'. vm_entry s n' = Some (vm', m1', m2') \<Longrightarrow> n' \<noteq> n \<Longrightarrow> {m1, m2} \<inter> {m1', m2'} = {}"
      using Cons.prems(2) e unfolding buffers_apart_def by blast+
    obtain s1 where s1: "callback_fn pg ktime gs n s = Some s1" "h2g_ready pg (shm s1)"
        "publish_all (h2g_publish pg) (shm s) [vm_write pg ktime gs s (ktime_calls s) (vm, m1, m2)] = Some (shm s1)"
        "vms s1 = (vms s)(n \<mapsto> ticked_vm vm)" "map_registry s1 = map_registry s" "vcpus s1 = vcpus s"
        "ktime_calls s1 = ktime_calls s + 3" "\<forall>m. m \<notin> {m1, m2} \<longrightarrow> inner_maps s1 m = inner_maps s m"
      using callback_fn_one [OF pg Cons.prems(1) e ne] by blast
    have ent: "vm_entry s1 n' = (if n' = n then Some (ticked_vm vm, m1, m2) else vm_entry s n')" for n'
      using vm_entryD [OF e] by (auto simp: vm_entry_def s1(4,5) split: option.split)
    have "buffers_apart s1"
      using Cons.prems(2) e unfolding buffers_apart_def ent by (auto split: if_splits) metis+
    from Cons.IH [OF s1(2) this] Cons.prems(3) obtain s' where s': "for_each_vm pg ktime gs ns s1 = Some s'"
        "h2g_ready pg (shm s')"
        "publish_all (h2g_publish pg) (shm s1) (vm_writes pg ktime gs s1 (ktime_calls s1) ns) = Some (shm s')"
        "vcpus s' = vcpus s1"
        "\<forall>m. vms s' m = (if m \<in> set ns \<and> has_buffers s1 m then map_option ticked_vm (vms s1 m) else vms s1 m)"
      by auto
    have "vm_writes pg ktime gs s1 c ns = vm_writes pg ktime gs s c ns" for c
      by (rule vm_writes_cong) (use Cons.prems(3) apart s1(8) in \<open>auto simp: ent\<close>)
    then have pub: "publish_all (h2g_publish pg) (shm s) (vm_writes pg ktime gs s (ktime_calls s) (n # ns)) = Some (shm s')"
      using s1(3,7) s'(3) by (cases "vm_write pg ktime gs s (ktime_calls s) (vm, m1, m2)")
        (auto simp: e Option.bind_eq_Some_conv)
    have "vms s' m = (if m \<in> set (n # ns) \<and> has_buffers s m then map_option ticked_vm (vms s m) else vms s m)" for m
      using s'(5) Cons.prems(3) by (auto simp: has_buffers_entry ent s1(4) vm_entryD(1) [OF e] e)
    with s' s1 pub show ?thesis by simp
  qed
qed simp

text \<open>The messages of a tick, VM by VM, and the entry of a VM after it.\<close>

lemma vm_write_fields:
  assumes "page_size_ok pg" and "x = vm_write pg ktime gs s c (vm, m1, m2)"
  shows "unat (fst x) = 1 + unat (h2g_history_index vm) mod H2G_HISTORY_SLOT_COUNT pg \<and>
    watermark_ts (snd x) = take_bit 32 (ktime (c + 2)) \<and>
    watermark_phantom (snd x) = take_bit 16 (phantom_average (closed_buffer ktime c s vm m1 m2) (collecting_index vm)) \<and>
    watermark_idle (snd x) = take_bit 16 (idle_of gs)"
  using next_history_slot_value [OF assms(1), of vm] by (simp add: assms(2) vm_write_def watermark_fields)

lemma vm_writes_valid:
  assumes "page_size_ok pg"
  shows "h2g.valid_slots pg (vm_writes pg ktime gs s c ns)"
  unfolding h2g.valid_slots_def
proof (induction ns arbitrary: c)
  case (Cons n ns)
  show ?case
  proof (cases "vm_entry s n")
    case (Some e)
    obtain vm m1 m2 where "e = (vm, m1, m2)" by (cases e)
    with Some Cons [of "c + 3"] next_history_slot_range [OF assms, of vm] show ?thesis by (simp add: vm_write_def)
  qed (use Cons in simp)
qed simp

lemma ticked_vm_fields:
  "h2g_history_index (ticked_vm vm) = h2g_history_index vm + 1 \<and> vm_phantom_count (ticked_vm vm) = vm_phantom_count vm \<and>
   nb_vcpus (ticked_vm vm) = nb_vcpus vm \<and>
   (is_collectx_in_buff_1 vm \<in> {0, 1} \<longrightarrow>
     is_collectx_in_buff_1 (ticked_vm vm) = 1 - is_collectx_in_buff_1 vm \<and> collecting_index (ticked_vm vm) = 1)"
proof -
  have "collecting_index (ticked_vm vm) = collecting_index (swapped_vm vm)"
    by (simp add: ticked_vm_def collecting_index_def)
  then show ?thesis using swapped_vm_collecting [of vm] by (simp add: ticked_vm_def)
qed

text \<open>
  C28. A timer tick serves every VM it visits, whatever the order. Of the VMs visited that have
  both buffers, the \<open>k\<close>-th has its buffers exchanged and its history index advanced by one,
  and keeps its phantom count; its watermark carries the time of its own turn, the average of
  its own finished buffer, closed with its phantom count, and the idle average, and it goes to
  the history slot its own index names. The watermarks are all written to the page of the first
  VM: every history slot ends with the last one addressed to it, the latest slot with that of the
  last VM visited. No other VM changes and phantom counts and flags stay. The tick counter goes up
  by one, and the timer is armed again unless \<open>bpf_timer_start\<close> refuses. Each VM is visited
  once and no two VMs share a buffer.
\<close>

theorem timer_cb_publishes:
  assumes "page_size_ok pg" and "h2g_ready pg (shm s)" and "buffers_apart s" and "distinct order"
    and vs: "vs = filter (has_buffers s) order"
  shows "\<exists>val' s' ws. timer_cb pg ktime gs ret order val s = Some (val', s') \<and>
    te_armed val' = (if ret = None then Some 4000000 else None) \<and> te_counter val' = te_counter val + 1 \<and>
    length ws = length vs \<and>
    (\<forall>k vm m1 m2. k < length vs \<and> vm_entry s (vs ! k) = Some (vm, m1, m2) \<longrightarrow>
      unat (fst (ws ! k)) = 1 + unat (h2g_history_index vm) mod H2G_HISTORY_SLOT_COUNT pg \<and>
      watermark_ts (snd (ws ! k)) = take_bit 32 (ktime (ktime_calls s + 3 * k + 2)) \<and>
      watermark_phantom (snd (ws ! k)) = take_bit 16
        (phantom_average (closed_buffer ktime (ktime_calls s + 3 * k) s vm m1 m2) (collecting_index vm)) \<and>
      watermark_idle (snd (ws ! k)) = take_bit 16 (idle_of gs) \<and>
      (\<exists>vm'. vms s' (vs ! k) = Some vm' \<and> h2g_history_index vm' = h2g_history_index vm + 1 \<and>
        vm_phantom_count vm' = vm_phantom_count vm \<and>
        (is_collectx_in_buff_1 vm \<in> {0, 1} \<longrightarrow>
          is_collectx_in_buff_1 vm' = 1 - is_collectx_in_buff_1 vm \<and> collecting_index vm' = 1))) \<and>
    (\<forall>n. n \<notin> set vs \<longrightarrow> vms s' n = vms s n) \<and> vcpus s' = vcpus s \<and>
    h2g_slot pg (shm s') 0 = (if ws = [] then h2g_slot pg (shm s) 0 else snd (last ws)) \<and>
    (\<forall>j. 0 < j \<and> j < NR_HOST_IVSHMEM_MSGS pg \<longrightarrow>
      h2g_slot pg (shm s') j = last_write j ws (h2g_slot pg (shm s) j)) \<and>
    (count_inv s' \<longleftrightarrow> count_inv s)"
proof -
  define ws where "ws = vm_writes pg ktime gs s (ktime_calls s) order"
  obtain s' where run: "for_each_vm pg ktime gs order s = Some s'"
    and pub: "publish_all (h2g_publish pg) (shm s) ws = Some (shm s')" and v: "vcpus s' = vcpus s"
    and vms: "\<And>n. vms s' n = (if n \<in> set order \<and> has_buffers s n then map_option ticked_vm (vms s n) else vms s n)"
    using for_each_vm_writes [OF assms(1-4), of ktime gs] unfolding ws_def by blast
  have nth: "ws ! k = vm_write pg ktime gs s (ktime_calls s + 3 * k) e"
    if "k < length vs" "vm_entry s (vs ! k) = Some e" for k e
    using that unfolding ws_def vs by (rule vm_writes_nth)
  have len: "length ws = length vs" by (simp add: ws_def vs vm_writes_length)
  have "h2g.valid_slots pg ws" unfolding ws_def by (rule vm_writes_valid [OF assms(1)])
  note slots = h2g.publish_all_slots [OF conjI [OF assms(1,2)] pub this]
  have "vm_view s' n = vm_view s n" for n
    using ticked_vm_fields by (cases "vms s n") (simp_all add: vm_view_def vms)
  then have inv: "count_inv s' \<longleftrightarrow> count_inv s" using v by (intro count_inv_cong) auto
  note each = vm_write_fields [OF assms(1) nth]
  have after: "vms s' (vs ! k) = Some (ticked_vm vm)"
    if "k < length vs" "vm_entry s (vs ! k) = Some (vm, m1, m2)" for k vm m1 m2
    using nth_mem [OF that(1)] vm_entryD(1) [OF that(2)] by (auto simp: vs vms)
  define val' where "val' = val\<lparr>te_counter := te_counter val + 1, te_armed := if ret = None then Some 4000000 else None\<rparr>"
  have cb: "timer_cb pg ktime gs ret order val s = Some (val', s')"
    by (simp add: timer_cb_def run bpf_timer_start_def val'_def)
  show ?thesis
    by (rule exI [of _ val'], rule exI [of _ s'], rule exI [of _ ws])
      (use cb len each after ticked_vm_fields slots inv v in \<open>auto simp: val'_def vms vs\<close>)
qed

theorem timer_cb_publishes_witness:
  "\<exists>s val' s'. timer_cb 4096 of_nat gs_example None [vm_key ''vm0'']
       \<lparr>te_armed = None, te_callback = True, te_counter = 3, te_started = 1\<rparr> s = Some (val', s') \<and>
     te_armed val' = Some 4000000 \<and> te_counter val' = 4 \<and> watermark_ts (h2g_slot 4096 (shm s') 0) = 2"
proof -
  let ?n = "vm_key ''vm0''" and ?val = "\<lparr>te_armed = None, te_callback = True, te_counter = 3, te_started = 1\<rparr>"
  obtain s :: host_state and vm where s: "h2g_ready 4096 (shm s)" and b: "vms s ?n = Some vm"
    "map_registry s (collection_key CHR ''1'' ?n) = Some 7" "map_registry s (collection_key CHR ''2'' ?n) = Some 8"
    and f: "ktime_calls s = 0" "dom (vms s) = {?n}"
    using callback_fn_example by blast
  have e: "vm_entry s n = (if n = ?n then Some (vm, 7, 8) else None)" for n
    using b f(2) by (auto simp: vm_entry_def split: option.split)
  then have hb: "has_buffers s ?n" by (simp add: has_buffers_entry)
  have apart: "buffers_apart s" by (simp add: buffers_apart_def e)
  have vs: "[?n] = filter (has_buffers s) [?n]" using hb by simp
  obtain val' s' and ws :: "(u32 \<times> u64) list" where r: "timer_cb 4096 of_nat gs_example None [?n] ?val s = Some (val', s')"
    "te_armed val' = Some 4000000" "te_counter val' = 4" "length ws = Suc 0" "watermark_ts (snd (ws ! 0)) = 2"
    "h2g_slot 4096 (shm s') 0 = (if ws = [] then h2g_slot 4096 (shm s) 0 else snd (last ws))"
    using timer_cb_publishes [OF page_size_ok_4096 s apart _ vs, of of_nat gs_example None ?val, simplified e f(1), simplified]
    by meson
  moreover have "last ws = ws ! 0" "ws \<noteq> []" using r(4) by (auto simp: length_Suc_conv)
  ultimately show ?thesis by (intro exI [of _ s] exI [of _ val'] exI [of _ s']) simp
qed

interpretation pt: retrying_timer phantom_timer_handler te_armed te_callback te_started MSG_TIMER_PERIOD_NS
  by unfold_locales (simp_all add: phantom_timer_handler_def Let_def)

text \<open>
  C30. Starting the timer, whatever the calls of the kernel answer. However often context switches
  call the program, as long as \<open>bpf_timer_init\<close> fails the timer stays off and every call tries
  again; the first call whose initialisation succeeds is the last that does anything, and the
  timer ends up armed exactly if \<open>bpf_timer_start\<close> succeeded in that call, and with its
  callback exactly if \<open>bpf_timer_set_callback\<close> did. So a failure of one of these two, whose
  answers the program drops, is never retried.
\<close>

theorem phantom_timer_handler_retries:
  assumes "te_started e = 0" and "te_armed e = None" and "\<not> te_callback e"
  shows "case find (\<lambda>ans. init_ret ans = None) anss of
      None \<Rightarrow> te_started (fold phantom_timer_handler anss e) = 0 \<and>
        te_armed (fold phantom_timer_handler anss e) = None \<and> \<not> te_callback (fold phantom_timer_handler anss e)
    | Some ans \<Rightarrow> te_started (fold phantom_timer_handler anss e) \<noteq> 0 \<and>
        te_armed (fold phantom_timer_handler anss e) = (if start_ret ans = None then Some MSG_TIMER_PERIOD_NS else None) \<and>
        (te_callback (fold phantom_timer_handler anss e) \<longleftrightarrow> callback_ret ans = None)"
  using assms by (rule pt.fold_start)

theorem phantom_timer_handler_retries_witness:
  "te_armed (fold phantom_timer_handler [\<lparr>init_ret = Some ENOMEM, callback_ret = None, start_ret = None\<rparr>,
       \<lparr>init_ret = None, callback_ret = None, start_ret = Some EINVAL\<rparr>, \<lparr>init_ret = None, callback_ret = None, start_ret = None\<rparr>]
     \<lparr>te_armed = None, te_callback = False, te_counter = 0, te_started = 0\<rparr>) = None"
  using phantom_timer_handler_retries [of "\<lparr>te_armed = None, te_callback = False, te_counter = 0, te_started = 0\<rparr>"
      "[\<lparr>init_ret = Some ENOMEM, callback_ret = None, start_ret = None\<rparr>,
        \<lparr>init_ret = None, callback_ret = None, start_ret = Some EINVAL\<rparr>, \<lparr>init_ret = None, callback_ret = None, start_ret = None\<rparr>]"]
  by (simp del: fold_simps)

end
