(* ===== verification/Switch_Race.thy ===== *)
theory Switch_Race
  imports Cas_Counter Phantom_Timer
begin

text \<open>
  The context-switch handler on several CPUs at once, \<^verbatim>\<open>create_maps.bpf.c\<close>. Where
  \<open>Phantom_Switch\<close> runs the handler to its end for one switch, here each access to shared
  memory is a step of its own: looking up the vCPU and reading its run state, the
  compare-and-swap on its flag, each read and each compare-and-swap of the counter loops, the
  choice of the buffer, the reservation of an index, and the store of the sample. Between two steps of one CPU the other
  CPUs, the guests and the timer may do anything they do.
\<close>

subsection \<open>One CPU\<close>

text \<open>
  The two halves of the handler are the same up to the direction in which they move the flag
  and the counter, so a position names its half by the counter operation: \<open>Dec\<close> for the
  incoming thread, \<open>Inc\<close> for the outgoing one. A position carries the local variables that are
  still needed: the context, \<open>prev_state\<close>, then the message read, the attempt and the value
  read by the loop, the new count, the buffer (and whether it is the first) and the index.
\<close>

datatype switch_pc =
    Outside
  | Lookup cas_op switch_ctx u64
  | Flag cas_op switch_ctx u64 u64
  | Count cas_op switch_ctx u64 nat
  | Swap cas_op switch_ctx u64 nat s64
  | Sample cas_op switch_ctx u64 s64
  | Reserve cas_op switch_ctx u64 s64 bool nat
  | Store cas_op switch_ctx u64 s64 nat u32

fun half_tid :: "cas_op \<Rightarrow> switch_ctx \<Rightarrow> u32" where
  "half_tid Dec ctx = next_pid ctx"
| "half_tid Inc ctx = prev_pid ctx"

fun half_done :: "cas_op \<Rightarrow> switch_ctx \<Rightarrow> u64 \<Rightarrow> switch_pc" where
  "half_done Dec ctx prev_state = Lookup Inc ctx prev_state"
| "half_done Inc ctx prev_state = Outside"

fun half_state :: "cas_op \<Rightarrow> switch_ctx \<Rightarrow> u64 \<Rightarrow> u64" where
  "half_state Dec ctx prev_state = ctx_prev_state ctx"
| "half_state Inc ctx prev_state = prev_state"

fun flag_wanted :: "cas_op \<Rightarrow> u64 \<Rightarrow> u64 \<Rightarrow> bool" where
  "flag_wanted Dec prev_state msg \<longleftrightarrow> msg = 1"
| "flag_wanted Inc prev_state msg \<longleftrightarrow> msg = 1 \<and> (prev_state = TASK_RUNNING \<or> prev_state = TASK_WAKING)"

text \<open>The flag before and after the compare-and-swap of a half.\<close>

fun flag_old :: "cas_op \<Rightarrow> u64" where
  "flag_old Dec = 1"
| "flag_old Inc = 0"

fun flag_new :: "cas_op \<Rightarrow> u64" where
  "flag_new Dec = 0"
| "flag_new Inc = 1"

text \<open>
  The VM of a thread, with the name stored at its vCPU. The handler holds pointers to the vCPU
  and to the VM from its lookups on; the entries stay while it runs, so looking them up again
  reads the same memory.
\<close>

definition vm_at :: "host_state \<Rightarrow> u32 \<Rightarrow> (string \<times> vm_t) option" where
  "vm_at h t = (case vcpus h t of None \<Rightarrow> None | Some v \<Rightarrow> map_option (Pair (vm_name v)) (vms h (vm_name v)))"

definition choose_buffer :: "string \<Rightarrow> vm_t \<Rightarrow> host_state \<Rightarrow> (bool \<times> nat) option" where
  "choose_buffer name vm h =
     (if is_collectx_in_buff_1 vm = 1 then map_option (Pair True) (map_registry h (collection_key CHR ''1'' name))
      else map_option (Pair False) (map_registry h (collection_key CHR ''2'' name)))"

definition reserve_index :: "bool \<Rightarrow> string \<Rightarrow> vm_t \<Rightarrow> host_state \<Rightarrow> u32 \<times> host_state" where
  "reserve_index first name vm h =
     (if first then
        (collection_buff_1_index vm, h\<lparr>vms := (vms h)(name \<mapsto> vm\<lparr>collection_buff_1_index := collection_buff_1_index vm + 1\<rparr>)\<rparr>)
      else
        (collection_buff_2_index vm, h\<lparr>vms := (vms h)(name \<mapsto> vm\<lparr>collection_buff_2_index := collection_buff_2_index vm + 1\<rparr>)\<rparr>))"

definition store_sample :: "(nat \<Rightarrow> u64) \<Rightarrow> nat \<Rightarrow> u32 \<Rightarrow> s64 \<Rightarrow> host_state \<Rightarrow> host_state" where
  "store_sample ktime mid idx new_count h =
     inner_update mid idx \<lparr>pc_count = new_count, pc_timestamp = ktime (ktime_calls h)\<rparr> (h\<lparr>ktime_calls := Suc (ktime_calls h)\<rparr>)"

text \<open>
  The next step of a CPU: its next position, the state, and whether a counter loop has just run
  out of attempts. \<open>None\<close> is a read outside the backend.
\<close>

fun handler_step ::
  "nat \<Rightarrow> (nat \<Rightarrow> u64) \<Rightarrow> switch_pc \<Rightarrow> host_state \<Rightarrow> (switch_pc \<times> host_state \<times> bool) option" where
  "handler_step pg ktime Outside h = Some (Outside, h, False)"
| "handler_step pg ktime (Lookup oper ctx prev_state) h =
     (case vcpus h (half_tid oper ctx) of None \<Rightarrow> Some (half_done oper ctx prev_state, h, False)
      | Some vcpu \<Rightarrow> do {
          msg \<leftarrow> guest_run_state pg h (vcpu_index vcpu);
          Some (Flag oper ctx (half_state oper ctx prev_state) msg, h, False)
        })"
| "handler_step pg ktime (Flag oper ctx prev_state msg) h =
     (case vcpus h (half_tid oper ctx) of None \<Rightarrow> Some (half_done oper ctx prev_state, h, False)
      | Some vcpu \<Rightarrow>
          if flag_wanted oper prev_state msg \<and> is_phantom vcpu = flag_old oper then
            let h1 = h\<lparr>vcpus := (vcpus h)(half_tid oper ctx \<mapsto> vcpu\<lparr>is_phantom := flag_new oper\<rparr>)\<rparr> in
            Some (if vms h1 (vm_name vcpu) = None then half_done oper ctx prev_state else Count oper ctx prev_state 0, h1, False)
          else Some (half_done oper ctx prev_state, h, False))"
| "handler_step pg ktime (Count oper ctx prev_state k) h =
     (case vm_at h (half_tid oper ctx) of None \<Rightarrow> Some (half_done oper ctx prev_state, h, False)
      | Some (name, vm) \<Rightarrow>
          let old = vm_phantom_count vm in
          if cas_attempts \<le> k then Some (Sample oper ctx prev_state old, h, True)
          else if blocked oper (nb_vcpus vm) old then Some (Sample oper ctx prev_state old, h, False)
          else Some (Swap oper ctx prev_state k old, h, False))"
| "handler_step pg ktime (Swap oper ctx prev_state k old) h =
     (case vm_at h (half_tid oper ctx) of None \<Rightarrow> Some (half_done oper ctx prev_state, h, False)
      | Some (name, vm) \<Rightarrow>
          if vm_phantom_count vm = old
          then Some (Sample oper ctx prev_state (moved oper old),
                 h\<lparr>vms := (vms h)(name \<mapsto> vm\<lparr>vm_phantom_count := moved oper old\<rparr>)\<rparr>, False)
          else Some (Count oper ctx prev_state (Suc k), h, False))"
| "handler_step pg ktime (Sample oper ctx prev_state new_count) h =
     (case vm_at h (half_tid oper ctx) of None \<Rightarrow> Some (half_done oper ctx prev_state, h, False)
      | Some (name, vm) \<Rightarrow>
          (case choose_buffer name vm h of None \<Rightarrow> Some (half_done oper ctx prev_state, h, False)
           | Some (first, mid) \<Rightarrow> Some (Reserve oper ctx prev_state new_count first mid, h, False)))"
| "handler_step pg ktime (Reserve oper ctx prev_state new_count first mid) h =
     (case vm_at h (half_tid oper ctx) of None \<Rightarrow> Some (half_done oper ctx prev_state, h, False)
      | Some (name, vm) \<Rightarrow>
          let (idx, h1) = reserve_index first name vm h in
          Some (Store oper ctx prev_state new_count mid idx, h1, False))"
| "handler_step pg ktime (Store oper ctx prev_state new_count mid idx) h =
     Some (half_done oper ctx prev_state, store_sample ktime mid idx new_count h, False)"

lemmas handler_step_splits = option.splits prod.splits if_splits

text \<open>A CPU on its own.\<close>

primrec handler_steps ::
  "nat \<Rightarrow> nat \<Rightarrow> (nat \<Rightarrow> u64) \<Rightarrow> switch_pc \<Rightarrow> host_state \<Rightarrow> (switch_pc \<times> host_state) option" where
  "handler_steps 0 pg ktime p h = Some (p, h)"
| "handler_steps (Suc n) pg ktime p h = do {
     (p1, h1, _) \<leftarrow> handler_step pg ktime p h;
     handler_steps n pg ktime p1 h1
   }"

subsection \<open>All CPUs\<close>

text \<open>
  \<open>runs\<close> is the thread a CPU runs, 0 for its idle thread; \<open>gave_up\<close> counts the loops that ran
  out of attempts, which the code does not.
\<close>

record race_state =
  hst :: host_state
  runs :: "nat \<Rightarrow> u32"
  pos :: "nat \<Rightarrow> switch_pc"
  gave_up :: nat

fun pc_ctx :: "switch_pc \<Rightarrow> switch_ctx option" where
  "pc_ctx Outside = None"
| "pc_ctx (Lookup oper ctx st) = Some ctx"
| "pc_ctx (Flag oper ctx st msg) = Some ctx"
| "pc_ctx (Count oper ctx st k) = Some ctx"
| "pc_ctx (Swap oper ctx st k old) = Some ctx"
| "pc_ctx (Sample oper ctx st c) = Some ctx"
| "pc_ctx (Reserve oper ctx st c first mid) = Some ctx"
| "pc_ctx (Store oper ctx st c mid idx) = Some ctx"

text \<open>The threads the scheduler has given to a CPU: the running one, and the one being switched to.\<close>

definition holds :: "race_state \<Rightarrow> nat \<Rightarrow> u32 set" where
  "holds s c = insert (runs s c) (case pc_ctx (pos s c) of None \<Rightarrow> {} | Some ctx \<Rightarrow> {next_pid ctx})"

text \<open>
  A switch starts on a CPU for the thread it runs and for a thread no CPU holds, or the idle
  thread. The tracepoint lies before the switch, so the thread runs from the handler's end on.
  The environment may change everything but the flags and the counters.
\<close>

datatype race_event = Begin nat switch_ctx | Own nat | Env

inductive race_step :: "nat \<Rightarrow> (nat \<Rightarrow> u64) \<Rightarrow> race_event \<Rightarrow> race_state \<Rightarrow> race_state \<Rightarrow> bool" for pg :: nat and ktime :: "nat \<Rightarrow> u64" where
  start: "pos s c = Outside \<Longrightarrow> prev_pid ctx = runs s c \<Longrightarrow> next_pid ctx = 0 \<or> (\<forall>d. next_pid ctx \<notin> holds s d) \<Longrightarrow>
    race_step pg ktime (Begin c ctx) s (s\<lparr>pos := (pos s)(c := Lookup Dec ctx 0)\<rparr>)"
| step: "pc_ctx (pos s c) = Some ctx \<Longrightarrow> handler_step pg ktime (pos s c) (hst s) = Some (p, h, l) \<Longrightarrow>
    race_step pg ktime (Own c) s (s\<lparr>hst := h, pos := (pos s)(c := p),
      runs := (if p = Outside then (runs s)(c := next_pid ctx) else runs s), gave_up := gave_up s + of_bool l\<rparr>)"
| other: "vcpus h = vcpus (hst s) \<Longrightarrow> vm_view h = vm_view (hst s) \<Longrightarrow> race_step pg ktime Env s (s\<lparr>hst := h\<rparr>)"

inductive race_run :: "nat \<Rightarrow> (nat \<Rightarrow> u64) \<Rightarrow> race_event list \<Rightarrow> race_state \<Rightarrow> race_state \<Rightarrow> bool" for pg :: nat and ktime :: "nat \<Rightarrow> u64" where
  run_nil: "race_run pg ktime [] s s"
| run_snoc: "race_run pg ktime es s s' \<Longrightarrow> race_step pg ktime e s' s'' \<Longrightarrow> race_run pg ktime (es @ [e]) s s''"

definition race_start :: "host_state \<Rightarrow> (nat \<Rightarrow> u32) \<Rightarrow> race_state" where
  "race_start h r = \<lparr>hst = h, runs = r, pos = (\<lambda>_. Outside), gave_up = 0\<rparr>"

text \<open>A thread whose flag has moved while the counter has not followed yet.\<close>

fun pending_at :: "switch_pc \<Rightarrow> (cas_op \<times> u32) option" where
  "pending_at (Count oper ctx st k) = Some (oper, half_tid oper ctx)"
| "pending_at (Swap oper ctx st k old) = Some (oper, half_tid oper ctx)"
| "pending_at p = None"

definition pending :: "race_state \<Rightarrow> cas_op \<Rightarrow> u32 set" where
  "pending s oper = {t. \<exists>c. pending_at (pos s c) = Some (oper, t)}"

text \<open>The threads the counter of a VM accounts for at a moment.\<close>

definition counted :: "race_state \<Rightarrow> string \<Rightarrow> u32 set" where
  "counted s n = (phantoms (hst s) n - pending s Inc) \<union> (members (hst s) n \<inter> pending s Dec)"

subsection \<open>A CPU on its own runs the handler\<close>

lemma handler_steps_add:
  "handler_steps (m + n) pg ktime p h = Option.bind (handler_steps m pg ktime p h) (\<lambda>(p1, h1). handler_steps n pg ktime p1 h1)"
  by (induction m arbitrary: p h) (auto split: Option.bind_splits)

lemma handler_steps_outside [simp]: "handler_steps n pg ktime Outside h = Some (Outside, h)"
  by (induction n) simp_all

text \<open>The count a half arrives at when no other CPU interferes.\<close>

definition count_after :: "cas_op \<Rightarrow> vm_t \<Rightarrow> s64" where
  "count_after oper vm =
     (if blocked oper (nb_vcpus vm) (vm_phantom_count vm) then vm_phantom_count vm else moved oper (vm_phantom_count vm))"

lemma vm_at_upd [simp]:
  "vm_at h t = Some (name, vm) \<Longrightarrow> vm_at (h\<lparr>vms := (vms h)(name \<mapsto> vm')\<rparr>) t = Some (name, vm')"
  by (auto simp: vm_at_def split: option.splits)

lemma sample_alone:
  assumes "vm_at h (half_tid oper ctx) = Some (name, vm)"
  shows "\<exists>k\<le>3. handler_steps k pg ktime (Sample oper ctx st c) h = Some (half_done oper ctx st, record_sample ktime name c h)"
proof -
  have vm: "vms h name = Some vm" using assms by (auto simp: vm_at_def split: option.splits)
  show ?thesis
  proof (cases "choose_buffer name vm h")
    case None
    then have "record_sample ktime name c h = h"
      using vm by (auto simp: record_sample_def choose_buffer_def split: if_splits option.splits)
    then show ?thesis using assms None by (intro exI [of _ 1]) simp
  next
    case (Some r)
    obtain first mid where r: "r = (first, mid)" by (cases r)
    have "record_sample ktime name c h = store_sample ktime mid (fst (reserve_index first name vm h)) c (snd (reserve_index first name vm h))"
      using Some vm by (auto simp: r record_sample_def choose_buffer_def reserve_index_def store_sample_def Let_def split: if_splits)
    then show ?thesis using assms Some by (intro exI [of _ 3]) (simp add: r numeral_3_eq_3 split_beta)
  qed
qed

lemma count_alone:
  assumes "vm_at h (half_tid oper ctx) = Some (name, vm)"
  shows "\<exists>k\<le>5. handler_steps k pg ktime (Count oper ctx st 0) h =
    Some (half_done oper ctx st, record_sample ktime name (count_after oper vm) (h\<lparr>vms := (vms h)(name \<mapsto> vm\<lparr>vm_phantom_count := count_after oper vm\<rparr>)\<rparr>))"
    (is "\<exists>k\<le>5. _ = Some (_, record_sample ktime name ?c ?h)")
proof -
  have vm: "vms h name = Some vm" using assms by (auto simp: vm_at_def split: option.splits)
  obtain k where k: "k \<le> 3" "handler_steps k pg ktime (Sample oper ctx st ?c) ?h = Some (half_done oper ctx st, record_sample ktime name ?c ?h)"
    using sample_alone [OF vm_at_upd [OF assms], of pg ktime st ?c "vm\<lparr>vm_phantom_count := ?c\<rparr>"] by blast
  show ?thesis
  proof (cases "blocked oper (nb_vcpus vm) (vm_phantom_count vm)")
    case True
    then have "?h = h" using vm by (simp add: count_after_def fun_upd_idem)
    then have "handler_steps (1 + k) pg ktime (Count oper ctx st 0) h = Some (half_done oper ctx st, record_sample ktime name ?c ?h)"
      using k(2) assms True by (simp add: cas_attempts_def count_after_def)
    then show ?thesis using k(1) by (intro exI [of _ "1 + k"]) simp
  next
    case False
    then have "handler_steps (2 + k) pg ktime (Count oper ctx st 0) h = Some (half_done oper ctx st, record_sample ktime name ?c ?h)"
      using k(2) assms by (simp add: cas_attempts_def count_after_def numeral_2_eq_2)
    then show ?thesis using k(1) by (intro exI [of _ "2 + k"]) simp
  qed
qed

text \<open>One half, as a function: the common form of \<open>switch_in\<close> and \<open>switch_out\<close>.\<close>

definition half_run :: "nat \<Rightarrow> (nat \<Rightarrow> u64) \<Rightarrow> cas_op \<Rightarrow> switch_ctx \<Rightarrow> u64 \<Rightarrow> host_state \<Rightarrow> (u64 \<times> host_state) option" where
  "half_run pg ktime oper ctx st h =
     (case vcpus h (half_tid oper ctx) of None \<Rightarrow> Some (st, h)
      | Some v \<Rightarrow> do {
          msg \<leftarrow> guest_run_state pg h (vcpu_index v);
          let st' = half_state oper ctx st;
          if flag_wanted oper st' msg \<and> is_phantom v = flag_old oper then
            let h1 = h\<lparr>vcpus := (vcpus h)(half_tid oper ctx \<mapsto> v\<lparr>is_phantom := flag_new oper\<rparr>)\<rparr> in
            (case vms h (vm_name v) of None \<Rightarrow> Some (st', h1)
             | Some vm \<Rightarrow> Some (st', record_sample ktime (vm_name v) (count_after oper vm)
                  (h1\<lparr>vms := (vms h1)(vm_name v \<mapsto> vm\<lparr>vm_phantom_count := count_after oper vm\<rparr>)\<rparr>)))
          else Some (st', h)
        })"

lemma half_run_in: "half_run pg ktime Dec ctx 0 h = map_option prod.swap (switch_in pg ktime ctx h)"
proof (cases "vcpus h (next_pid ctx)")
  case (Some v)
  then show ?thesis
    by (cases "guest_run_state pg h (vcpu_index v)")
      (simp_all add: half_run_def switch_in_def Let_def atomic_dec_quiet count_after_def split: option.splits)
qed (simp add: half_run_def switch_in_def)

lemma half_run_out: "half_run pg ktime Inc ctx st h = map_option (Pair st) (switch_out pg ktime ctx st h)"
proof (cases "vcpus h (prev_pid ctx)")
  case (Some v)
  then show ?thesis
    by (cases "guest_run_state pg h (vcpu_index v)")
      (auto simp: half_run_def switch_out_def Let_def atomic_inc_quiet count_after_def split: option.splits)
qed (simp add: half_run_def switch_out_def)

lemma half_alone:
  "\<exists>k\<le>7. handler_steps k pg ktime (Lookup oper ctx st) h = map_option (\<lambda>(st', h'). (half_done oper ctx st', h')) (half_run pg ktime oper ctx st h)"
proof (cases "vcpus h (half_tid oper ctx)")
  case None
  then show ?thesis by (intro exI [of _ 1]) (simp add: half_run_def)
next
  case (Some v)
  let ?t = "half_tid oper ctx" and ?st = "half_state oper ctx st"
  let ?h1 = "h\<lparr>vcpus := (vcpus h)(?t \<mapsto> v\<lparr>is_phantom := flag_new oper\<rparr>)\<rparr>"
  show ?thesis
  proof (cases "guest_run_state pg h (vcpu_index v)")
    case None
    then show ?thesis using Some by (intro exI [of _ 1]) (simp add: half_run_def)
  next
    case msg: (Some msg)
    show ?thesis
    proof (cases "flag_wanted oper ?st msg \<and> is_phantom v = flag_old oper \<and> vms h (vm_name v) \<noteq> None")
      case False
      then show ?thesis using Some msg by (intro exI [of _ 2]) (auto simp: half_run_def numeral_2_eq_2 Let_def)
    next
      case True
      then obtain vm where vm: "vms h (vm_name v) = Some vm" by auto
      then have at: "vm_at ?h1 ?t = Some (vm_name v, vm)" by (simp add: vm_at_def)
      obtain k where k: "k \<le> 5" "handler_steps k pg ktime (Count oper ctx ?st 0) ?h1 = Some (half_done oper ctx ?st,
          record_sample ktime (vm_name v) (count_after oper vm) (?h1\<lparr>vms := (vms ?h1)(vm_name v \<mapsto> vm\<lparr>vm_phantom_count := count_after oper vm\<rparr>)\<rparr>))"
        using count_alone [OF at, of pg ktime ?st] by blast
      with True Some msg vm have "handler_steps (2 + k) pg ktime (Lookup oper ctx st) h =
          map_option (\<lambda>(st', h'). (half_done oper ctx st', h')) (half_run pg ktime oper ctx st h)"
        by (simp add: half_run_def numeral_2_eq_2 Let_def)
      then show ?thesis using k(1) by (intro exI [of _ "2 + k"]) simp
    qed
  qed
qed

lemma handler_alone:
  "handler_steps 14 pg ktime (Lookup Dec ctx 0) h = map_option (Pair Outside) (phantom_switch_handler pg ktime ctx h)"
proof -
  obtain k where k: "k \<le> 7" "handler_steps k pg ktime (Lookup Dec ctx 0) h =
      map_option (\<lambda>x. (Lookup Inc ctx (snd x), fst x)) (switch_in pg ktime ctx h)"
    using half_alone [of pg ktime Dec ctx 0 h] by (auto simp: half_run_in option.map_comp comp_def split_beta)
  have out: "handler_steps (14 - k) pg ktime (Lookup Inc ctx st) h1 = map_option (Pair Outside) (switch_out pg ktime ctx st h1)" for st h1
  proof -
    obtain j where j: "j \<le> 7" "handler_steps j pg ktime (Lookup Inc ctx st) h1 = map_option (Pair Outside) (switch_out pg ktime ctx st h1)"
      using half_alone [of pg ktime Inc ctx st h1] by (auto simp: half_run_out option.map_comp comp_def)
    have "14 - k = j + (14 - k - j)" using k(1) j(1) by simp
    then have "handler_steps (14 - k) pg ktime (Lookup Inc ctx st) h1 = Option.bind (handler_steps j pg ktime (Lookup Inc ctx st) h1)
        (\<lambda>(p1, h1). handler_steps (14 - k - j) pg ktime p1 h1)" using handler_steps_add by metis
    then show ?thesis by (cases "switch_out pg ktime ctx st h1") (simp_all add: j(2))
  qed
  have "handler_steps 14 pg ktime (Lookup Dec ctx 0) h = Option.bind (handler_steps k pg ktime (Lookup Dec ctx 0) h)
      (\<lambda>(p1, h1). handler_steps (14 - k) pg ktime p1 h1)" using handler_steps_add [of k "14 - k"] k(1) by simp
  then show ?thesis by (cases "switch_in pg ktime ctx h") (auto simp: k(2) out phantom_switch_handler_def)
qed

lemma half_done_facts [simp]:
  "half_done oper ctx st = Outside \<longleftrightarrow> oper \<noteq> Dec" "pc_ctx (half_done oper ctx st) = (if oper = Dec then Some ctx else None)"
  "pending_at (half_done oper ctx st) = None"
  by (cases oper; simp)+

subsection \<open>The invariant\<close>

text \<open>
  What holds of a position: the thread of a half that counts has its flag moved already, a value
  about to be swapped was not at the bound, and the handler works for the thread its CPU runs.
\<close>

definition pos_ok :: "host_state \<Rightarrow> u32 \<Rightarrow> switch_pc \<Rightarrow> bool" where
  "pos_ok h r p \<longleftrightarrow> (\<forall>ctx. pc_ctx p = Some ctx \<longrightarrow> prev_pid ctx = r) \<and>
     (\<forall>oper t. pending_at p = Some (oper, t) \<longrightarrow> (\<exists>v. vcpus h t = Some v \<and> is_phantom v = flag_new oper)) \<and>
     (\<forall>oper ctx st k old v c nb. p = Swap oper ctx st k old \<and> vcpus h (half_tid oper ctx) = Some v \<and>
        vm_view h (vm_name v) = Some (c, nb) \<longrightarrow> \<not> blocked oper nb old)"

definition table_ok :: "host_state \<Rightarrow> bool" where
  "table_ok h \<longleftrightarrow> finite (dom (vcpus h)) \<and> vcpus h 0 = None \<and>
     (\<forall>t v. vcpus h t = Some v \<longrightarrow> (is_phantom v = 0 \<or> is_phantom v = 1) \<and> vm_view h (vm_name v) \<noteq> None) \<and>
     (\<forall>n c nb. vm_view h n = Some (c, nb) \<longrightarrow> card (members h n) \<le> unat nb \<and> in_bounds nb c)"

definition apart :: "race_state \<Rightarrow> bool" where
  "apart s \<longleftrightarrow> (\<forall>c d. c \<noteq> d \<longrightarrow> holds s c \<inter> holds s d \<subseteq> {0})"

definition drift_ok :: "race_state \<Rightarrow> bool" where
  "drift_ok s \<longleftrightarrow> (\<forall>n c nb. vm_view (hst s) n = Some (c, nb) \<longrightarrow> \<bar>sint c - int (card (counted s n))\<bar> \<le> int (gave_up s))"

definition race_inv :: "race_state \<Rightarrow> bool" where
  "race_inv s \<longleftrightarrow> table_ok (hst s) \<and> apart s \<and> (\<forall>c. pos_ok (hst s) (runs s c) (pos s c)) \<and> drift_ok s"

lemma pending_ctx: "pending_at p = Some (oper, t) \<Longrightarrow> \<exists>ctx. pc_ctx p = Some ctx \<and> t = half_tid oper ctx"
  by (cases p) auto

lemma half_held: "pc_ctx (pos s c) = Some ctx \<Longrightarrow> prev_pid ctx = runs s c \<Longrightarrow> half_tid oper ctx \<in> holds s c"
  by (cases oper) (auto simp: holds_def)

lemma pending_held:
  assumes "race_inv s" and "pending_at (pos s c) = Some (oper, t)"
  shows "t \<in> holds s c \<and> (\<exists>v. vcpus (hst s) t = Some v \<and> is_phantom v = flag_new oper)"
proof -
  have p: "pos_ok (hst s) (runs s c) (pos s c)" using assms(1) by (simp add: race_inv_def)
  obtain ctx where "pc_ctx (pos s c) = Some ctx" "t = half_tid oper ctx" using pending_ctx [OF assms(2)] by blast
  then show ?thesis using half_held [of s c ctx oper] p assms(2) by (simp add: pos_ok_def)
qed

text \<open>No two CPUs work for the same vCPU thread.\<close>

lemma holds_unique:
  assumes "race_inv s" and "t \<in> holds s c" and "t \<in> holds s d" and "vcpus (hst s) t \<noteq> None"
  shows "c = d"
proof (rule ccontr)
  assume "c \<noteq> d"
  with assms(1-3) have "t = 0" by (auto simp: race_inv_def apart_def)
  with assms(1,4) show False by (simp add: race_inv_def table_ok_def)
qed

lemma pending_unique:
  assumes "race_inv s" and "pending_at (pos s c) = Some (oper, t)" and "pending_at (pos s d) = Some (oper', t)"
  shows "c = d"
  using holds_unique [OF assms(1)] pending_held [OF assms(1,2)] pending_held [OF assms(1,3)] by auto

lemma pending_upd:
  assumes "race_inv s" and "pos s' = (pos s)(c := p)"
  shows "pending s' oper = (pending s oper - {t. pending_at (pos s c) = Some (oper, t)}) \<union> {t. pending_at p = Some (oper, t)}"
  unfolding pending_def assms(2) using pending_unique [OF assms(1)] by (auto split: if_splits) metis+

lemma counted_members: "counted s n \<subseteq> members (hst s) n"
  using phantoms_subset by (auto simp: counted_def)

lemma table_finite: "table_ok h \<Longrightarrow> finite (members h n)"
  by (rule finite_subset [of _ "dom (vcpus h)"]) (auto simp: members_def table_ok_def)

lemma counted_finite: "table_ok (hst s) \<Longrightarrow> finite (counted s n)"
  by (rule finite_subset [OF counted_members table_finite])

lemma counted_card:
  assumes "table_ok (hst s)" and "vm_view (hst s) n = Some (c, nb)"
  shows "int (card (counted s n)) \<le> uint nb"
proof -
  have "card (counted s n) \<le> card (members (hst s) n)" by (rule card_mono [OF table_finite [OF assms(1)] counted_members])
  moreover have "card (members (hst s) n) \<le> unat nb" using assms by (simp add: table_ok_def)
  ultimately have "int (card (counted s n)) \<le> int (unat nb)" by linarith
  then show ?thesis by simp
qed

text \<open>Steps that touch neither flags nor counters.\<close>

lemma pos_ok_cong: "vcpus h = vcpus h' \<Longrightarrow> vm_view h = vm_view h' \<Longrightarrow> pos_ok h r p \<longleftrightarrow> pos_ok h' r p"
  by (simp add: pos_ok_def)

lemma table_ok_cong: "vcpus h = vcpus h' \<Longrightarrow> vm_view h = vm_view h' \<Longrightarrow> table_ok h \<longleftrightarrow> table_ok h'"
  using members_cong [of h h'] by (simp add: table_ok_def)

lemma counted_cong: "vcpus (hst s) = vcpus (hst s') \<Longrightarrow> pending s = pending s' \<Longrightarrow> counted s n = counted s' n"
  using members_cong [of "hst s" "hst s'" n] phantoms_cong [of "hst s" "hst s'" n] by (simp add: counted_def)

text \<open>The thread of a half that counts has a vCPU and a VM.\<close>

lemma pending_vm:
  assumes "pos_ok h r p" and "table_ok h" and "pending_at p = Some (oper, t)"
  obtains v vm where "vcpus h t = Some v" "vms h (vm_name v) = Some vm" "vm_at h t = Some (vm_name v, vm)"
    "vm_view h (vm_name v) = Some (vm_phantom_count vm, nb_vcpus vm)"
proof -
  obtain v where v: "vcpus h t = Some v" using assms(1,3) by (auto simp: pos_ok_def)
  then have "vm_view h (vm_name v) \<noteq> None" using assms(2) by (simp add: table_ok_def)
  then obtain vm where "vms h (vm_name v) = Some vm" by (auto simp: vm_view_def)
  with v show thesis by (intro that [of v vm]) (simp_all add: vm_at_def vm_view_def)
qed

lemma reserve_index_frame:
  assumes "vm_at h t = Some (n, vm)" and "reserve_index b n vm h = (idx, h1)"
  shows "vm_view h1 = vm_view h" and "vcpus h1 = vcpus h"
  using assms by (auto simp: reserve_index_def vm_at_def vm_view_def fun_eq_iff split: option.splits if_splits)

text \<open>What a step does, seen from the flags and counters: first in the counter loop, then anywhere.\<close>

lemma pending_step_cases:
  assumes run: "handler_step pg ktime p h = Some (p', h', l)" and ok: "pos_ok h r p" and tab: "table_ok h" and ctx: "pc_ctx p = Some ctx"
    and pend: "pending_at p \<noteq> None"
  obtains (quiet) "vcpus h' = vcpus h" "vm_view h' = vm_view h" "pending_at p' = pending_at p" "\<not> l"
  | (move) oper v c nb where "pending_at p = Some (oper, half_tid oper ctx)" "pending_at p' = None" "vcpus h' = vcpus h"
      "vcpus h (half_tid oper ctx) = Some v" "vm_view h (vm_name v) = Some (c, nb)" "\<not> blocked oper nb c"
      "vm_view h' = (vm_view h)(vm_name v \<mapsto> (moved oper c, nb))" "\<not> l"
  | (stop) oper v c nb where "pending_at p = Some (oper, half_tid oper ctx)" "pending_at p' = None" "vcpus h' = vcpus h"
      "vm_view h' = vm_view h" "vcpus h (half_tid oper ctx) = Some v" "vm_view h (vm_name v) = Some (c, nb)" "l \<or> blocked oper nb c"
proof -
  obtain oper where p: "pending_at p = Some (oper, half_tid oper ctx)" using pend pending_ctx ctx by fastforce
  obtain v vm where v: "vcpus h (half_tid oper ctx) = Some v" "vms h (vm_name v) = Some vm" "vm_at h (half_tid oper ctx) = Some (vm_name v, vm)"
    "vm_view h (vm_name v) = Some (vm_phantom_count vm, nb_vcpus vm)" by (rule pending_vm [OF ok tab p])
  show thesis
  proof (cases p)
    case (Count oper' c st k)
    then have c: "oper' = oper" "c = ctx" using p ctx by simp_all
    show thesis
    proof (cases "cas_attempts \<le> k \<or> blocked oper (nb_vcpus vm) (vm_phantom_count vm)")
      case True
      then show thesis using run v p Count c by (intro stop [OF p _ _ _ v(1,4)]) (auto simp: Let_def split: if_splits)
    next
      case False
      then show thesis using run v(3) Count c by (intro quiet) (auto simp: Let_def)
    qed
  next
    case (Swap oper' c st k old)
    then have c: "oper' = oper" "c = ctx" using p ctx by simp_all
    show thesis
    proof (cases "vm_phantom_count vm = old")
      case True
      have "\<not> blocked oper (nb_vcpus vm) (vm_phantom_count vm)" using ok v True Swap c by (auto simp: pos_ok_def)
      then show thesis using run v Swap c True by (intro move [OF p _ _ v(1,4)]) (auto simp: vm_view_def fun_eq_iff)
    next
      case False
      then show thesis using run v(3) Swap c by (intro quiet) auto
    qed
  qed (use pend in simp_all)
qed

lemma handler_step_cases:
  assumes run: "handler_step pg ktime p h = Some (p', h', l)" and ok: "pos_ok h r p" and tab: "table_ok h" and ctx: "pc_ctx p = Some ctx"
  obtains (quiet) "vcpus h' = vcpus h" "vm_view h' = vm_view h" "pending_at p' = pending_at p" "\<not> l"
  | (mark) oper v where "pending_at p = None" "pending_at p' = Some (oper, half_tid oper ctx)" "vcpus h (half_tid oper ctx) = Some v"
      "is_phantom v = flag_old oper" "h' = h\<lparr>vcpus := (vcpus h)(half_tid oper ctx \<mapsto> v\<lparr>is_phantom := flag_new oper\<rparr>)\<rparr>" "\<not> l"
  | (move) oper v c nb where "pending_at p = Some (oper, half_tid oper ctx)" "pending_at p' = None" "vcpus h' = vcpus h"
      "vcpus h (half_tid oper ctx) = Some v" "vm_view h (vm_name v) = Some (c, nb)" "\<not> blocked oper nb c"
      "vm_view h' = (vm_view h)(vm_name v \<mapsto> (moved oper c, nb))" "\<not> l"
  | (stop) oper v c nb where "pending_at p = Some (oper, half_tid oper ctx)" "pending_at p' = None" "vcpus h' = vcpus h"
      "vm_view h' = vm_view h" "vcpus h (half_tid oper ctx) = Some v" "vm_view h (vm_name v) = Some (c, nb)" "l \<or> blocked oper nb c"
proof (cases "pending_at p = None")
  case False
  show thesis by (rule pending_step_cases [OF run ok tab ctx False]) (erule (3) quiet, erule (7) move, erule (6) stop)
next
  case True
  show thesis
  proof (cases p)
    case (Flag oper c st msg)
    show thesis
    proof (cases "\<exists>v. vcpus h (half_tid oper c) = Some v \<and> flag_wanted oper st msg \<and> is_phantom v = flag_old oper")
      case wanted: True
      then obtain v where v: "vcpus h (half_tid oper c) = Some v" "flag_wanted oper st msg" "is_phantom v = flag_old oper" by blast
      then have "vms h (vm_name v) \<noteq> None" using tab by (fastforce simp: table_ok_def vm_view_def)
      then show thesis using run ctx Flag v by (intro mark [of oper v]) (auto simp: Let_def)
    next
      case False
      then show thesis using run Flag by (intro quiet) (auto split: option.splits if_splits)
    qed
  next
    case (Reserve oper c st cnt first mid)
    then show thesis using run reserve_index_frame by (intro quiet) (auto split: option.splits prod.splits)
  next
    case (Store oper c st cnt mid idx)
    then show thesis using run by (intro quiet) (auto simp: store_sample_def inner_update_def vm_view_def fun_eq_iff)
  qed (use True run ctx in \<open>auto intro!: quiet simp: Option.bind_eq_Some_conv split: option.splits\<close>)
qed

text \<open>When a CPU stops being pending, the threads counted change by the thread it worked for.\<close>

lemma unpend_card:
  assumes inv: "race_inv s" and p: "pending_at (pos s c) = Some (oper, t)" "pending_at p = None"
    and s': "pos s' = (pos s)(c := p)" "vcpus (hst s') = vcpus (hst s)" and v: "vcpus (hst s) t = Some v"
  shows "int (card (counted s' n)) = int (card (counted s n)) + (if n = vm_name v then (if oper = Inc then 1 else -1) else 0)"
proof -
  have flag: "is_phantom v = flag_new oper" using pending_held [OF inv p(1)] v by auto
  have mem: "t \<in> members (hst s) n \<longleftrightarrow> n = vm_name v" and ph: "t \<in> phantoms (hst s) n \<longleftrightarrow> n = vm_name v \<and> oper = Inc" for n
    using v flag by (cases oper; auto simp: members_def phantoms_def)+
  have pend: "pending s' o' = (if o' = oper then pending s o' - {t} else pending s o')" for o'
    using pending_upd [OF inv s'(1), of o'] p by auto
  have in_pend: "t \<in> pending s o' \<longleftrightarrow> o' = oper" for o'
    using p(1) pending_unique [OF inv p(1)] by (auto simp: pending_def)
  have same: "members (hst s') n = members (hst s) n" "phantoms (hst s') n = phantoms (hst s) n"
    using members_cong [OF s'(2)] phantoms_cong [OF s'(2)] by simp_all
  have fin: "finite (counted s n)" using inv counted_finite by (simp add: race_inv_def)
  show ?thesis
  proof (cases oper)
    case Inc
    then have "t \<notin> counted s n" "counted s' n = (if n = vm_name v then insert t (counted s n) else counted s n)"
      using ph [of n] in_pend mem [of n] by (auto simp: counted_def same pend)
    then show ?thesis using fin Inc by (cases "n = vm_name v") simp_all
  next
    case Dec
    then have *: "n = vm_name v \<Longrightarrow> t \<in> counted s n" "counted s' n = (if n = vm_name v then counted s n - {t} else counted s n)"
      using ph [of n] in_pend mem [of n] by (auto simp: counted_def same pend)
    then show ?thesis using fin Dec card_Suc_Diff1 [OF fin, of t] by (auto simp: card_gt_0_iff of_nat_diff)
  qed
qed

lemma mark_counted:
  assumes inv: "race_inv s" and p: "pending_at (pos s c) = None" "pending_at p = Some (oper, t)"
    and s': "pos s' = (pos s)(c := p)" and v: "vcpus (hst s) t = Some v" "is_phantom v = flag_old oper" and t: "t \<in> holds s c"
    and h': "hst s' = (hst s)\<lparr>vcpus := (vcpus (hst s))(t \<mapsto> v\<lparr>is_phantom := flag_new oper\<rparr>)\<rparr>"
  shows "counted s' n = counted s n"
proof -
  have no: "t \<notin> pending s o'" for o'
  proof
    assume "t \<in> pending s o'"
    then obtain d where d: "pending_at (pos s d) = Some (o', t)" by (auto simp: pending_def)
    then have "d = c" using holds_unique [OF inv _ t] pending_held [OF inv d] v(1) by auto
    then show False using d p(1) by simp
  qed
  have pend: "pending s' o' = (if o' = oper then insert t (pending s o') else pending s o')" for o'
    using pending_upd [OF inv s', of o'] p by auto
  have mem: "members (hst s') n = members (hst s) n" unfolding h' by (rule members_flag [OF v(1)])
  have ph: "phantoms (hst s') n = (if n = vm_name v then (if flag_new oper = 1 then insert t (phantoms (hst s) n) else phantoms (hst s) n - {t})
      else phantoms (hst s) n)"
    unfolding h' by (rule phantoms_flag [OF v(1)])
  have "t \<in> members (hst s) n \<longleftrightarrow> n = vm_name v" "t \<in> phantoms (hst s) n \<longleftrightarrow> n = vm_name v \<and> oper = Dec"
    using v by (cases oper; auto simp: members_def phantoms_def)+
  then show ?thesis using no by (cases oper) (auto simp: counted_def mem ph pend split: if_splits)
qed

lemma holds_shrink:
  assumes "apart s" and "\<And>c. holds s' c \<subseteq> holds s c"
  shows "apart s'"
  using assms unfolding apart_def by blast

lemma handler_step_ctx:
  assumes "handler_step pg ktime p h = Some (p', h', l)" and "pc_ctx p = Some ctx"
  shows "p' = Outside \<or> pc_ctx p' = Some ctx"
  using assms by (cases p) (auto simp: Let_def Option.bind_eq_Some_conv split: handler_step_splits)

text \<open>The position a step leads to is in order again.\<close>

lemma handler_step_swap:
  assumes "handler_step pg ktime p h = Some (p', h', l)" and "p' = Swap oper ctx st k old"
  shows "h' = h \<and> p = Count oper ctx st k \<and> (\<exists>name vm. vm_at h (half_tid oper ctx) = Some (name, vm) \<and> \<not> blocked oper (nb_vcpus vm) old)"
proof -
  have "half_done o' c st' \<noteq> p'" for o' c st' using assms(2) by (cases o') simp_all
  with assms show ?thesis by (cases p) (auto simp: Let_def Option.bind_eq_Some_conv split: handler_step_splits)
qed

lemma pos_ok_next:
  assumes run: "handler_step pg ktime p h = Some (p', h', l)" and ok: "pos_ok h r p" and tab: "table_ok h" and ctx: "pc_ctx p = Some ctx"
  shows "pos_ok h' (if p' = Outside then next_pid ctx else r) p'"
proof -
  have pend: "\<exists>v. vcpus h' t = Some v \<and> is_phantom v = flag_new oper" if "pending_at p' = Some (oper, t)" for oper t
    using run ok tab ctx
  proof (cases rule: handler_step_cases)
    case quiet
    then show ?thesis using that ok by (simp add: pos_ok_def)
  next
    case (mark o' v)
    then show ?thesis using that by auto
  qed (use that in simp_all)
  have swap: "\<not> blocked oper nb old" if "p' = Swap oper c st k old" "vcpus h' (half_tid oper c) = Some v" "vm_view h' (vm_name v) = Some (cnt, nb)"
    for oper c st k old v cnt nb
    using handler_step_swap [OF run that(1)] that(2,3) by (auto simp: vm_at_def vm_view_def split: option.splits)
  have "prev_pid ctx = r" using ok ctx by (simp add: pos_ok_def)
  moreover have "p' = Outside \<or> pc_ctx p' = Some ctx" by (rule handler_step_ctx [OF run ctx])
  ultimately show ?thesis unfolding pos_ok_def using pend swap by (auto simp del: blocked.simps)
qed

text \<open>The positions of the other CPUs stay in order.\<close>

lemma pos_ok_transfer:
  assumes "pos_ok h r p" and "\<And>oper t. pending_at p = Some (oper, t) \<Longrightarrow> vcpus h' t = vcpus h t"
    and names: "\<And>t u. vcpus h' t = Some u \<Longrightarrow> \<exists>w. vcpus h t = Some w \<and> vm_name w = vm_name u"
    and sizes: "\<And>n c nb. vm_view h' n = Some (c, nb) \<Longrightarrow> \<exists>c'. vm_view h n = Some (c', nb)"
  shows "pos_ok h' r p"
  unfolding pos_ok_def
proof (intro conjI allI impI)
  fix oper ctx st k old v c nb
  assume a: "p = Swap oper ctx st k old \<and> vcpus h' (half_tid oper ctx) = Some v \<and> vm_view h' (vm_name v) = Some (c, nb)"
  then obtain w where "vcpus h (half_tid oper ctx) = Some w" "vm_name w = vm_name v" using names by blast
  moreover obtain c' where "vm_view h (vm_name v) = Some (c', nb)" using a sizes by blast
  ultimately show "\<not> blocked oper nb old" using assms(1) a unfolding pos_ok_def by metis
qed (use assms(1,2) in \<open>auto simp: pos_ok_def\<close>)

lemma pos_ok_others:
  assumes inv: "race_inv s" and run: "handler_step pg ktime (pos s c) (hst s) = Some (p', h', l)" and ctx: "pc_ctx (pos s c) = Some ctx"
    and d: "d \<noteq> c"
  shows "pos_ok h' (runs s d) (pos s d)"
proof -
  have ok: "pos_ok (hst s) (runs s e) (pos s e)" and tab: "table_ok (hst s)" for e using inv by (simp_all add: race_inv_def)
  show ?thesis
    using run ok [of c] tab ctx
  proof (cases rule: handler_step_cases)
    case quiet
    then show ?thesis using pos_ok_cong [OF quiet(1,2)] ok by simp
  next
    case (mark oper v)
    let ?t = "half_tid oper ctx"
    have "?t \<in> holds s c" using half_held [OF ctx] ok [of c] ctx by (simp add: pos_ok_def)
    then have other: "t \<noteq> ?t" if "pending_at (pos s d) = Some (o', t)" for o' t
      using holds_unique [OF inv, of ?t c d] pending_held [OF inv that] mark(3) d by auto
    have view: "vm_view h' = vm_view (hst s)" by (simp add: mark(5) vm_view_def fun_eq_iff)
    show ?thesis by (rule pos_ok_transfer [OF ok [of d]]) (use other mark(3) view in \<open>auto simp: mark(5) split: if_splits\<close>)
  next
    case (move oper v cnt nb)
    show ?thesis by (rule pos_ok_transfer [OF ok [of d]]) (use move(3,5,7) in \<open>auto split: if_splits\<close>)
  next
    case (stop oper v cnt nb)
    then show ?thesis using pos_ok_cong [OF stop(3,4)] ok by simp
  qed
qed

lemma table_ok_step:
  assumes "handler_step pg ktime p h = Some (p', h', l)" and "pos_ok h r p" and tab: "table_ok h" and "pc_ctx p = Some ctx"
  shows "table_ok h'"
  using assms
proof (cases rule: handler_step_cases)
  case quiet
  then show ?thesis using table_ok_cong [of h' h] tab by simp
next
  case (mark oper v)
  have "members h' n = members h n" for n unfolding mark(5) by (rule members_flag [OF mark(3)])
  moreover have "vm_view h' = vm_view h" by (simp add: mark(5) vm_view_def fun_eq_iff)
  moreover have "flag_new oper = 0 \<or> flag_new oper = 1" by (cases oper) simp_all
  ultimately show ?thesis using tab mark(3) unfolding table_ok_def by (auto simp: mark(5))
next
  case (move oper v cnt nb)
  have "members h' n = members h n" for n by (rule members_cong [OF move(3)])
  moreover have "in_bounds nb (moved oper cnt)" using tab move(5,6) in_bounds_moved by (simp add: table_ok_def)
  ultimately show ?thesis using tab move(5) unfolding table_ok_def by (auto simp: move(3,7))
next
  case (stop oper v cnt nb)
  then show ?thesis using table_ok_cong [of h' h] tab by simp
qed

lemma drift_step:
  assumes inv: "race_inv s" and run: "handler_step pg ktime (pos s c) (hst s) = Some (p', h', l)" and ctx: "pc_ctx (pos s c) = Some ctx"
    and s': "hst s' = h'" "pos s' = (pos s)(c := p')" "gave_up s' = gave_up s + of_bool l"
  shows "drift_ok s'"
proof -
  have ok: "pos_ok (hst s) (runs s c) (pos s c)" and tab: "table_ok (hst s)" and drift: "drift_ok s" using inv by (simp_all add: race_inv_def)
  have tab': "table_ok (hst s')" using table_ok_step [OF run ok tab ctx] by (simp add: s')
  show ?thesis
    using run ok tab ctx
  proof (cases rule: handler_step_cases)
    case quiet
    have "pending s' = pending s" using pending_upd [OF inv s'(2)] quiet(3) by (auto simp: fun_eq_iff pending_def)
    then have "counted s' n = counted s n" for n using counted_cong [of s' s] quiet(1) s'(1) by simp
    then show ?thesis using drift quiet s' by (simp add: drift_ok_def)
  next
    case (mark oper v)
    have "half_tid oper ctx \<in> holds s c" using half_held [OF ctx] ok ctx by (simp add: pos_ok_def)
    then have "counted s' n = counted s n" for n
      using mark_counted [OF inv mark(1,2) s'(2) mark(3,4)] mark(5) s'(1) by simp
    moreover have "vm_view h' = vm_view (hst s)" by (simp add: mark(5) vm_view_def fun_eq_iff)
    ultimately show ?thesis using drift mark(6) s' by (simp add: drift_ok_def)
  next
    case (move oper v cnt nb)
    have "int (card (counted s' n)) = int (card (counted s n)) + (if n = vm_name v then (if oper = Inc then 1 else -1) else 0)" for n
      using unpend_card [OF inv move(1,2) s'(2) _ move(4)] move(3) s'(1) by simp
    then show ?thesis
      using drift moved_sint [OF move(6)] move(5,7,8) s' unfolding drift_ok_def by (auto split: if_splits)
  next
    case (stop oper v cnt nb)
    have card: "int (card (counted s' n)) = int (card (counted s n)) + (if n = vm_name v then (if oper = Inc then 1 else -1) else 0)" for n
      using unpend_card [OF inv stop(1,2) s'(2) _ stop(5)] stop(3) s'(1) by simp
    have "int (card (counted s' (vm_name v))) \<le> uint nb" using counted_card [OF tab', of "vm_name v" cnt nb] stop(4,6) s'(1) by simp
    then have "\<bar>sint cnt - int (card (counted s' (vm_name v)))\<bar> \<le> int (gave_up s')"
      using drift stop(6,7) card [of "vm_name v"] s'(3) by (cases oper) (force simp: drift_ok_def)+
    then show ?thesis using drift card stop(4,6) s' unfolding drift_ok_def by (force split: if_splits)
  qed
qed

lemma start_keeps:
  assumes inv: "race_inv s" and p: "pos s c = Outside" and prev: "prev_pid ctx = runs s c"
    and new: "next_pid ctx = 0 \<or> (\<forall>d. next_pid ctx \<notin> holds s d)"
  shows "race_inv (s\<lparr>pos := (pos s)(c := Lookup Dec ctx 0)\<rparr>)" (is "race_inv ?s")
proof -
  have "holds ?s d = (if d = c then insert (next_pid ctx) (holds s c) else holds s d)" for d
    using p by (auto simp: holds_def)
  moreover have "x = 0" if "d \<noteq> e" "x \<in> holds s d" "x \<in> holds s e" for x d e using inv that by (auto simp: race_inv_def apart_def)
  ultimately have "apart ?s" using new by (simp add: apart_def) blast
  moreover have "pending ?s = pending s" using pending_upd [OF inv, of ?s c "Lookup Dec ctx 0"] p by (auto simp: fun_eq_iff)
  then have "counted ?s n = counted s n" for n by (intro counted_cong) simp_all
  then have "drift_ok ?s" using inv by (simp add: race_inv_def drift_ok_def)
  ultimately show ?thesis using inv prev by (auto simp: race_inv_def pos_ok_def)
qed

lemma step_keeps:
  assumes inv: "race_inv s" and ctx: "pc_ctx (pos s c) = Some ctx" and run: "handler_step pg ktime (pos s c) (hst s) = Some (p, h, l)"
  shows "race_inv (s\<lparr>hst := h, pos := (pos s)(c := p),
    runs := (if p = Outside then (runs s)(c := next_pid ctx) else runs s), gave_up := gave_up s + of_bool l\<rparr>)" (is "race_inv ?s")
proof -
  have ok: "pos_ok (hst s) (runs s c) (pos s c)" and tab: "table_ok (hst s)" using inv by (simp_all add: race_inv_def)
  have "holds ?s d \<subseteq> holds s d" for d using handler_step_ctx [OF run ctx] ctx by (auto simp: holds_def)
  then have "apart ?s" using inv holds_shrink [of s ?s] by (simp only: race_inv_def)
  moreover have "pos_ok h (runs ?s d) (pos ?s d)" for d
    using pos_ok_next [OF run ok tab ctx] pos_ok_others [OF inv run ctx, of d] by (cases "d = c") auto
  moreover have "drift_ok ?s" by (rule drift_step [OF inv run ctx]) simp_all
  moreover have "table_ok h" by (rule table_ok_step [OF run ok tab ctx])
  ultimately show ?thesis by (simp add: race_inv_def)
qed

lemma race_inv_step: "race_step pg ktime e s s' \<Longrightarrow> race_inv s \<Longrightarrow> race_inv s'"
proof (induction rule: race_step.induct)
  case (start s c ctx)
  then show ?case by (intro start_keeps)
next
  case (step s c ctx p h l)
  then show ?case by (intro step_keeps)
next
  case (other h s)
  have "holds (s\<lparr>hst := h\<rparr>) = holds s" "pending (s\<lparr>hst := h\<rparr>) = pending s" by (simp_all add: fun_eq_iff holds_def pending_def)
  then show ?case
    using other table_ok_cong [OF other(1,2)] pos_ok_cong [OF other(1,2)] counted_cong [of "s\<lparr>hst := h\<rparr>" s]
    by (simp add: race_inv_def apart_def drift_ok_def)
qed

lemma race_inv_run: "race_run pg ktime es s s' \<Longrightarrow> race_inv s \<Longrightarrow> race_inv s'"
  by (induction rule: race_run.induct) (auto intro: race_inv_step)

text \<open>No thread but the idle one runs on two CPUs.\<close>

definition placed_once :: "(nat \<Rightarrow> u32) \<Rightarrow> bool" where
  "placed_once r \<longleftrightarrow> (\<forall>c d. r c = r d \<and> r c \<noteq> 0 \<longrightarrow> c = d)"

lemma race_inv_start:
  assumes "count_inv h" and "vcpus h 0 = None" and "placed_once r"
  shows "race_inv (race_start h r)"
proof -
  have cnt: "card (members h n) \<le> unat nb \<and> sint c = int (card (phantoms h n))" if "vm_view h n = Some (c, nb)" for n c nb
    using assms(1) that by (simp add: count_inv_def)
  have "card (phantoms h n) \<le> card (members h n)" for n by (rule card_mono [OF finite_members [OF assms(1)] phantoms_subset])
  then have "int (card (phantoms h n)) \<le> int (unat nb)" if "vm_view h n = Some (c, nb)" for n c nb
    using cnt [OF that] order_trans by (metis of_nat_le_iff)
  then have "in_bounds nb c" if "vm_view h n = Some (c, nb)" for n c nb using cnt [OF that] that by (simp add: in_bounds_def)
  then have "table_ok h" using assms(1,2) cnt by (simp add: table_ok_def count_inv_def)
  moreover have "apart (race_start h r)" using assms(3) by (auto simp: apart_def holds_def race_start_def placed_once_def)
  moreover have "counted (race_start h r) n = phantoms h n" for n by (simp add: counted_def pending_def race_start_def)
  moreover have "hst (race_start h r) = h" "pos (race_start h r) c = Outside" for c by (simp_all add: race_start_def)
  ultimately show ?thesis using cnt by (simp add: race_inv_def pos_ok_def drift_ok_def)
qed

subsection \<open>The loops end\<close>

text \<open>What a CPU has left to do, in steps of its own: at most 54 in each half.\<close>

fun half_work :: "cas_op \<Rightarrow> nat" where
  "half_work Dec = 54"
| "half_work Inc = 0"

fun work :: "switch_pc \<Rightarrow> nat" where
  "work Outside = 0"
| "work (Lookup oper ctx st) = half_work oper + 54"
| "work (Flag oper ctx st msg) = half_work oper + 53"
| "work (Count oper ctx st k) = half_work oper + 4 + 2 * (cas_attempts - k)"
| "work (Swap oper ctx st k old) = half_work oper + 3 + 2 * max 1 (cas_attempts - k)"
| "work (Sample oper ctx st c) = half_work oper + 3"
| "work (Reserve oper ctx st c first mid) = half_work oper + 2"
| "work (Store oper ctx st c mid idx) = half_work oper + 1"

lemma work_half_done [simp]: "work (half_done oper ctx st) = half_work oper"
  by (cases oper) simp_all

lemma handler_step_work:
  "handler_step pg ktime p h = Some (p', h', l) \<Longrightarrow> pc_ctx p = Some ctx \<Longrightarrow> work p' < work p"
  by (cases p) (auto simp: Let_def Option.bind_eq_Some_conv cas_attempts_def split: handler_step_splits)

lemma handler_step_defined:
  assumes "page_size_ok pg" and "g2h_safe pg (shm h)"
  shows "handler_step pg ktime p h \<noteq> None"
proof (cases p)
  case (Lookup oper ctx st)
  then show ?thesis
  proof (cases "vcpus h (half_tid oper ctx)")
    case (Some v)
    obtain m where "guest_run_state pg h (vcpu_index v) = Some m" using guest_run_state_total [OF assms] by blast
    then show ?thesis using Lookup Some by simp
  qed simp
qed (auto simp: Let_def split: handler_step_splits)

lemma step_possible:
  assumes p: "pos s c \<noteq> Outside" and ok: "page_size_ok pg" "g2h_safe pg (shm (hst s))"
  shows "\<exists>s'. race_step pg ktime (Own c) s s'"
proof -
  obtain ctx where ctx: "pc_ctx (pos s c) = Some ctx" using p by (cases "pos s c") auto
  obtain q h l where "handler_step pg ktime (pos s c) (hst s) = Some (q, h, l)" using handler_step_defined [OF ok, of ktime "pos s c"] by auto
  from race_step.step [OF ctx this] show ?thesis by blast
qed

lemma run_work:
  assumes "race_run pg ktime es s s'" and "\<And>ctx. Begin c ctx \<notin> set es"
  shows "count_list es (Own c) + work (pos s' c) \<le> work (pos s c)"
  using assms
proof (induction rule: race_run.induct)
  case (run_snoc es s s' e s'')
  then have IH: "count_list es (Own c) + work (pos s' c) \<le> work (pos s c)" by simp
  from run_snoc.hyps(2) show ?case
  proof (cases rule: race_step.cases)
    case (step d ctx p h l)
    then show ?thesis using IH handler_step_work [OF step(4,3)] by (cases "d = c") simp_all
  qed (use IH run_snoc.prems in auto)
qed simp

text \<open>An attempt fails only when another CPU has moved the counter since it was read.\<close>

definition count_at :: "host_state \<Rightarrow> u32 \<Rightarrow> s64 option" where
  "count_at h t = map_option (\<lambda>(name, vm). vm_phantom_count vm) (vm_at h t)"

fun attempts_ok :: "host_state \<Rightarrow> nat \<Rightarrow> switch_pc \<Rightarrow> bool" where
  "attempts_ok h n (Count oper ctx st k) \<longleftrightarrow> k \<le> n"
| "attempts_ok h n (Swap oper ctx st k old) \<longleftrightarrow> k \<le> n \<and>
     (count_at h (half_tid oper ctx) \<noteq> None \<longrightarrow> count_at h (half_tid oper ctx) = Some old \<or> k < n)"
| "attempts_ok h n p \<longleftrightarrow> True"

lemma attempts_ok_half_done [simp]: "attempts_ok h n (half_done oper ctx st)"
  by (cases oper) simp_all

lemma attempts_ok_step:
  "handler_step pg ktime p h = Some (p', h', l) \<Longrightarrow> attempts_ok h n p \<Longrightarrow> attempts_ok h' n p'"
  by (cases p) (auto simp: Let_def Option.bind_eq_Some_conv count_at_def split: handler_step_splits)

lemma attempts_ok_Suc: "attempts_ok h n p \<Longrightarrow> attempts_ok h' (Suc n) p"
  by (cases p) (auto split: option.splits)

lemma attempts_ok_view:
  assumes "vcpus h' = vcpus h" and "vm_view h' = vm_view h" and "attempts_ok h n p"
  shows "attempts_ok h' n p"
proof -
  have "map_option vm_phantom_count (vms h' m) = map_option vm_phantom_count (vms h m)" for m
    using fun_cong [OF assms(2), of m] by (cases "vms h m"; cases "vms h' m") (auto simp: vm_view_def)
  then have "count_at h' t = count_at h t" for t
    using assms(1) by (auto simp: count_at_def vm_at_def option.map_comp comp_def split: option.splits)
  then show ?thesis using assms(3) by (cases p) auto
qed

text \<open>The steps the other CPUs take in a run.\<close>

definition others_steps :: "nat \<Rightarrow> race_event list \<Rightarrow> nat" where
  "others_steps c es = length (filter (\<lambda>e. \<exists>d. e = Own d \<and> d \<noteq> c) es)"

lemma run_attempts:
  assumes "race_run pg ktime es s s'" and "attempts_ok (hst s) 0 (pos s c)"
  shows "attempts_ok (hst s') (others_steps c es) (pos s' c)"
  using assms
proof (induction rule: race_run.induct)
  case (run_snoc es s s' e s'')
  then have IH: "attempts_ok (hst s') (others_steps c es) (pos s' c)" by simp
  from run_snoc.hyps(2) show ?case
  proof (cases rule: race_step.cases)
    case (start d ctx)
    then show ?thesis using IH by (simp add: others_steps_def)
  next
    case (step d ctx p h l)
    then show ?thesis using IH attempts_ok_step [OF step(4)] attempts_ok_Suc by (cases "d = c") (auto simp: others_steps_def)
  next
    case (other h)
    then show ?thesis using IH attempts_ok_view [OF other(3,4)] by (simp add: others_steps_def)
  qed
qed (simp add: others_steps_def)

text \<open>The timer of another CPU is a step of the environment.\<close>

lemma timer_env:
  assumes "page_size_ok pg" and "h2g_ready pg (shm (hst s))" and "timer_cb pg ktime gs ret order e (hst s) = Some (e', h)"
  shows "race_step pg ktime Env s (s\<lparr>hst := h\<rparr>)"
proof -
  obtain h' where h': "for_each_vm pg ktime gs order (hst s) = Some h'" "vcpus h' = vcpus (hst s)" "\<And>n. vm_view h' n = vm_view (hst s) n"
    using for_each_vm_publishes [OF assms(1,2), of ktime gs order] by blast
  have "h = h'" using assms(3) h'(1) by (simp add: timer_cb_def Let_def)
  then show ?thesis using h' by (intro race_step.other) auto
qed

subsection \<open>A tick between reservation and store\<close>

text \<open>
  After the reservation the buffer counts a sample that is still to be stored: the slot keeps
  what an earlier window left there.
\<close>

lemma reserved_not_stored:
  assumes "handler_step pg ktime (Reserve oper ctx st c first mid) h = Some (Store oper ctx st c mid idx, h1, l)"
    and "vm_at h (half_tid oper ctx) = Some (name, vm)" and "first \<longleftrightarrow> is_collectx_in_buff_1 vm = 1"
  shows "inner_maps h1 = inner_maps h \<and> idx = collecting_index vm \<and> (\<exists>vm'. vms h1 name = Some vm' \<and> collecting_index vm' = idx + 1)"
  using assms by (auto simp: reserve_index_def collecting_index_def Let_def split: prod.splits if_splits)

text \<open>
  A tick at that moment averages over the old slot. With one phantom from time 100 to 200 and an
  old sample of an idle VM at time 20 in the reserved slot, it publishes 0 instead of 1.
\<close>

definition window_example :: "phantom_count \<Rightarrow> phantom_count bpf_array" where
  "window_example x = \<lparr>arr_max = 3, arr_val = (\<lambda>k. if k = 0 then \<lparr>pc_count = 1, pc_timestamp = 100\<rparr>
     else if k = 1 then x else \<lparr>pc_count = 1, pc_timestamp = 200\<rparr>)\<rparr>"

lemma stale_sample_skews:
  "phantom_average (window_example \<lparr>pc_count = 0, pc_timestamp = 20\<rparr>) 2 = 0"
  "phantom_average (window_example \<lparr>pc_count = 1, pc_timestamp = 150\<rparr>) 2 = 1"
  by code_simp+

subsection \<open>Properties\<close>

text \<open>
  C1. The phantom counters under concurrency: however the context-switch handlers of all CPUs
  interleave with each other, with the timer and with the guests, the count of a VM stays
  between 0 and its number of vCPUs, and it differs from the number of threads it accounts for
  by at most the number of counter loops that ran out of attempts. When no handler is running
  these threads are the VM's phantoms, so the count is exact if no loop ran out.
\<close>

theorem concurrent_switches_count:
  assumes "count_inv h" and "vcpus h 0 = None" and "placed_once r" and "race_run pg ktime es (race_start h r) s"
    and "vm_view (hst s) n = Some (c, nb)"
  shows "0 \<le> sint c \<and> sint c \<le> uint nb \<and> \<bar>sint c - int (card (counted s n))\<bar> \<le> int (gave_up s) \<and>
    ((\<forall>d. pos s d = Outside) \<longrightarrow> \<bar>sint c - int (card (phantoms (hst s) n))\<bar> \<le> int (gave_up s))"
proof -
  have inv: "race_inv s" by (rule race_inv_run [OF assms(4) race_inv_start [OF assms(1-3)]])
  have "counted s n = phantoms (hst s) n" if "\<forall>d. pos s d = Outside" using that by (simp add: counted_def pending_def)
  moreover have "in_bounds nb c" using inv assms(5) by (simp add: race_inv_def table_ok_def)
  moreover have "\<bar>sint c - int (card (counted s n))\<bar> \<le> int (gave_up s)" using inv assms(5) by (simp add: race_inv_def drift_ok_def)
  ultimately show ?thesis by (auto simp: in_bounds_def)
qed

text \<open>A schedule of the CPUs inside the handler.\<close>

primrec own_steps :: "nat \<Rightarrow> (nat \<Rightarrow> u64) \<Rightarrow> nat list \<Rightarrow> race_state \<Rightarrow> race_state option" where
  "own_steps pg ktime [] s = Some s"
| "own_steps pg ktime (c # cs) s =
     (case pc_ctx (pos s c) of None \<Rightarrow> None
      | Some ctx \<Rightarrow> do {
          (p, h, l) \<leftarrow> handler_step pg ktime (pos s c) (hst s);
          own_steps pg ktime cs (s\<lparr>hst := h, pos := (pos s)(c := p),
            runs := (if p = Outside then (runs s)(c := next_pid ctx) else runs s), gave_up := gave_up s + of_bool l\<rparr>)
        })"

lemma own_steps_run:
  "own_steps pg ktime cs s = Some s' \<Longrightarrow> race_run pg ktime es s0 s \<Longrightarrow> race_run pg ktime (es @ map Own cs) s0 s'"
proof (induction cs arbitrary: s es)
  case (Cons c cs)
  then obtain ctx p h l where "pc_ctx (pos s c) = Some ctx" "handler_step pg ktime (pos s c) (hst s) = Some (p, h, l)"
    and rest: "own_steps pg ktime cs (s\<lparr>hst := h, pos := (pos s)(c := p),
      runs := (if p = Outside then (runs s)(c := next_pid ctx) else runs s), gave_up := gave_up s + of_bool l\<rparr>) = Some s'"
    by (auto simp: Option.bind_eq_Some_conv split: option.splits)
  from race_run.run_snoc [OF Cons.prems(2) race_step.step [OF this(1,2)]] Cons.IH [OF rest] show ?case by fastforce
qed simp

text \<open>
  CPU 0 switches from thread 101 to idle while CPU 1 switches from idle to thread 102. Both read
  a count of 1; CPU 0 stores 2, the swap of CPU 1 fails and it tries again.
\<close>

definition ctx_out :: switch_ctx where
  "ctx_out = \<lparr>next_pid = 0, prev_pid = 101, ctx_prev_state = 0\<rparr>"

definition ctx_in :: switch_ctx where
  "ctx_in = \<lparr>next_pid = 102, prev_pid = 0, ctx_prev_state = 0\<rparr>"

definition race_example :: race_state where
  "race_example = (race_start host_example (\<lambda>c. if c = 0 then 101 else 0))
     \<lparr>pos := (\<lambda>_. Outside)(0 := Lookup Dec ctx_out 0, 1 := Lookup Dec ctx_in 0)\<rparr>"

lemma race_example_run:
  "race_run pg ktime [Begin 0 ctx_out, Begin 1 ctx_in] (race_start host_example (\<lambda>c. if c = 0 then 101 else 0)) race_example"
proof -
  let ?s = "race_start host_example (\<lambda>c. if c = 0 then 101 else 0)"
  let ?s1 = "?s\<lparr>pos := (pos ?s)(0 := Lookup Dec ctx_out 0)\<rparr>"
  have s1: "race_step pg ktime (Begin 0 ctx_out) ?s ?s1" by (rule race_step.start) (simp_all add: race_start_def ctx_out_def)
  have s2: "race_step pg ktime (Begin 1 ctx_in) ?s1 (?s1\<lparr>pos := (pos ?s1)(1 := Lookup Dec ctx_in 0)\<rparr>)"
    by (rule race_step.start) (simp_all add: race_start_def ctx_in_def ctx_out_def holds_def)
  have "race_example = ?s1\<lparr>pos := (pos ?s1)(1 := Lookup Dec ctx_in 0)\<rparr>" by (simp add: race_example_def race_start_def)
  then show ?thesis using race_run.run_snoc [OF race_run.run_snoc [OF race_run.run_nil s1] s2] by simp
qed

lemma guest_runs_example: "shm h = shm_example \<Longrightarrow> guest_run_state 4096 h 0 = Some 1" "shm h = shm_example \<Longrightarrow> guest_run_state 4096 h 1 = Some 1"
  using host_example_runs by (auto simp: runs_omp_def guest_run_state_def host_example_def)

lemma race_example_steps:
  "\<exists>s st. own_steps 4096 ktime [0, 0, 0, 1, 1, 0, 1, 0, 1] race_example = Some s \<and> pos s 1 = Count Dec ctx_in st 1 \<and>
     gave_up s = 0 \<and> vm_view (hst s) (vm_key ''vm0'') = Some (2, 2)"
  by (simp add: race_example_def race_start_def ctx_in_def ctx_out_def host_example_def guest_runs_example TASK_RUNNING_def
      vm_at_def vm_view_def cas_attempts_def)

lemma race_example_contended:
  "\<exists>s st. own_steps 4096 ktime [0, 0, 0, 1, 1, 0, 1, 0] race_example = Some s \<and> pos s 1 = Swap Dec ctx_in st 0 1"
  by (simp add: race_example_def race_start_def ctx_in_def ctx_out_def host_example_def guest_runs_example TASK_RUNNING_def
      vm_at_def cas_attempts_def)

lemma race_example_schedule:
  "\<exists>s st. race_run 4096 ktime ([Begin 0 ctx_out, Begin 1 ctx_in] @ map Own [0, 0, 0, 1, 1, 0, 1, 0, 1])
     (race_start host_example (\<lambda>c. if c = 0 then 101 else 0)) s \<and> pos s 1 = Count Dec ctx_in st 1 \<and> gave_up s = 0 \<and>
     vm_view (hst s) (vm_key ''vm0'') = Some (2, 2)"
  using race_example_steps own_steps_run [OF _ race_example_run] by meson

theorem concurrent_switches_count_witness:
  "\<exists>es s. race_run 4096 (\<lambda>_. 0) es (race_start host_example (\<lambda>c. if c = 0 then 101 else 0)) s \<and> pos s 1 \<noteq> Outside \<and>
     vm_view (hst s) (vm_key ''vm0'') = Some (2, 2) \<and> card (counted s (vm_key ''vm0'')) = 2"
proof -
  obtain es s where s: "race_run 4096 (\<lambda>_. 0) es (race_start host_example (\<lambda>c. if c = 0 then 101 else 0)) s" "pos s 1 \<noteq> Outside"
    "gave_up s = 0" "vm_view (hst s) (vm_key ''vm0'') = Some (2, 2)" using race_example_schedule by fastforce
  have "placed_once (\<lambda>c. if c = 0 then 101 else 0)" by (simp add: placed_once_def)
  then have "sint (2 :: s64) = int (card (counted s (vm_key ''vm0'')))"
    using concurrent_switches_count [OF host_example_inv _ _ s(1,4)] s(3) by (simp add: host_example_def)
  then have "card (counted s (vm_key ''vm0'')) = 2" by simp
  then show ?thesis using s by blast
qed

lemma own_steps_shm: "own_steps pg ktime cs s = Some s' \<Longrightarrow> shm (hst s') = shm (hst s)"
proof (induction cs arbitrary: s)
  case (Cons c cs)
  have "shm h' = shm h" if "handler_step pg ktime p h = Some (p', h', l)" for p h p' h' l
    using that by (cases p) (auto simp: Let_def Option.bind_eq_Some_conv reserve_index_def store_sample_def inner_update_def split: handler_step_splits)
  with Cons show ?case by (fastforce simp: Option.bind_eq_Some_conv split: option.splits)
qed simp

text \<open>
  C18. The handler returns under any interference: in every run in which a CPU starts no further
  switch it takes at most 108 steps in the handler, and while it is inside the next one is
  always possible as long as the first backend can be read.
\<close>

theorem handler_returns:
  assumes "race_run pg ktime es s s'" and "\<forall>ctx. Begin c ctx \<notin> set es" and "pos s c = Lookup Dec ctx0 st0"
  shows "count_list es (Own c) \<le> 108 \<and>
    (pos s' c \<noteq> Outside \<and> page_size_ok pg \<and> g2h_safe pg (shm (hst s')) \<longrightarrow> (\<exists>s''. race_step pg ktime (Own c) s' s'')) \<and>
    (count_list es (Own c) = 108 \<longrightarrow> pos s' c = Outside)"
proof -
  have w: "count_list es (Own c) + work (pos s' c) \<le> 108" using run_work [OF assms(1), of c] assms(2,3) by simp
  moreover have "pos s' c = Outside" if "work (pos s' c) = 0" using that by (cases "pos s' c") simp_all
  ultimately show ?thesis using step_possible by auto
qed

theorem handler_returns_witness:
  "\<exists>es s'. race_run 4096 (\<lambda>_. 0) es race_example s' \<and> count_list es (Own 1) = 4 \<and> pos s' 1 \<noteq> Outside \<and>
     (\<exists>s''. race_step 4096 (\<lambda>_. 0) (Own 1) s' s'')"
proof -
  obtain s st where s: "own_steps 4096 (\<lambda>_. 0) [0, 0, 0, 1, 1, 0, 1, 0, 1] race_example = Some s" "pos s 1 = Count Dec ctx_in st 1"
    using race_example_steps by blast
  let ?es = "map Own [0, 0, 0, 1, 1, 0, 1, 0, 1]"
  have run: "race_run 4096 (\<lambda>_. 0) ?es race_example s" using own_steps_run [OF s(1) race_run.run_nil] by simp
  have "shm (hst s) = shm host_example" using own_steps_shm [OF s(1)] by (simp add: race_example_def race_start_def)
  then have "\<exists>s''. race_step 4096 (\<lambda>_. 0) (Own 1) s s''"
    using handler_returns [OF run, of 1 ctx_in 0] s(2) g2h_safe_example page_size_ok_4096 by (auto simp: race_example_def)
  then show ?thesis using run s(2) by (intro exI [of _ ?es] exI [of _ s]) simp
qed

text \<open>
  C25. A counter loop runs out of attempts only under contention: from its lookup on, a handler
  during which the other CPUs have taken fewer than 24 steps never gives up.
\<close>

theorem loop_survives_contention:
  assumes "race_run pg ktime es s s'" and "pos s c = Lookup oper ctx st" and "others_steps c es < 24"
    and "race_step pg ktime (Own c) s' s''"
  shows "gave_up s'' = gave_up s'"
proof -
  have ok: "attempts_ok (hst s') (others_steps c es) (pos s' c)" using run_attempts [OF assms(1)] assms(2) by simp
  from assms(4) show ?thesis
  proof (cases rule: race_step.cases)
    case (step ctx' p h l)
    then have "\<not> l" using ok assms(3) by (cases "pos s' c") (auto simp: Let_def cas_attempts_def Option.bind_eq_Some_conv split: handler_step_splits)
    then show ?thesis using step by simp
  qed
qed

theorem loop_survives_contention_witness:
  "\<exists>es s' s''. race_run 4096 (\<lambda>_. 0) es race_example s' \<and> others_steps 1 es = 5 \<and>
     race_step 4096 (\<lambda>_. 0) (Own 1) s' s'' \<and> gave_up s'' = gave_up s'"
proof -
  let ?es = "map Own [0, 0, 0, 1, 1, 0, 1, 0]"
  obtain s st where s: "own_steps 4096 (\<lambda>_. 0) [0, 0, 0, 1, 1, 0, 1, 0] race_example = Some s" "pos s 1 = Swap Dec ctx_in st 0 1"
    using race_example_contended by blast
  have run: "race_run 4096 (\<lambda>_. 0) ?es race_example s" using own_steps_run [OF s(1) race_run.run_nil] by simp
  have "shm (hst s) = shm host_example" using own_steps_shm [OF s(1)] by (simp add: race_example_def race_start_def)
  then obtain s'' where step: "race_step 4096 (\<lambda>_. 0) (Own 1) s s''"
    using step_possible [of s 1 4096] s(2) g2h_safe_example page_size_ok_4096 by auto
  have "others_steps 1 ?es = 5" by (simp add: others_steps_def)
  then show ?thesis
    using loop_survives_contention [OF run _ _ step, of Dec ctx_in 0] run step by (auto simp: race_example_def)
qed

end
