(* ===== verification/Idle_Tracker.thy ===== *)
theory Idle_Tracker
  imports Sample_Average Bpf_Timer
begin

text \<open>
  The idle tracker, \<^verbatim>\<open>pvsched-ebpf/host/ebpf/idle_avg/global_running_tracker.bpf.c\<close>:
  at every context switch of the host the number of running tasks is sampled into one of two
  buffers; every 4 ms the buffers are exchanged and the mean number of running tasks, and from
  it the mean number of idle CPUs, is stored where the phantom timer reads it. The block that
  sums the per-CPU run queues is a file the build generates; its value is the argument
  \<open>sample\<close> of the operations that include it.
\<close>

subsection \<open>State\<close>

definition COLLECTX_MAX_ENTRIES :: nat where
  "COLLECTX_MAX_ENTRIES = 3000"

record tracker =
  global_tracker_state :: "global_runnx_tracker_state bpf_array"
  collectx_buff_1 :: "global_runnx_sample bpf_array"
  collectx_buff_2 :: "global_runnx_sample bpf_array"
  tr_ktime_calls :: nat

record idle_elem =
  ie_armed :: "u64 option"
  ie_callback :: bool
  ie_started :: u64

record nr_running_avg_ctx =
  run_sum :: s64
  run_total_time :: u64
  run_nb_samples :: u32

subsection \<open>Operations\<close>

definition nr_running_avg_sample_cb ::
  "global_runnx_sample bpf_array \<Rightarrow> u32 \<Rightarrow> global_runnx_sample \<Rightarrow> nr_running_avg_ctx \<Rightarrow> nr_running_avg_ctx" where
  "nr_running_avg_sample_cb m k current_sample data =
     (if run_nb_samples data \<le> k then data
      else (case array_lookup m (k + 1) of None \<Rightarrow> data
      | Some next_sample \<Rightarrow>
          if rx_timestamp next_sample < rx_timestamp current_sample then data
          else
            let count = (if sint (rx_count current_sample) < 0 then 0 else rx_count current_sample);
                duration = rx_timestamp next_sample - rx_timestamp current_sample
            in data\<lparr>run_sum := run_sum data + count * duration,
                    run_total_time := run_total_time data + duration\<rparr>))"

text \<open>Writing the entry of the one-entry state array in place.\<close>

definition set_state :: "global_runnx_tracker_state \<Rightarrow> tracker \<Rightarrow> tracker" where
  "set_state st s = s\<lparr>global_tracker_state := snd (array_update (global_tracker_state s) 0 st)\<rparr>"

definition global_running_tracker_switch_handler :: "(nat \<Rightarrow> u64) \<Rightarrow> s64 \<Rightarrow> tracker \<Rightarrow> tracker" where
  "global_running_tracker_switch_handler ktime sample s =
     (case array_lookup (global_tracker_state s) 0 of None \<Rightarrow> s
      | Some state \<Rightarrow>
          let sample_rec = \<lparr>rx_count = sample, rx_timestamp = ktime (tr_ktime_calls s)\<rparr>;
              s1 = s\<lparr>tr_ktime_calls := Suc (tr_ktime_calls s)\<rparr>
          in if gs_is_collectx_in_buff_1 state = 1 then
               let idx = gs_buff_1_index state;
                   s2 = set_state (state\<lparr>gs_buff_1_index := idx + 1\<rparr>) s1
               in s2\<lparr>collectx_buff_1 := snd (array_update (collectx_buff_1 s2) idx sample_rec)\<rparr>
             else
               let idx = gs_buff_2_index state;
                   s2 = set_state (state\<lparr>gs_buff_2_index := idx + 1\<rparr>) s1
               in s2\<lparr>collectx_buff_2 := snd (array_update (collectx_buff_2 s2) idx sample_rec)\<rparr>)"

definition TIMER_PERIOD_NS :: u64 where
  "TIMER_PERIOD_NS = 4000000"

text \<open>The timer fires, which leaves it unarmed; \<open>ret\<close> is the answer of \<open>bpf_timer_start\<close>.\<close>

definition idle_avg_timer_cb ::
  "(nat \<Rightarrow> u64) \<Rightarrow> errno option \<Rightarrow> s64 \<Rightarrow> idle_elem \<Rightarrow> tracker \<Rightarrow> idle_elem \<times> tracker" where
  "idle_avg_timer_cb ktime ret sample val s =
     (let val' = val\<lparr>ie_armed := bpf_timer_start ret TIMER_PERIOD_NS None\<rparr> in
      case array_lookup (global_tracker_state s) 0 of None \<Rightarrow> (val', s)
      | Some state \<Rightarrow>
          let boundary = \<lparr>rx_count = sample, rx_timestamp = ktime (tr_ktime_calls s)\<rparr>;
              s1 = s\<lparr>tr_ktime_calls := Suc (tr_ktime_calls s)\<rparr>;
              (s2, state2, end_idx, map_to_process) =
                (if gs_is_collectx_in_buff_1 state = 1 then
                   let b2 = snd (array_update (collectx_buff_2 s1) 0 boundary);
                       st1 = state\<lparr>gs_buff_2_index := 1\<rparr>;
                       st2 = st1\<lparr>gs_is_collectx_in_buff_1 := 0\<rparr>;
                       end_idx = gs_buff_1_index st2;
                       st3 = st2\<lparr>gs_buff_1_index := end_idx + 1\<rparr>;
                       b1 = snd (array_update (collectx_buff_1 s1) end_idx boundary)
                   in (s1\<lparr>collectx_buff_1 := b1, collectx_buff_2 := b2\<rparr>, st3, end_idx, b1)
                 else
                   let b1 = snd (array_update (collectx_buff_1 s1) 0 boundary);
                       st1 = state\<lparr>gs_buff_1_index := 1\<rparr>;
                       st2 = (if gs_is_collectx_in_buff_1 st1 = 0
                              then st1\<lparr>gs_is_collectx_in_buff_1 := 1\<rparr> else st1);
                       end_idx = gs_buff_2_index st2;
                       st3 = st2\<lparr>gs_buff_2_index := end_idx + 1\<rparr>;
                       b2 = snd (array_update (collectx_buff_2 s1) end_idx boundary)
                   in (s1\<lparr>collectx_buff_1 := b1, collectx_buff_2 := b2\<rparr>, st3, end_idx, b2));
              avg_ctx = array_for_each (nr_running_avg_sample_cb map_to_process) map_to_process
                \<lparr>run_sum = 0, run_total_time = 0, run_nb_samples = end_idx\<rparr>;
              avg = (if 0 < run_total_time avg_ctx then run_sum avg_ctx div run_total_time avg_ctx else 0);
              idle = (if ucast (nb_cpus state2) < avg then 0 else ucast (nb_cpus state2) - avg)
          in (val', set_state (state2\<lparr>global_runnx_avg := avg, last_idle_avg := idle\<rparr>) s2))"

text \<open>The answers of \<open>bpf_timer_set_callback\<close> and \<open>bpf_timer_start\<close> are dropped.\<close>

definition global_running_tracker_timer_init :: "timer_answers \<Rightarrow> idle_elem \<Rightarrow> idle_elem" where
  "global_running_tracker_timer_init ans e =
     (let old = ie_started e; e1 = e\<lparr>ie_started := 1\<rparr> in
      if old \<noteq> 0 then e1
      else if init_ret ans \<noteq> None then
        (if ie_started e1 = 1 then e1\<lparr>ie_started := 0\<rparr> else e1)
      else
        let e2 = e1\<lparr>ie_callback := bpf_timer_set_callback (callback_ret ans) (ie_callback e1)\<rparr>
        in e2\<lparr>ie_armed := bpf_timer_start (start_ret ans) TIMER_PERIOD_NS (ie_armed e2)\<rparr>)"

subsection \<open>The callbacks meet their contracts\<close>

interpretation ravg: sample_average rx_count rx_timestamp nr_running_avg_sample_cb
  run_sum run_total_time run_nb_samples
proof unfold_locales
  fix a :: "global_runnx_sample bpf_array" and k v c
  show "run_nb_samples (nr_running_avg_sample_cb a k v c) = run_nb_samples c"
    by (simp add: nr_running_avg_sample_cb_def Let_def split: option.split)
  assume a: "arr_max a < 2 ^ 32" "unat k < arr_max a" and v: "v = arr_val a (unat k)"
  note next_k = array_lookup_next [OF a]
  show "run_sum (nr_running_avg_sample_cb a k v c) = run_sum c + word_of_int
      (if seg_used rx_timestamp a (unat (run_nb_samples c)) (unat k)
       then seg_area rx_count rx_timestamp a (unat k) else 0)"
    by (auto simp: nr_running_avg_sample_cb_def Let_def v seg_used_word [OF a] seg_area_word dest: next_k
        split: option.split)
  show "run_total_time (nr_running_avg_sample_cb a k v c) = run_total_time c + word_of_int
      (if seg_used rx_timestamp a (unat (run_nb_samples c)) (unat k)
       then seg_len rx_timestamp a (unat k) else 0)"
    by (auto simp: nr_running_avg_sample_cb_def Let_def v seg_used_word [OF a] seg_len_word dest: next_k
        split: option.split)
qed

interpretation it: retrying_timer global_running_tracker_timer_init ie_armed ie_callback ie_started TIMER_PERIOD_NS
  by unfold_locales (simp_all add: global_running_tracker_timer_init_def Let_def)

subsection \<open>One period\<close>

text \<open>
  The maps have their declared sizes and the flag is 0 or 1. The parts of the state by role:
  the entry of the state array, the buffer that is collecting, and its next index.
\<close>

definition gstate :: "tracker \<Rightarrow> global_runnx_tracker_state" where
  "gstate s = arr_val (global_tracker_state s) 0"

definition tracker_ok :: "tracker \<Rightarrow> bool" where
  "tracker_ok s \<longleftrightarrow> arr_max (global_tracker_state s) = 1 \<and> arr_max (collectx_buff_1 s) = COLLECTX_MAX_ENTRIES \<and>
     arr_max (collectx_buff_2 s) = COLLECTX_MAX_ENTRIES \<and> gs_is_collectx_in_buff_1 (gstate s) \<in> {0, 1}"

definition coll_buf :: "tracker \<Rightarrow> global_runnx_sample bpf_array" where
  "coll_buf s = (if gs_is_collectx_in_buff_1 (gstate s) = 1 then collectx_buff_1 s else collectx_buff_2 s)"

definition coll_idx :: "tracker \<Rightarrow> u32" where
  "coll_idx s = (if gs_is_collectx_in_buff_1 (gstate s) = 1 then gs_buff_1_index (gstate s) else gs_buff_2_index (gstate s))"

text \<open>A window begins: the collecting buffer holds one sample.\<close>

definition window_begins :: "tracker \<Rightarrow> global_runnx_sample \<Rightarrow> bool" where
  "window_begins s b \<longleftrightarrow> tracker_ok s \<and> coll_idx s = 1 \<and> arr_val (coll_buf s) 0 = b"

lemma lookup_state: "tracker_ok s \<Longrightarrow> array_lookup (global_tracker_state s) 0 = Some (gstate s)"
  by (simp add: tracker_ok_def array_lookup_def gstate_def)

lemma set_state_gstate: "tracker_ok s \<Longrightarrow> gstate (set_state st s) = st"
  by (simp add: tracker_ok_def set_state_def gstate_def array_update_def)

lemma set_state_frame [simp]:
  "collectx_buff_1 (set_state st s) = collectx_buff_1 s" "collectx_buff_2 (set_state st s) = collectx_buff_2 s"
  "tr_ktime_calls (set_state st s) = tr_ktime_calls s"
  "arr_max (global_tracker_state (set_state st s)) = arr_max (global_tracker_state s)"
  by (simp_all add: set_state_def bpf_simps)

lemma gstate_cong [simp]:
  "gstate (s\<lparr>tr_ktime_calls := n\<rparr>) = gstate s" "gstate (s\<lparr>collectx_buff_1 := a\<rparr>) = gstate s"
  "gstate (s\<lparr>collectx_buff_2 := a\<rparr>) = gstate s"
  "tracker_ok (s\<lparr>tr_ktime_calls := n\<rparr>) = tracker_ok s"
  by (simp_all add: gstate_def tracker_ok_def)

text \<open>A context switch appends its sample to the collecting buffer.\<close>

lemma switch_handler_step:
  assumes "tracker_ok s" and "s' = global_running_tracker_switch_handler ktime x s"
  shows "tracker_ok s'" and "coll_idx s' = coll_idx s + 1"
    and "coll_buf s' = snd (array_update (coll_buf s) (coll_idx s)
      \<lparr>rx_count = x, rx_timestamp = ktime (tr_ktime_calls s)\<rparr>)"
    and "tr_ktime_calls s' = Suc (tr_ktime_calls s)" and "nb_cpus (gstate s') = nb_cpus (gstate s)"
proof -
  note ok = assms(1)
  have "tracker_ok s' \<and> coll_idx s' = coll_idx s + 1 \<and>
      coll_buf s' = snd (array_update (coll_buf s) (coll_idx s) \<lparr>rx_count = x, rx_timestamp = ktime (tr_ktime_calls s)\<rparr>) \<and>
      tr_ktime_calls s' = Suc (tr_ktime_calls s) \<and> nb_cpus (gstate s') = nb_cpus (gstate s)"
  proof (cases "gs_is_collectx_in_buff_1 (gstate s) = 1")
    case True
    with ok show ?thesis
      unfolding assms(2) global_running_tracker_switch_handler_def
      by (simp add: lookup_state Let_def coll_idx_def coll_buf_def set_state_gstate)
        (simp add: tracker_ok_def bpf_simps set_state_gstate [unfolded tracker_ok_def])
  next
    case False
    with ok show ?thesis
      unfolding assms(2) global_running_tracker_switch_handler_def
      by (simp add: lookup_state Let_def coll_idx_def coll_buf_def set_state_gstate)
        (simp add: tracker_ok_def bpf_simps set_state_gstate [unfolded tracker_ok_def])
  qed
  then show "tracker_ok s'" and "coll_idx s' = coll_idx s + 1"
    and "coll_buf s' = snd (array_update (coll_buf s) (coll_idx s)
      \<lparr>rx_count = x, rx_timestamp = ktime (tr_ktime_calls s)\<rparr>)"
    and "tr_ktime_calls s' = Suc (tr_ktime_calls s)" and "nb_cpus (gstate s') = nb_cpus (gstate s)"
    by blast+
qed

text \<open>The samples a list of context switches adds, stamped by successive clock readings.\<close>

primrec stamped :: "(nat \<Rightarrow> u64) \<Rightarrow> nat \<Rightarrow> s64 list \<Rightarrow> global_runnx_sample list" where
  "stamped ktime c [] = []"
| "stamped ktime c (x # xs) = \<lparr>rx_count = x, rx_timestamp = ktime c\<rparr> # stamped ktime (Suc c) xs"

lemma length_stamped [simp]: "length (stamped ktime c xs) = length xs"
  by (induction xs arbitrary: c) simp_all

lemma stamped_nth:
  "k < length xs \<Longrightarrow> stamped ktime c xs ! k = \<lparr>rx_count = xs ! k, rx_timestamp = ktime (c + k)\<rparr>"
  by (induction xs arbitrary: c k) (auto simp: nth_Cons split: nat.splits)

lemma fold_switch_handler:
  assumes "tracker_ok s" and "unat (coll_idx s) = i" and "i + length xs \<le> COLLECTX_MAX_ENTRIES"
    and "s' = fold (global_running_tracker_switch_handler ktime) xs s"
  shows "tracker_ok s' \<and> unat (coll_idx s') = i + length xs \<and>
    tr_ktime_calls s' = tr_ktime_calls s + length xs \<and> nb_cpus (gstate s') = nb_cpus (gstate s) \<and>
    (\<forall>k. arr_val (coll_buf s') k =
      (if i \<le> k \<and> k < i + length xs then stamped ktime (tr_ktime_calls s) xs ! (k - i) else arr_val (coll_buf s) k))"
  using assms
proof (induction xs arbitrary: s i)
  case (Cons x xs)
  define s1 where "s1 = global_running_tracker_switch_handler ktime x s"
  note step = switch_handler_step [OF Cons.prems(1) s1_def]
  have max: "arr_max (coll_buf s) = COLLECTX_MAX_ENTRIES"
    using Cons.prems(1) by (simp add: tracker_ok_def coll_buf_def)
  have i: "unat (coll_idx s) < COLLECTX_MAX_ENTRIES" using Cons.prems(2,3) by simp
  then have idx: "unat (coll_idx s1) = Suc i"
    using Cons.prems(2) unfolding step(2) by (subst unat_add_one_no_wrap) (auto simp: COLLECTX_MAX_ENTRIES_def)
  have buf: "arr_val (coll_buf s1) k =
      (if k = i then \<lparr>rx_count = x, rx_timestamp = ktime (tr_ktime_calls s)\<rparr> else arr_val (coll_buf s) k)" for k
    using i Cons.prems(2) by (simp add: step(3) bpf_simps max)
  have "Suc i + length xs \<le> COLLECTX_MAX_ENTRIES" and "s' = fold (global_running_tracker_switch_handler ktime) xs s1"
    using Cons.prems(3,4) by (simp_all add: s1_def)
  note IH = Cons.IH [OF step(1) idx this]
  have "arr_val (coll_buf s') k = (if i \<le> k \<and> k < i + length (x # xs)
      then stamped ktime (tr_ktime_calls s) (x # xs) ! (k - i) else arr_val (coll_buf s) k)" for k
    using IH by (cases "k = i") (auto simp: buf step(4) nth_Cons' Suc_diff_le)
  then show ?case using IH step by simp
qed auto

text \<open>The quotient of one pass over a buffer.\<close>

definition running_mean :: "global_runnx_sample bpf_array \<Rightarrow> u32 \<Rightarrow> u64" where
  "running_mean a nb =
     (let c = array_for_each (nr_running_avg_sample_cb a) a \<lparr>run_sum = 0, run_total_time = 0, run_nb_samples = nb\<rparr>
      in if 0 < run_total_time c then run_sum c div run_total_time c else 0)"

definition idle_from :: "u32 \<Rightarrow> u64 \<Rightarrow> u64" where
  "idle_from n avg = (if ucast n < avg then 0 else ucast n - avg)"

text \<open>A tick closes the window with a boundary sample, which also begins the next one.\<close>

lemma timer_cb_step:
  assumes "tracker_ok s" and "(val', s') = idle_avg_timer_cb ktime ret x val s"
    and "b = \<lparr>rx_count = x, rx_timestamp = ktime (tr_ktime_calls s)\<rparr>"
    and "a = snd (array_update (coll_buf s) (coll_idx s) b)"
  shows "window_begins s' b \<and> ie_armed val' = bpf_timer_start ret TIMER_PERIOD_NS None \<and> tr_ktime_calls s' = Suc (tr_ktime_calls s) \<and>
    nb_cpus (gstate s') = nb_cpus (gstate s) \<and> global_runnx_avg (gstate s') = running_mean a (coll_idx s) \<and>
    last_idle_avg (gstate s') = idle_from (nb_cpus (gstate s)) (running_mean a (coll_idx s))"
proof (cases "gs_is_collectx_in_buff_1 (gstate s) = 1")
  case True
  with assms(1,2) show ?thesis
    unfolding assms(3,4) idle_avg_timer_cb_def running_mean_def idle_from_def
    by (simp add: lookup_state Let_def)
      (simp add: window_begins_def tracker_ok_def coll_idx_def coll_buf_def set_state_gstate [unfolded tracker_ok_def]
        bpf_simps COLLECTX_MAX_ENTRIES_def)
next
  case False
  with assms(1) have f: "gs_is_collectx_in_buff_1 (gstate s) = 0" by (simp add: tracker_ok_def)
  with assms(1,2) show ?thesis
    unfolding assms(3,4) idle_avg_timer_cb_def running_mean_def idle_from_def
    by (simp add: lookup_state Let_def)
      (simp add: window_begins_def tracker_ok_def coll_idx_def coll_buf_def set_state_gstate [unfolded tracker_ok_def]
        bpf_simps COLLECTX_MAX_ENTRIES_def)
qed

lemma running_mean_quotient:
  assumes "arr_max a < 2 ^ 32" and "weighted_area rx_count rx_timestamp a (unat nb) < 2 ^ 64"
    and "time_span rx_timestamp a (unat nb) < 2 ^ 64"
  shows "uint (running_mean a nb) =
    weighted_area rx_count rx_timestamp a (unat nb) div time_span rx_timestamp a (unat nb)"
  using ravg.for_each_quotient [of a "\<lparr>run_sum = 0, run_total_time = 0, run_nb_samples = nb\<rparr>"] assms
    time_span_nonneg [of rx_timestamp a "unat nb"]
  by (auto simp: running_mean_def Let_def)

lemma idle_from_bounds:
  shows "idle_from n avg \<le> ucast n" and "uint (idle_from n avg) = max 0 (uint n - uint avg)"
proof -
  have u: "uint (ucast n :: u64) = uint n" by (simp add: uint_up_ucast is_up)
  show "uint (idle_from n avg) = max 0 (uint n - uint avg)"
    by (auto simp: idle_from_def word_less_def u uint_sub_if' not_less max_def)
  then show "idle_from n avg \<le> ucast n" by (simp add: word_le_def u)
qed

subsection \<open>Properties\<close>

text \<open>
  C11. One whole period, from the beginning of a window over any context switches to the next
  tick, with a clock that never runs backwards: the mean stored is the exact time-weighted mean
  of the number of running tasks over the period, rounded down, each sampled value lasting
  until the next sample; the idle average is the number of CPUs less that mean, and 0 if the
  mean is larger; and the next window begins with the value sampled at the tick. The window must
  fit the buffer and the largest count times its length must fit 64 bits.
\<close>

theorem idle_period_mean:
  assumes win: "window_begins s b" and mono: "\<forall>i j. i \<le> j \<longrightarrow> ktime i \<le> ktime j"
    and b: "rx_timestamp b \<le> ktime (tr_ktime_calls s)" and len: "Suc (length xs) < COLLECTX_MAX_ENTRIES"
    and cs: "cs = rx_count b # xs"
    and ts: "ts = (\<lambda>k. if k = 0 then rx_timestamp b else ktime (tr_ktime_calls s + k - 1))"
    and n: "n = Suc (length xs)" and hi: "\<forall>k<n. max 0 (sint (cs ! k)) \<le> hi" and T: "ts 0 < ts n"
    and fits: "hi * (uint (ts n) - uint (ts 0)) < 2 ^ 64"
    and run: "(val', s') = idle_avg_timer_cb ktime ret x val (fold (global_running_tracker_switch_handler ktime) xs s)"
  shows "uint (global_runnx_avg (gstate s')) =
      (\<Sum>k<n. max 0 (sint (cs ! k)) * (uint (ts (Suc k)) - uint (ts k))) div (uint (ts n) - uint (ts 0)) \<and>
    uint (last_idle_avg (gstate s')) = max 0 (uint (nb_cpus (gstate s)) - uint (global_runnx_avg (gstate s'))) \<and>
    window_begins s' \<lparr>rx_count = x, rx_timestamp = ts n\<rparr>"
proof -
  define s1 where "s1 = fold (global_running_tracker_switch_handler ktime) xs s"
  define b1 where "b1 = \<lparr>rx_count = x, rx_timestamp = ktime (tr_ktime_calls s1)\<rparr>"
  define a where "a = snd (array_update (coll_buf s1) (coll_idx s1) b1)"
  have w: "tracker_ok s" "unat (coll_idx s) = 1" "arr_val (coll_buf s) 0 = b"
    using win by (simp_all add: window_begins_def)
  have f: "tracker_ok s1" "unat (coll_idx s1) = n" "tr_ktime_calls s1 = tr_ktime_calls s + length xs"
      "nb_cpus (gstate s1) = nb_cpus (gstate s)"
      "arr_val (coll_buf s1) k = (if 1 \<le> k \<and> k < 1 + length xs
        then stamped ktime (tr_ktime_calls s) xs ! (k - 1) else arr_val (coll_buf s) k)" for k
    using fold_switch_handler [OF w(1,2) _ s1_def] len n by auto
  have max: "arr_max (coll_buf s1) = COLLECTX_MAX_ENTRIES"
    using f(1) by (simp add: tracker_ok_def coll_buf_def)
  have smp: "arr_val a k = \<lparr>rx_count = (if k = n then x else cs ! k), rx_timestamp = ts k\<rparr>" if "k \<le> n" for k
  proof (cases "k = n")
    case True
    then show ?thesis using f len n by (simp add: a_def bpf_simps max b1_def ts)
  next
    case False
    with that f(2) f(5) [of k] w(3) n show ?thesis
      by (cases k) (auto simp: a_def bpf_simps ts cs stamped_nth)
  qed
  have max_a: "arr_max a = COLLECTX_MAX_ENTRIES" by (simp add: a_def bpf_simps max)
  have ord: "in_order rx_timestamp a n"
    using len n b mono by (auto simp: in_order_def max_a smp ts)
  have span: "time_span rx_timestamp a n = uint (ts n) - uint (ts 0)"
    using time_span_in_order [OF ord] smp [of 0] smp [of n] by simp
  have area: "weighted_area rx_count rx_timestamp a n =
      (\<Sum>k<n. max 0 (sint (cs ! k)) * (uint (ts (Suc k)) - uint (ts k)))"
    unfolding weighted_area_in_order [OF ord] by (rule sum.cong) (simp_all add: seg_area_def seg_len_def smp)
  have "weighted_area rx_count rx_timestamp a n \<le> hi * time_span rx_timestamp a n"
    by (rule weighted_area_le) (use hi smp in simp)
  then have "uint (running_mean a (coll_idx s1)) =
      weighted_area rx_count rx_timestamp a n div time_span rx_timestamp a n"
    using running_mean_quotient [of a "coll_idx s1"] fits uint_diff_bound [of "ts n" "ts 0"]
    by (simp add: max_a COLLECTX_MAX_ENTRIES_def f(2) span)
  moreover have "ts n = ktime (tr_ktime_calls s1)" by (simp add: ts n f(3))
  ultimately show ?thesis
    using timer_cb_step [OF f(1) run [folded s1_def] b1_def a_def] f(4)
    by (simp add: area span idle_from_bounds(2) b1_def)
qed

definition tracker_example :: tracker where
  "tracker_example =
     \<lparr>global_tracker_state = \<lparr>arr_max = 1, arr_val = (\<lambda>_. \<lparr>global_runnx_count = 0, gs_buff_1_index = 1,
        gs_buff_2_index = 0, gs_is_collectx_in_buff_1 = 1, nb_cpus = 8, last_idle_avg = 0, global_runnx_avg = 0\<rparr>)\<rparr>,
      collectx_buff_1 = \<lparr>arr_max = COLLECTX_MAX_ENTRIES, arr_val = (\<lambda>_. \<lparr>rx_count = 2, rx_timestamp = 10\<rparr>)\<rparr>,
      collectx_buff_2 = \<lparr>arr_max = COLLECTX_MAX_ENTRIES, arr_val = (\<lambda>_. \<lparr>rx_count = 0, rx_timestamp = 0\<rparr>)\<rparr>,
      tr_ktime_calls = 0\<rparr>"

definition clock_example :: "nat \<Rightarrow> u64" where
  "clock_example k = (if k = 0 then 20 else 40)"

theorem idle_period_mean_witness:
  "\<exists>val' s'. idle_avg_timer_cb clock_example None 0 \<lparr>ie_armed = None, ie_callback = True, ie_started = 1\<rparr>
      (fold (global_running_tracker_switch_handler clock_example) [5] tracker_example) = (val', s') \<and>
     uint (global_runnx_avg (gstate s')) = (2 * 10 + 5 * 20) div 30 \<and> uint (last_idle_avg (gstate s')) = 4"
proof -
  obtain val' s' where run: "(val', s') = idle_avg_timer_cb clock_example None 0 \<lparr>ie_armed = None, ie_callback = True, ie_started = 1\<rparr>
      (fold (global_running_tracker_switch_handler clock_example) [5] tracker_example)"
    by (metis surj_pair)
  let ?ts = "\<lambda>k. if k = 0 then rx_timestamp \<lparr>rx_count = 2, rx_timestamp = 10\<rparr>
    else clock_example (tr_ktime_calls tracker_example + k - 1)"
  have win: "window_begins tracker_example \<lparr>rx_count = 2, rx_timestamp = 10\<rparr>"
    by (simp add: window_begins_def tracker_ok_def gstate_def coll_idx_def coll_buf_def tracker_example_def)
  have mono: "\<forall>i j. i \<le> j \<longrightarrow> clock_example i \<le> clock_example j" by (simp add: clock_example_def)
  have hi: "\<forall>k<Suc (length [5 :: s64]). max 0 (sint ((rx_count \<lparr>rx_count = 2, rx_timestamp = 10\<rparr> # [5]) ! k)) \<le> 5"
    by (simp add: less_Suc_eq)
  have "nb_cpus (gstate tracker_example) = 8" and "tr_ktime_calls tracker_example = 0"
    by (simp_all add: tracker_example_def gstate_def)
  with idle_period_mean [OF win mono _ _ refl refl refl hi _ _ run]
  have "uint (global_runnx_avg (gstate s')) = 4 \<and> uint (last_idle_avg (gstate s')) = 4"
    by (simp add: clock_example_def COLLECTX_MAX_ENTRIES_def)
  with run [symmetric] show ?thesis by (intro exI [of _ val'] exI [of _ s']) simp
qed

text \<open>
  C31. Whatever is in the buffers, a tick arms the timer again, unless \<open>bpf_timer_start\<close>
  refuses, and stores an idle average that is at most the number of CPUs; mean and idle average add up to the number of CPUs unless the
  mean exceeds it, in which case the idle average is 0.
\<close>

theorem idle_avg_timer_cb_bounds:
  assumes "tracker_ok s" and "idle_avg_timer_cb ktime ret x val s = (val', s')"
  shows "ie_armed val' = (if ret = None then Some TIMER_PERIOD_NS else None) \<and> nb_cpus (gstate s') = nb_cpus (gstate s) \<and>
    last_idle_avg (gstate s') \<le> ucast (nb_cpus (gstate s)) \<and>
    (if ucast (nb_cpus (gstate s)) < global_runnx_avg (gstate s') then last_idle_avg (gstate s') = 0
     else last_idle_avg (gstate s') + global_runnx_avg (gstate s') = ucast (nb_cpus (gstate s)))"
  using timer_cb_step [OF assms(1) assms(2) [symmetric] refl refl] idle_from_bounds(1)
  by (simp add: idle_from_def bpf_timer_start_def)

theorem idle_avg_timer_cb_bounds_witness:
  "\<exists>val' s'. idle_avg_timer_cb clock_example None 100 \<lparr>ie_armed = None, ie_callback = True, ie_started = 1\<rparr> tracker_example = (val', s') \<and>
     last_idle_avg (gstate s') \<le> 8"
proof -
  obtain val' s' where run:
    "idle_avg_timer_cb clock_example None 100 \<lparr>ie_armed = None, ie_callback = True, ie_started = 1\<rparr> tracker_example = (val', s')"
    by (metis surj_pair)
  have "tracker_ok tracker_example" by (simp add: tracker_ok_def gstate_def tracker_example_def)
  from idle_avg_timer_cb_bounds [OF this run] run show ?thesis
    by (simp add: gstate_def tracker_example_def)
qed

end
