(* ===== verification/H2G_Timer.thy ===== *)
theory H2G_Timer
  imports Phantom_Timer
begin

text \<open>
  The message timer \<^verbatim>\<open>pvsched-ebpf/host/h2g_msg_timer/h2g_msg_timer.bpf.c\<close>: every 4 ms
  it publishes the current time, in microseconds, to the next history slot.
\<close>

record h2g_msg_timer =
  ht_armed :: "u64 option"
  ht_hg_msg :: hg_message
  ht_started :: u32
  ht_index :: u32

definition H2G_MSG_TIMER_PERIOD_NS :: u64 where
  "H2G_MSG_TIMER_PERIOD_NS = 4000000"

text \<open>
  \<open>now\<close> is the reading of the clock and \<open>start_ans\<close> the answer of \<open>bpf_timer_start\<close>; it
  and the error code of the write are ignored. The timer has fired, so it is not armed.
\<close>

definition h2g_msg_timer_callback ::
  "nat \<Rightarrow> errno option \<Rightarrow> u64 \<Rightarrow> h2g_msg_timer \<Rightarrow> host_registry \<Rightarrow> (h2g_msg_timer \<times> host_registry) option" where
  "h2g_msg_timer_callback pg start_ans now hg_timer r =
     (let t1 = hg_timer\<lparr>ht_index := ht_index hg_timer + 1\<rparr>;
          t2 = (if NR_HOST_IVSHMEM_MSGS pg \<le> unat (ht_index t1)
                then t1\<lparr>ht_index := of_nat H2G_FIRST_HISTORY_SLOT\<rparr> else t1);
          t3 = (if unat (ht_index t2) < H2G_FIRST_HISTORY_SLOT
                then t2\<lparr>ht_index := of_nat H2G_FIRST_HISTORY_SLOT\<rparr> else t2);
          t4 = t3\<lparr>ht_hg_msg := (ht_hg_msg t3)\<lparr>hg_msg := now div 1000\<rparr>\<rparr>
      in do {
        (ret, r') \<leftarrow> bpf_host_ivshmem_h2g_write pg r (ht_index t4) (Some (ht_hg_msg t4));
        Some (t4\<lparr>ht_armed := bpf_timer_start start_ans H2G_MSG_TIMER_PERIOD_NS None\<rparr>, r')
      })"

definition h2g_msg_timer_init ::
  "nat \<Rightarrow> timer_answers \<Rightarrow> h2g_msg_timer \<Rightarrow> host_registry \<Rightarrow> (h2g_msg_timer \<times> host_registry) option" where
  "h2g_msg_timer_init pg ans hg_timer r =
     (if ht_started hg_timer \<noteq> 0 then Some (hg_timer, r)
      else
        let t1 = hg_timer\<lparr>ht_started := 1, ht_hg_msg := hg_message_zero, ht_index := 0\<rparr> in
        if init_ret ans \<noteq> None then Some (t1, r)
        else if callback_ret ans \<noteq> None then Some (t1, r)
        else do {
          (ret, r') \<leftarrow> bpf_host_ivshmem_h2g_write pg r (ht_index t1) (Some (ht_hg_msg t1));
          Some (t1\<lparr>ht_armed := bpf_timer_start (start_ret ans) H2G_MSG_TIMER_PERIOD_NS (ht_armed t1)\<rparr>, r')
        })"

text \<open>
  Successive ticks, and successive calls of the starting program. A tick happens only if the one
  before it armed the timer again; \<open>start_ans\<close> is the answer the last one gets.
\<close>

primrec h2g_ticks ::
  "nat \<Rightarrow> errno option \<Rightarrow> u64 list \<Rightarrow> h2g_msg_timer \<Rightarrow> host_registry \<Rightarrow> (h2g_msg_timer \<times> host_registry) option" where
  "h2g_ticks pg start_ans [] t r = Some (t, r)"
| "h2g_ticks pg start_ans (now # nows) t r = do {
     (t1, r1) \<leftarrow> h2g_msg_timer_callback pg (if nows = [] then start_ans else None) now t r;
     h2g_ticks pg start_ans nows t1 r1
   }"

primrec h2g_inits ::
  "nat \<Rightarrow> timer_answers list \<Rightarrow> h2g_msg_timer \<Rightarrow> host_registry \<Rightarrow>
    (h2g_msg_timer \<times> host_registry) option" where
  "h2g_inits pg [] t r = Some (t, r)"
| "h2g_inits pg (ans # anss) t r = do {
     (t1, r1) \<leftarrow> h2g_msg_timer_init pg ans t r;
     h2g_inits pg anss t1 r1
   }"

subsection \<open>Lemmas\<close>

text \<open>Only the message word of a message is written.\<close>

lemma h2g_write_publish:
  "map_option snd (bpf_host_ivshmem_h2g_write pg r i (Some g)) = h2g_publish pg r i (hg_msg g)"
  by (simp add: h2g_publish_def bpf_host_ivshmem_h2g_write_def host_ivshmem_h2g_write_msg_def Let_def
      split: option.split)

text \<open>The slot of the next tick.\<close>

definition tick_slot :: "nat \<Rightarrow> nat \<Rightarrow> nat" where
  "tick_slot pg i = 1 + i mod H2G_HISTORY_SLOT_COUNT pg"

lemma tick_slot_range: "page_size_ok pg \<Longrightarrow> 0 < tick_slot pg i \<and> tick_slot pg i < NR_HOST_IVSHMEM_MSGS pg"
  using history_slot_count by (simp add: tick_slot_def)

lemma tick_slot_next: "tick_slot pg (tick_slot pg i + k) = tick_slot pg (Suc i + k)"
  using mod_add_left_eq [of i "H2G_HISTORY_SLOT_COUNT pg" "Suc k"] by (simp add: tick_slot_def)

lemma callback_tick:
  assumes pg: "page_size_ok pg" and i: "unat (ht_index t) < NR_HOST_IVSHMEM_MSGS pg"
    and pub: "h2g_publish pg r (of_nat (tick_slot pg (unat (ht_index t)))) (now div 1000) = Some r'"
  shows "\<exists>t'. h2g_msg_timer_callback pg start_ans now t r = Some (t', r') \<and>
    unat (ht_index t') = tick_slot pg (unat (ht_index t)) \<and>
    ht_armed t' = (if start_ans = None then Some H2G_MSG_TIMER_PERIOD_NS else None)"
proof -
  let ?i = "unat (ht_index t)"
  have nr: "NR_HOST_IVSHMEM_MSGS pg = H2G_HISTORY_SLOT_COUNT pg + 1" "H2G_HISTORY_SLOT_COUNT pg < 1024"
    using history_slot_count [OF pg] by auto
  have next_i: "unat (ht_index t + 1) = Suc ?i" using i nr by (subst unat_add_one_no_wrap) auto
  have slot: "tick_slot pg ?i = (if NR_HOST_IVSHMEM_MSGS pg \<le> Suc ?i then 1 else Suc ?i)"
  proof (cases "NR_HOST_IVSHMEM_MSGS pg \<le> Suc ?i")
    case True
    with i nr have "?i = H2G_HISTORY_SLOT_COUNT pg" by simp
    with True show ?thesis by (simp add: tick_slot_def)
  next
    case False
    with nr show ?thesis by (simp add: tick_slot_def)
  qed
  define j where "j = (if NR_HOST_IVSHMEM_MSGS pg \<le> Suc ?i then 1 else ht_index t + 1)"
  have j: "unat j = tick_slot pg ?i" using next_i by (auto simp: j_def slot)
  then have jw: "j = of_nat (tick_slot pg ?i)" unfolding j [symmetric] by simp
  define t' where "t' = t\<lparr>ht_index := j, ht_hg_msg := (ht_hg_msg t)\<lparr>hg_msg := now div 1000\<rparr>,
    ht_armed := if start_ans = None then Some H2G_MSG_TIMER_PERIOD_NS else None\<rparr>"
  have "map_option snd (bpf_host_ivshmem_h2g_write pg r j (Some ((ht_hg_msg t)\<lparr>hg_msg := now div 1000\<rparr>))) = Some r'"
    using pub by (simp add: h2g_write_publish jw)
  then obtain e where w: "bpf_host_ivshmem_h2g_write pg r j (Some ((ht_hg_msg t)\<lparr>hg_msg := now div 1000\<rparr>)) = Some (e, r')"
    by auto
  have "h2g_msg_timer_callback pg start_ans now t r = Some (t', r')"
    using w next_i
    by (auto simp: bpf_timer_start_def h2g_msg_timer_callback_def Let_def H2G_FIRST_HISTORY_SLOT_def j_def t'_def split: if_splits)
  then show ?thesis using j by (auto simp: t'_def)
qed

text \<open>What a sequence of ticks publishes.\<close>

primrec tick_pubs :: "nat \<Rightarrow> nat \<Rightarrow> u64 list \<Rightarrow> (u32 \<times> u64) list" where
  "tick_pubs pg i [] = []"
| "tick_pubs pg i (now # nows) = (of_nat (tick_slot pg i), now div 1000) # tick_pubs pg (Suc i) nows"

lemma tick_slot_unat: "page_size_ok pg \<Longrightarrow> unat (of_nat (tick_slot pg i) :: u32) = tick_slot pg i"
  using tick_slot_range [of pg i] history_slot_count(2,3) [of pg] by (simp add: unat_of_nat_u32)

lemma tick_pubs_cong: "tick_pubs pg (tick_slot pg i + k) nows = tick_pubs pg (Suc i + k) nows"
  by (induction nows arbitrary: k) (simp_all add: tick_slot_next flip: add_Suc_right)

lemma tick_pubs_slots:
  assumes "page_size_ok pg"
  shows "unat ` fst ` set (tick_pubs pg i nows) = (\<lambda>k. tick_slot pg (i + k)) ` {..<length nows}"
proof (induction nows arbitrary: i)
  case (Cons now nows)
  have "{..<Suc (length nows)} = insert 0 (Suc ` {..<length nows})" by (rule lessThan_Suc_eq_insert_0)
  with Cons.IH [of "Suc i"] show ?case by (simp add: tick_slot_unat [OF assms] image_image)
qed simp

lemma h2g_ticks_publish:
  assumes pg: "page_size_ok pg" and "h2g_ready pg r" and "unat (ht_index t) < NR_HOST_IVSHMEM_MSGS pg"
  shows "\<exists>t' r'. h2g_ticks pg start_ans nows t r = Some (t', r') \<and>
    publish_all (h2g_publish pg) r (tick_pubs pg (unat (ht_index t)) nows) = Some r' \<and>
    (nows \<noteq> [] \<longrightarrow> ht_armed t' = (if start_ans = None then Some H2G_MSG_TIMER_PERIOD_NS else None))"
  using assms(2,3)
proof (induction nows arbitrary: t r)
  case (Cons now nows)
  let ?i = "unat (ht_index t)"
  have range: "0 < unat (of_nat (tick_slot pg ?i) :: u32)" "unat (of_nat (tick_slot pg ?i) :: u32) < NR_HOST_IVSHMEM_MSGS pg"
    using tick_slot_range [OF pg, of ?i] by (simp_all add: tick_slot_unat [OF pg])
  obtain r1 where r1: "h2g_publish pg r (of_nat (tick_slot pg ?i)) (now div 1000) = Some r1" "h2g_ready pg r1"
    using h2g_publish_ready [OF pg Cons.prems(1) range] by blast
  let ?ans = "if nows = [] then start_ans else None"
  obtain t1 where t1: "h2g_msg_timer_callback pg ?ans now t r = Some (t1, r1)" "unat (ht_index t1) = tick_slot pg ?i"
      "ht_armed t1 = (if ?ans = None then Some H2G_MSG_TIMER_PERIOD_NS else None)"
    using callback_tick [OF pg Cons.prems(2) r1(1), of ?ans] by blast
  have "unat (ht_index t1) < NR_HOST_IVSHMEM_MSGS pg" using t1(2) tick_slot_range [OF pg] by simp
  from Cons.IH [OF r1(2) this] obtain t' r' where rest: "h2g_ticks pg start_ans nows t1 r1 = Some (t', r')"
      "publish_all (h2g_publish pg) r1 (tick_pubs pg (tick_slot pg ?i) nows) = Some r'"
      "nows \<noteq> [] \<longrightarrow> ht_armed t' = (if start_ans = None then Some H2G_MSG_TIMER_PERIOD_NS else None)"
    unfolding t1(2) by blast
  have "ht_armed t' = (if start_ans = None then Some H2G_MSG_TIMER_PERIOD_NS else None)"
    using rest(1,3) t1(3) by (cases nows) auto
  with t1(1) r1(1) rest(1,2) tick_pubs_cong [of pg ?i 0 nows] show ?case by simp
qed simp

lemma last_write_other: "\<forall>x \<in> set ws. unat (fst x) \<noteq> j \<Longrightarrow> last_write j ws d = d"
  by (induction ws arbitrary: d) auto

lemma tick_slot_distinct:
  assumes "0 < k" and "k < H2G_HISTORY_SLOT_COUNT pg"
  shows "tick_slot pg (i + k) \<noteq> tick_slot pg i"
proof -
  have "inj_on (\<lambda>k. k mod H2G_HISTORY_SLOT_COUNT pg) {i..<i + H2G_HISTORY_SLOT_COUNT pg}"
    using mod_window(2) assms by simp
  from inj_onD [OF this, of "i + k" i] show ?thesis using assms by (auto simp: tick_slot_def)
qed

lemma last_write_tick_pubs:
  assumes "page_size_ok pg" and "k < length nows" and "length nows \<le> k + H2G_HISTORY_SLOT_COUNT pg"
  shows "last_write (tick_slot pg (i + k)) (tick_pubs pg i nows) d = (nows ! k) div 1000"
  using assms(2,3)
proof (induction nows arbitrary: i k d)
  case (Cons now nows)
  show ?case
  proof (cases k)
    case 0
    have "tick_slot pg (Suc i + m) \<noteq> tick_slot pg i" if "m < length nows" for m
      using tick_slot_distinct [of "Suc m" pg i] that Cons.prems(2) 0 by simp
    then have "tick_slot pg i \<notin> unat ` fst ` set (tick_pubs pg (Suc i) nows)"
      unfolding tick_pubs_slots [OF assms(1)] by (metis (no_types, lifting) imageE lessThan_iff)
    then have "\<forall>x \<in> set (tick_pubs pg (Suc i) nows). unat (fst x) \<noteq> tick_slot pg i"
      by (metis imageI)
    with 0 show ?thesis by (simp add: tick_slot_unat [OF assms(1)] last_write_other)
  next
    case (Suc m)
    with Cons.prems Cons.IH [of m "Suc i"] show ?thesis by simp
  qed
qed simp

subsection \<open>Properties\<close>

text \<open>
  C32. After any number of ticks the page of slots is the record of the most recent ones: the
  latest slot holds the time of the last tick in microseconds, and each of the last ticks, as
  many as there are history slots, is still in its own history slot. The timer is armed again
  unless \<open>bpf_timer_start\<close> refused in the last tick.
\<close>

theorem h2g_ticks_history:
  assumes "page_size_ok pg" and "h2g_ready pg r" and "unat (ht_index t) < NR_HOST_IVSHMEM_MSGS pg" and "nows \<noteq> []"
  shows "\<exists>t' r'. h2g_ticks pg start_ans nows t r = Some (t', r') \<and>
    ht_armed t' = (if start_ans = None then Some H2G_MSG_TIMER_PERIOD_NS else None) \<and>
    h2g_slot pg r' 0 = last nows div 1000 \<and>
    (\<forall>k<length nows. length nows \<le> k + H2G_HISTORY_SLOT_COUNT pg \<longrightarrow>
      h2g_slot pg r' (1 + (unat (ht_index t) + k) mod H2G_HISTORY_SLOT_COUNT pg) = (nows ! k) div 1000)"
proof -
  let ?i = "unat (ht_index t)" and ?ws = "tick_pubs pg (unat (ht_index t)) nows"
  obtain t' r' where run: "h2g_ticks pg start_ans nows t r = Some (t', r')" "publish_all (h2g_publish pg) r ?ws = Some r'"
      "ht_armed t' = (if start_ans = None then Some H2G_MSG_TIMER_PERIOD_NS else None)"
    using h2g_ticks_publish [OF assms(1-3), of start_ans nows] assms(4) by blast
  have "unat i \<in> {1..<NR_HOST_IVSHMEM_MSGS pg}" if "(i, v) \<in> set ?ws" for i v
  proof -
    have "unat i \<in> unat ` fst ` set ?ws" using that by force
    then show ?thesis
      unfolding tick_pubs_slots [OF assms(1)] using tick_slot_range [OF assms(1)] by (auto simp: Suc_le_eq)
  qed
  then have "h2g.valid_slots pg ?ws" by (auto simp: h2g.valid_slots_def Suc_le_eq)
  note slots = h2g.publish_all_slots [OF conjI [OF assms(1,2)] run(2) this]
  have last: "?ws \<noteq> [] \<and> snd (last ?ws) = last nows div 1000"
  proof -
    have "nows \<noteq> [] \<Longrightarrow> tick_pubs pg i nows \<noteq> [] \<and> snd (last (tick_pubs pg i nows)) = last nows div 1000" for i
      by (induction nows arbitrary: i) (auto split: if_splits)
    with assms(4) show ?thesis by blast
  qed
  have "h2g_slot pg r' (tick_slot pg (?i + k)) = (nows ! k) div 1000"
    if "k < length nows" "length nows \<le> k + H2G_HISTORY_SLOT_COUNT pg" for k
    using slots(2) [of "tick_slot pg (?i + k)"] tick_slot_range [OF assms(1)] last_write_tick_pubs [OF assms(1) that]
    by simp
  with run slots(1) last show ?thesis by (simp add: tick_slot_def)
qed

theorem h2g_ticks_history_witness:
  "\<exists>r t' r'. h2g_ticks 4096 None [5000, 9000]
      \<lparr>ht_armed = None, ht_hg_msg = hg_message_zero, ht_started = 1, ht_index = 63\<rparr> r = Some (t', r') \<and>
     h2g_slot 4096 r' 0 = 9 \<and> h2g_slot 4096 r' 1 = 5 \<and> h2g_slot 4096 r' 2 = 9"
proof -
  let ?t = "\<lparr>ht_armed = None, ht_hg_msg = hg_message_zero, ht_started = 1, ht_index = 63\<rparr>"
  obtain r where r: "h2g_ready 4096 r" using ready_registry_example by blast
  have "unat (ht_index ?t) < NR_HOST_IVSHMEM_MSGS 4096" by (simp add: abi_defs)
  from h2g_ticks_history [OF page_size_ok_4096 r this, of "[5000, 9000]" None]
  obtain t' r' where "h2g_ticks 4096 None [5000, 9000] ?t r = Some (t', r')" "h2g_slot 4096 r' 0 = 9"
    and slots: "\<forall>k<2. h2g_slot 4096 r' (1 + (63 + k) mod 63) = ([5000, 9000] ! k) div 1000"
    by (auto simp: H2G_HISTORY_SLOT_COUNT_def abi_defs)
  moreover have "h2g_slot 4096 r' 1 = 5" "h2g_slot 4096 r' 2 = 9"
    using slots [rule_format, of 0] slots [rule_format, of 1] by (simp_all flip: numeral_2_eq_2)
  ultimately show ?thesis by blast
qed

text \<open>
  Two ways in which the starting program does less than it seems to: its own first message
  goes to slot 0, which the kernel module refuses, so nothing reaches the guest before the first
  tick; and when one of the three timer calls of the first attempt fails, the flag stays set, so
  that no later call ever arms the timer.
\<close>

theorem h2g_msg_timer_init_defects:
  assumes "ht_started t = 0" and "ht_armed t = None"
  shows "(\<exists>t'. h2g_msg_timer_init pg \<lparr>init_ret = None, callback_ret = None, start_ret = None\<rparr> t r = Some (t', r) \<and>
      ht_armed t' = Some H2G_MSG_TIMER_PERIOD_NS) \<and>
    (\<forall>ans anss. init_ret ans \<noteq> None \<or> callback_ret ans \<noteq> None \<or> start_ret ans \<noteq> None \<longrightarrow>
      (\<exists>t'. h2g_inits pg (ans # anss) t r = Some (t', r) \<and> ht_armed t' = None))"
proof -
  have refused: "\<exists>e. bpf_host_ivshmem_h2g_write pg r 0 (Some hg_message_zero) = Some (Some e, r)"
    by (simp add: bpf_host_ivshmem_h2g_write_def host_ivshmem_h2g_write_msg_def abi_defs split: option.split)
  have stuck: "ht_started t \<noteq> 0 \<Longrightarrow> h2g_inits pg anss t r = Some (t, r)" for anss t
    by (induction anss) (simp_all add: h2g_msg_timer_init_def)
  show ?thesis
    using refused assms by (auto simp: h2g_msg_timer_init_def Let_def stuck bpf_timer_start_def)
qed

theorem h2g_msg_timer_init_defects_witness:
  "\<exists>t'. h2g_inits 4096 [\<lparr>init_ret = Some ENOMEM, callback_ret = None, start_ret = None\<rparr>,
      \<lparr>init_ret = None, callback_ret = None, start_ret = None\<rparr>]
      \<lparr>ht_armed = None, ht_hg_msg = hg_message_zero, ht_started = 0, ht_index = 0\<rparr> registry_zero = Some (t', registry_zero) \<and>
     ht_armed t' = None"
  using h2g_msg_timer_init_defects [of "\<lparr>ht_armed = None, ht_hg_msg = hg_message_zero, ht_started = 0, ht_index = 0\<rparr>"
      4096 registry_zero] by (simp del: h2g_inits.simps)

end
