(* ===== verification/C_Text.thy ===== *)
theory C_Text
  imports Pvsched_Abi "HOL-Library.Sublist"
begin

text \<open>
  The text functions of the C library the userspace tools use: \<open>strstr\<close>, the decimal
  conversions of \<open>sscanf\<close>, \<open>atoi\<close> and \<open>strtol\<close>, and printing a number with \<open>%d\<close>. Strings
  are C strings without their NUL.
\<close>

subsection \<open>Searching\<close>

text \<open>The suffix of \<open>s\<close> that starts at the first occurrence of \<open>k\<close>; \<open>None\<close> is NULL.\<close>

fun strstr :: "string \<Rightarrow> string \<Rightarrow> string option" where
  "strstr [] k = (if k = [] then Some [] else None)"
| "strstr (c # s) k = (if prefix k (c # s) then Some (c # s) else strstr s k)"

text \<open>No proper prefix of the word is also a suffix of it.\<close>

definition unbordered :: "string \<Rightarrow> bool" where
  "unbordered k \<longleftrightarrow> k \<noteq> [] \<and> (\<forall>j \<in> set [1..<length k]. drop j k \<noteq> take (length k - j) k)"

lemma strstr_length: "strstr s k = Some t \<Longrightarrow> length t \<le> length s"
  by (induction s) (auto split: if_splits)

lemma strstr_prefix: "strstr s k = Some t \<Longrightarrow> prefix k t"
  by (induction s) (auto split: if_splits)

lemma strstr_skip:
  assumes "k \<noteq> []" and "hd k \<notin> set xs"
  shows "strstr (xs @ ys) k = strstr ys k"
  using assms(2)
proof (induction xs)
  case Nil
  then show ?case by simp
next
  case (Cons x xs)
  then show ?case using assms(1) by (cases k) auto
qed

text \<open>An occurrence that starts before an unbordered word lies wholly before it.\<close>

lemma unbordered_no_overlap:
  assumes "unbordered k" and "A \<noteq> []" and "prefix k (A @ k @ B)"
  shows "prefix k A"
proof (rule ccontr)
  assume no: "\<not> prefix k A"
  have le: "length A < length k"
  proof (rule ccontr)
    assume "\<not> length A < length k"
    with assms(3) have "prefix k A" by (intro prefix_length_prefix [OF assms(3)]) auto
    with no show False ..
  qed
  have "prefix A k" by (rule prefix_length_prefix [OF _ assms(3)]) (use le in auto)
  then obtain k' where k': "k = A @ k'" by (auto simp: prefix_def)
  then have "prefix k' (k @ B)" using assms(3) by simp
  then have "prefix k' k" by (rule prefix_length_prefix) (use k' in auto)
  then have "k' = take (length k - length A) k" using k' by (metis append_eq_conv_conj prefix_def length_drop append_take_drop_id)
  moreover have "drop (length A) k = k'" using k' by simp
  moreover have "length A \<in> set [1..<length k]" using le assms(2) by (simp add: Suc_leI)
  ultimately show False using assms(1) unfolding unbordered_def by auto
qed

lemma strstr_first:
  assumes "unbordered k" and "strstr A k = None"
  shows "strstr (A @ k @ B) k = Some (k @ B)"
  using assms(2)
proof (induction A)
  case Nil
  obtain c k' where "k = c # k'" using assms(1) by (cases k) (auto simp: unbordered_def)
  then show ?case by simp
next
  case (Cons c A)
  then have "\<not> prefix k (c # A)" "strstr A k = None" by (auto split: if_splits)
  moreover from this have "\<not> prefix k ((c # A) @ k @ B)" using unbordered_no_overlap [OF assms(1), of "c # A" B] by blast
  ultimately show ?case using Cons.IH by simp
qed

subsection \<open>Decimal numbers\<close>

definition is_digit :: "char \<Rightarrow> bool" where
  "is_digit c \<longleftrightarrow> 48 \<le> (of_char c :: nat) \<and> (of_char c :: nat) \<le> 57"

definition is_space :: "char \<Rightarrow> bool" where
  "is_space c \<longleftrightarrow> (of_char c :: nat) = 32 \<or> 9 \<le> (of_char c :: nat) \<and> (of_char c :: nat) \<le> 13"

definition digits_val :: "string \<Rightarrow> nat" where
  "digits_val s = foldl (\<lambda>n c. 10 * n + (of_char c - 48)) 0 s"

text \<open>
  What the decimal conversions share: white space, a sign, digits. The result is the number
  and the text behind it; \<open>None\<close> when there is no digit.
\<close>

definition scan_number :: "string \<Rightarrow> (int \<times> string) option" where
  "scan_number s =
     (let s1 = dropWhile is_space s;
          neg = (s1 \<noteq> [] \<and> hd s1 = CHR ''-'');
          s2 = (if s1 \<noteq> [] \<and> (hd s1 = CHR ''-'' \<or> hd s1 = CHR ''+'') then tl s1 else s1);
          ds = takeWhile is_digit s2
      in if ds = [] then None
         else Some ((if neg then - int (digits_val ds) else int (digits_val ds)), dropWhile is_digit s2))"

definition fits_int :: "int \<Rightarrow> bool" where
  "fits_int v \<longleftrightarrow> - (2 ^ 31) \<le> v \<and> v < 2 ^ 31"

text \<open>
  \<open>sscanf(s, "%d", &v)\<close> leaves \<open>v\<close> alone when no number is there. A number that does not
  fit an \<open>int\<close> is undefined behaviour in C, here and in \<open>atoi\<close>: \<open>None\<close>.
\<close>

definition sscanf_d :: "string \<Rightarrow> int \<Rightarrow> int option" where
  "sscanf_d s v =
     (case scan_number s of None \<Rightarrow> Some v
      | Some (w, rest) \<Rightarrow> if fits_int w then Some w else None)"

definition atoi :: "string \<Rightarrow> int option" where
  "atoi s = (case scan_number s of None \<Rightarrow> Some 0
     | Some (w, rest) \<Rightarrow> if fits_int w then Some w else None)"

text \<open>
  \<open>strtol(s, &end, 10)\<close>: the value, whether \<open>errno\<close> is set, and the text at \<open>end\<close>. A value
  out of range is replaced by the nearest \<open>long\<close>.
\<close>

definition strtol :: "string \<Rightarrow> int \<times> bool \<times> string" where
  "strtol s =
     (case scan_number s of None \<Rightarrow> (0, False, s)
      | Some (w, rest) \<Rightarrow>
          if w < - (2 ^ 63) then (- (2 ^ 63), True, rest)
          else if 2 ^ 63 \<le> w then (2 ^ 63 - 1, True, rest)
          else (w, False, rest))"

fun show_nat :: "nat \<Rightarrow> string" where
  "show_nat n = (if n < 10 then [char_of (48 + n)] else show_nat (n div 10) @ [char_of (48 + n mod 10)])"

declare show_nat.simps [simp del]

definition show_int :: "int \<Rightarrow> string" where
  "show_int i = (if i < 0 then CHR ''-'' # show_nat (nat (- i)) else show_nat (nat i))"

lemma of_char_digit: "d < 10 \<Longrightarrow> (of_char (char_of (48 + d) :: char) :: nat) = 48 + d"
  by simp

lemma show_nat_digits: "c \<in> set (show_nat n) \<Longrightarrow> is_digit c"
proof (induction n rule: show_nat.induct)
  case (1 n)
  have "n mod 10 < 10" by simp
  with 1 show ?case
    by (cases "n < 10") (auto simp: show_nat.simps [of n] is_digit_def of_char_digit)
qed

lemma show_nat_ne [simp]: "show_nat n \<noteq> []"
  by (subst show_nat.simps) simp

lemma digits_val_snoc: "digits_val (s @ [c]) = 10 * digits_val s + (of_char c - 48)"
  by (simp add: digits_val_def)

lemma digits_val_show: "digits_val (show_nat n) = n"
proof (induction n rule: show_nat.induct)
  case (1 n)
  show ?case
  proof (cases "n < 10")
    case True
    then show ?thesis by (simp add: show_nat.simps [of n] digits_val_def)
  next
    case False
    then have "digits_val (show_nat n) = 10 * (n div 10) + n mod 10"
      using 1 by (simp add: show_nat.simps [of n] digits_val_snoc)
    then show ?thesis by simp
  qed
qed

lemma digit_not_space: "is_digit c \<Longrightarrow> \<not> is_space c"
  by (auto simp: is_digit_def is_space_def)

lemma digit_not_sign: "is_digit c \<Longrightarrow> c \<noteq> CHR ''-'' \<and> c \<noteq> CHR ''+'' \<and> c \<noteq> CHR ''{'' \<and> c \<noteq> CHR 0x22"
  by (auto simp: is_digit_def)

text \<open>Reading back what was printed.\<close>

lemma takeWhile_digits:
  assumes "rest = [] \<or> \<not> is_digit (hd rest)"
  shows "takeWhile is_digit (show_nat n @ rest) = show_nat n" "dropWhile is_digit (show_nat n @ rest) = rest"
  using assms show_nat_digits [of _ n] by (cases rest; simp)+

lemma scan_show_nat:
  assumes "rest = [] \<or> \<not> is_digit (hd rest)"
  shows "scan_number (show_nat n @ rest) = Some (int n, rest)"
proof -
  obtain c t where ct: "show_nat n = c # t" by (cases "show_nat n") auto
  then have c: "is_digit c" using show_nat_digits [of c n] by simp
  have sp: "dropWhile is_space (show_nat n @ rest) = show_nat n @ rest"
    using digit_not_space [OF c] by (simp add: ct)
  have "hd (show_nat n @ rest) = c" by (simp add: ct)
  with digit_not_sign [OF c] show ?thesis
    by (simp add: scan_number_def sp takeWhile_digits [OF assms] digits_val_show)
qed

lemma scan_show_int:
  assumes "rest = [] \<or> \<not> is_digit (hd rest)"
  shows "scan_number (show_int i @ rest) = Some (i, rest)"
proof (cases "i < 0")
  case True
  have "\<not> is_space CHR ''-''" by (simp add: is_space_def)
  then show ?thesis
    using True by (simp add: show_int_def scan_number_def takeWhile_digits [OF assms] digits_val_show)
next
  case False
  then show ?thesis using scan_show_nat [OF assms, of "nat i"] by (simp add: show_int_def)
qed

lemma show_int_chars: "c \<in> set (show_int i) \<Longrightarrow> c \<noteq> CHR ''{'' \<and> c \<noteq> CHR 0x22"
  using show_nat_digits [of c] digit_not_sign [of c] by (auto simp: show_int_def split: if_splits)

end
