(* ===== verification/Backend_Tool.thy ===== *)
theory Backend_Tool
  imports Host_Ivshmem C_Text
begin

text \<open>
  The command \<^verbatim>\<open>pvsched-shmem/host/usr/register_vm_backend.c\<close>, which asks the host module for a
  backend through the control device and prints the number and size it was given. \<open>open_ok\<close>,
  \<open>copy_in\<close> and \<open>copy_out\<close> are the kernel's answers to opening the device and copying the request.
\<close>

definition register_vm_backend_main ::
  "nat \<Rightarrow> kenv \<Rightarrow> bool \<Rightarrow> bool \<Rightarrow> bool \<Rightarrow> bool \<Rightarrow> string list \<Rightarrow> host_registry \<Rightarrow>
    (nat \<times> string \<times> host_registry) option" where
  "register_vm_backend_main pg env dbg_root open_ok copy_in copy_out args r =
     (case args of [arg] \<Rightarrow>
        let (nb_cpu_arg, range_error, endptr) = strtol arg in
        if range_error \<or> endptr \<noteq> [] \<or> nb_cpu_arg \<le> 0 then Some (1, '''', r)
        else
          let req = \<lparr>nb_cpu = of_int nb_cpu_arg, backend_name = 0, vm_id = 0, req_size = 0\<rparr> in
          if \<not> open_ok then Some (1, '''', r)
          else do {
            (ret, r', out) \<leftarrow> host_registry_ioctl pg env dbg_root (if copy_in then Some req else None) copy_out r PHANT_REG;
            (case ret of Some _ \<Rightarrow> Some (1, '''', r')
             | None \<Rightarrow>
                 let req' = (case out of Some q \<Rightarrow> q | None \<Rightarrow> req) in
                 Some (0, show_int (sint (vm_id req')) @ '' '' @ show_nat (unat (req_size req')) @ [CHR 0x0A], r'))
          }
      | _ \<Rightarrow> Some (1, '''', r))"

subsection \<open>Lemmas\<close>

lemma scan_report:
  "scan_number (show_int i @ '' '' @ show_nat k @ [CHR 0x0A]) = Some (i, '' '' @ show_nat k @ [CHR 0x0A])"
  "scan_number ('' '' @ show_nat k @ [CHR 0x0A]) = Some (int k, [CHR 0x0A])"
proof -
  have sp: "\<not> is_digit CHR '' ''" "is_space CHR '' ''" "\<not> is_digit CHR 0x0A" by (simp_all add: is_digit_def is_space_def)
  show "scan_number (show_int i @ '' '' @ show_nat k @ [CHR 0x0A]) = Some (i, '' '' @ show_nat k @ [CHR 0x0A])"
    by (rule scan_show_int) (simp add: sp(1))
  have "scan_number ('' '' @ t) = scan_number t" for t using sp(2) by (simp add: scan_number_def)
  then show "scan_number ('' '' @ show_nat k @ [CHR 0x0A]) = Some (int k, [CHR 0x0A])"
    using scan_show_nat [of "[CHR 0x0A]" k] sp(3) by simp
qed

lemma strtol_show:
  assumes "0 < fst (strtol (show_int n))" and "n < 2 ^ 32"
  shows "strtol (show_int n) = (n, False, [])" and "0 < n"
proof -
  show "0 < n" using assms scan_show_int [of "[]" n] by (auto simp: strtol_def split: if_splits)
  then show "strtol (show_int n) = (n, False, [])" using assms(2) scan_show_int [of "[]" n] by (simp add: strtol_def)
qed

lemma new_backend_size:
  assumes "page_size_ok pg" and "rounds_up_pow2 f" and "0 < n" and "n < 2 ^ 32" and "backend_ok pg b"
    and "be_size b = f (backend_bytes pg (of_int n))"
  shows "g2h_mapped pg b \<and> HOST_IVSHMEM_G2H_OFFSET pg + nat n * GUEST_IVSHMEM_MSG_SIZE \<le> unat (be_size b)"
proof -
  have un: "unat (of_int n :: u32) = nat n"
    using assms(3,4) by (simp add: unat_eq_nat_uint uint_word_of_int_eq take_bit_int_eq_self)
  then have "0 < (of_int n :: u32)" using assms(3) by (simp add: word_less_nat_alt)
  then have "3 * pg \<le> unat (be_size b)" using backend_size_g2h(2) [OF assms(1,2)] by (simp add: assms(6))
  moreover have "2 * pg + nat n * 64 \<le> unat (be_size b)"
  proof -
    have "0 < pg" using page_size_okD(1) [OF assms(1)] by simp
    from pages_cover [OF this, of "nat n * 64"]
    have "2 * pg + nat n * 64 \<le> (2 + (nat n * 64 + pg - 1) div pg) * pg" by (simp add: algebra_simps)
    also have "\<dots> \<le> unat (be_size b)" using backend_size_bounds [OF assms(1,2), of "of_int n"] un by (simp add: assms(6))
    finally show ?thesis .
  qed
  ultimately show ?thesis using assms(5) by (simp add: g2h_mapped_def abi_defs)
qed

subsection \<open>Properties\<close>

text \<open>A run that reaches the ioctl, for a request of the number of vCPUs read from the argument.\<close>

definition backend_request :: "string \<Rightarrow> vm_reg_req" where
  "backend_request arg = \<lparr>nb_cpu = of_int (fst (strtol arg)), backend_name = 0, vm_id = 0, req_size = 0\<rparr>"

definition accepted :: "string list \<Rightarrow> string \<Rightarrow> bool" where
  "accepted args arg \<longleftrightarrow> args = [arg] \<and> \<not> fst (snd (strtol arg)) \<and> snd (snd (strtol arg)) = [] \<and> 0 < fst (strtol arg)"

lemma backend_main_refused:
  assumes "\<not> ((\<exists>arg. accepted args arg) \<and> open_ok \<and> copy_in)"
  shows "\<exists>out. register_vm_backend_main pg env dbg_root open_ok copy_in copy_out args r = Some (1, out, r)"
  using assms by (auto simp: accepted_def register_vm_backend_main_def host_registry_ioctl_def case_prod_unfold Let_def split: list.splits)

lemma backend_main_asks:
  assumes "accepted args arg" and "open_ok" and "copy_in"
  shows "register_vm_backend_main pg env dbg_root open_ok copy_in copy_out args r =
    (case host_registry_ioctl pg env dbg_root (Some (backend_request arg)) copy_out r PHANT_REG of None \<Rightarrow> None
     | Some (Some _, r', _) \<Rightarrow> Some (1, '''', r')
     | Some (None, r', out) \<Rightarrow> let req' = (case out of Some q \<Rightarrow> q | None \<Rightarrow> backend_request arg) in
         Some (0, show_int (sint (vm_id req')) @ '' '' @ show_nat (unat (req_size req')) @ [CHR 0x0A], r'))"
  using assms by (auto simp: accepted_def backend_request_def register_vm_backend_main_def case_prod_unfold Let_def split: option.splits)

text \<open>
  C39. The command never makes the module access memory outside a backend and keeps the registry
  invariant, whatever its arguments and whatever the kernel answers. When it succeeds for a
  number of vCPUs that fits 32 bits, it prints the identifier and the size, both readable back
  from the text, of a new backend whose guest-to-host region is mapped for every vCPU.
\<close>

theorem register_vm_backend_main_ok:
  assumes "page_size_ok pg" and "rounds_up_pow2 (roundup_pow_of_two env)" and "registry_inv pg r"
  shows "\<exists>code out r'. register_vm_backend_main pg env dbg_root open_ok copy_in copy_out args r = Some (code, out, r') \<and>
    registry_inv pg r' \<and> (code = 0 \<or> code = 1) \<and>
    (\<forall>n. code = 0 \<and> args = [show_int n] \<and> n < 2 ^ 32 \<longrightarrow>
      (\<exists>i sz rest b. scan_number out = Some (i, rest) \<and> scan_number rest = Some (sz, [CHR 0x0A]) \<and>
        devices r (nat (i + 1)) = None \<and> devices r' (nat (i + 1)) = Some b \<and> int (unat (be_size b)) = sz \<and> g2h_mapped pg b \<and>
        HOST_IVSHMEM_G2H_OFFSET pg + nat n * GUEST_IVSHMEM_MSG_SIZE \<le> nat sz))"
proof (cases "(\<exists>arg. accepted args arg) \<and> open_ok \<and> copy_in")
  case False
  then show ?thesis using backend_main_refused [OF False, of pg env dbg_root copy_out r] assms(3) by auto
next
  case True
  then obtain arg where arg: "accepted args arg" and ok: open_ok copy_in by auto
  note unf = backend_main_asks [OF arg ok, of pg env dbg_root copy_out r]
  show ?thesis
    using assms
  proof (cases rule: host_register_vm_cases [where dbg = dbg_root and req = "backend_request arg"])
    case (registered b)
    let ?id = "next_vm_id r"
    let ?r = "r\<lparr>next_vm_id := ?id + 1, devices := (devices r)(nat (sint ?id + 1) := Some b)\<rparr>"
    have inv: "registry_inv pg ?r" "devices r (nat (sint ?id + 1)) = None"
      using registry_inv_registered [OF assms(3) registered(2-4)] by auto
    show ?thesis
    proof (cases copy_out)
      case False
      then have "register_vm_backend_main pg env dbg_root open_ok copy_in copy_out args r = Some (1, '''', ?r)"
        using unf registered(1) by (simp add: host_registry_ioctl_def)
      then show ?thesis using inv(1) by auto
    next
      case True
      let ?out = "show_int (sint ?id) @ '' '' @ show_nat (unat (be_size b)) @ [CHR 0x0A]"
      have run: "register_vm_backend_main pg env dbg_root open_ok copy_in copy_out args r = Some (0, ?out, ?r)"
        using unf registered(1) True by (simp add: host_registry_ioctl_def backend_request_def)
      have big: "g2h_mapped pg b \<and> HOST_IVSHMEM_G2H_OFFSET pg + nat n * GUEST_IVSHMEM_MSG_SIZE \<le> unat (be_size b)"
        if n: "args = [show_int n]" "n < 2 ^ 32" for n
      proof -
        have st: "strtol arg = (n, False, [])" "0 < n" using strtol_show [of n] arg n by (auto simp: accepted_def)
        show ?thesis by (rule new_backend_size [OF assms(1,2) st(2) n(2) registered(3)]) (use registered(5) in \<open>simp add: st(1) backend_request_def\<close>)
      qed
      show ?thesis
        by (intro exI [of _ "0 :: nat"] exI [of _ ?out] exI [of _ ?r] conjI allI impI run inv(1) disjI1 refl, elim conjE,
            intro exI [of _ "sint ?id"] exI [of _ "int (unat (be_size b))"] exI [of _ "'' '' @ show_nat (unat (be_size b)) @ [CHR 0x0A]"] exI [of _ b])
          (use scan_report inv(2) big in simp)
    qed
  qed (use unf assms(3) registry_inv_skip_id in \<open>auto simp: host_registry_ioctl_def\<close>)
qed

theorem register_vm_backend_main_ok_witness:
  "\<exists>out r' b. register_vm_backend_main 4096 kenv_ok True True True True [''4''] registry_zero = Some (0, out, r') \<and>
     devices r' 1 = Some b \<and> g2h_mapped 4096 b"
proof -
  have f: "rounds_up_pow2 (roundup_pow_of_two kenv_ok)" by (simp add: kenv_ok_def rounds_up_pow2_roundup)
  have arg: "show_int 4 = ''4''" by code_simp
  obtain out r' code where r: "register_vm_backend_main 4096 kenv_ok True True True True [''4''] registry_zero = Some (code, out, r')"
    and c: "\<forall>n. code = 0 \<and> [''4''] = [show_int n] \<and> n < 2 ^ 32 \<longrightarrow> (\<exists>i sz rest b. scan_number out = Some (i, rest) \<and>
      scan_number rest = Some (sz, [CHR 0x0A]) \<and> devices registry_zero (nat (i + 1)) = None \<and> devices r' (nat (i + 1)) = Some b \<and>
      int (unat (be_size b)) = sz \<and> g2h_mapped 4096 b \<and> HOST_IVSHMEM_G2H_OFFSET 4096 + nat n * GUEST_IVSHMEM_MSG_SIZE \<le> nat sz)"
    using register_vm_backend_main_ok [OF page_size_ok_4096 f registry_inv_zero, of True True True True "[''4'']"] by metis
  have st: "strtol ''4'' = (4, False, [])" using scan_show_int [of "[]" 4] by (simp add: strtol_def arg)
  obtain req' q where e: "host_register_vm 4096 kenv_ok True registry_zero
      \<lparr>nb_cpu = 4, backend_name = 0, vm_id = 0, req_size = 0\<rparr> = Some (Inr req', q)" using register_ok_example [of 4] by blast
  have id: "vm_id req' = 0"
    using page_size_ok_4096 f registry_inv_zero
  proof (cases rule: host_register_vm_cases [where dbg = True and req = "\<lparr>nb_cpu = 4, backend_name = 0, vm_id = 0, req_size = 0\<rparr>"])
    case (registered b)
    then show ?thesis using e by (auto simp: registry_zero_def)
  qed (use e in auto)
  have run: "code = 0" "r' = q" "out = show_int 0 @ '' '' @ show_nat (unat (req_size req')) @ [CHR 0x0A]"
    using r e id by (auto simp: register_vm_backend_main_def st host_registry_ioctl_def)
  have "scan_number out = Some (0, '' '' @ show_nat (unat (req_size req')) @ [CHR 0x0A])"
    unfolding run(3) by (rule scan_show_int) (simp add: is_digit_def)
  with spec [OF c, of 4] run(1) obtain b where "devices r' 1 = Some b" "g2h_mapped 4096 b" by (auto simp: arg)
  with r run(1) show ?thesis by blast
qed

text \<open>
  A number that does not fit 32 bits is cut when it is stored in the request: 4294967296 asks
  for zero vCPUs, and the module's first read of guest state leaves the backend.
\<close>

lemma register_vm_backend_main_truncates:
  "\<exists>out r'. register_vm_backend_main 4096 kenv_ok True True True True [''4294967296''] registry_zero = Some (0, out, r') \<and>
     bpf_host_ivshmem_g2h_read 4096 r' 0 (Some gh_message_zero) = None"
proof -
  obtain req' r' where r: "host_register_vm 4096 kenv_ok True registry_zero
      \<lparr>nb_cpu = 0, backend_name = 0, vm_id = 0, req_size = 0\<rparr> = Some (Inr req', r')"
      "bpf_host_ivshmem_g2h_read 4096 r' 0 (Some gh_message_zero) = None"
    using host_register_vm_zero_cpus_faults_witness by blast
  have "strtol ''4294967296'' = (4294967296, False, [])"
    by (simp add: strtol_def scan_number_def is_digit_def is_space_def digits_val_def)
  moreover have wrap: "(4294967296 :: u32) = 0" by simp
  ultimately show ?thesis using r by (simp add: register_vm_backend_main_def host_registry_ioctl_def Let_def wrap)
qed

end
