(* ===== verification/Guest_Ivshmem.thy ===== *)
theory Guest_Ivshmem
  imports Pvsched_Abi
begin

text \<open>
  The guest kernel module \<^verbatim>\<open>pvsched-shmem/guest/guest_ivshmem.c\<close>: binding to the
  ivshmem device, the function exported to the guest's eBPF program, the character device
  through which userspace maps the host's messages, and module load and unload. Device
  structures are heap objects named by numbers, so that a freed one can be told from a live
  one; what the kernel answers is the environment. A result \<open>None\<close> of an operation is an
  access to freed, absent or unmapped memory.
\<close>

subsection \<open>State\<close>

text \<open>\<open>gd_g2h_page\<close> is a mapping of BAR 2: its offset in the BAR and its length.\<close>

record guest_ivshmem_device =
  gd_pdev :: nat
  gd_g2h_page :: "(nat \<times> nat) option"
  gd_size :: u64
  gd_h2g_phy_page :: u64
  gd_h2g_page_size :: u64
  gd_metadata_phy_page :: u64

definition guest_zero :: guest_ivshmem_device where
  "guest_zero = \<lparr>gd_pdev = 0, gd_g2h_page = None, gd_size = 0, gd_h2g_phy_page = 0,
     gd_h2g_page_size = 0, gd_metadata_phy_page = 0\<rparr>"

text \<open>
  \<open>lock_depth\<close> counts \<open>mutex_lock\<close> less \<open>mutex_unlock\<close> of \<open>guest_ivshmem_lock\<close>;
  \<open>enabled\<close>, \<open>region\<close> and \<open>iomaps\<close> are what the driver holds of each PCI device;
  \<open>bars\<close> is the content of its BAR 2; \<open>cdev_at\<close> is the structure whose embedded
  \<open>cdev\<close> is registered.
\<close>

record guest_state =
  objs :: "nat \<Rightarrow> guest_ivshmem_device option"
  next_obj :: nat
  guest_ivshmem :: "nat option"
  lock_depth :: int
  drvdata :: "nat \<Rightarrow> nat option"
  enabled :: "nat \<Rightarrow> bool"
  region :: "nat \<Rightarrow> bool"
  iomaps :: "nat \<Rightarrow> int"
  bars :: "nat \<Rightarrow> mem"
  chrdev_region :: bool
  guest_class :: bool
  cdev_at :: "nat option"
  dev_node :: bool
  guest_kfuncs :: bool

record pci_env =
  g_kzalloc_ok :: bool
  enable_ret :: "errno option"
  bar_is_mem :: bool
  bar_len :: u64
  bar_start :: u64
  request_ret :: "errno option"
  pci_iomap_range :: "u64 \<Rightarrow> u64 \<Rightarrow> (nat \<times> nat) option"

definition GUEST_IVSHMEM_METADATA_OFFSET :: u64 where
  "GUEST_IVSHMEM_METADATA_OFFSET = 0"

definition GUEST_IVSHMEM_METADATA_SIZE :: "nat \<Rightarrow> u64" where
  "GUEST_IVSHMEM_METADATA_SIZE pg = of_nat pg"

subsection \<open>File operations\<close>

definition guest_ivshmem_open :: "guest_state \<Rightarrow> nat option" where
  "guest_ivshmem_open s = guest_ivshmem s"

definition guest_ivshmem_release :: "guest_state \<Rightarrow> nat option" where
  "guest_ivshmem_release s = None"

text \<open>
  Mapping \<open>npages\<close> pages from page offset \<open>pgoff\<close>; \<open>remap_ret\<close> is the answer of
  \<open>remap_pfn_range\<close>. The result is the first page frame and the length in bytes. A shift by
  \<open>PAGE_SHIFT\<close> is a multiplication or division by the page size.
\<close>

definition guest_ivshmem_mmap ::
  "nat \<Rightarrow> errno option \<Rightarrow> nat option \<Rightarrow> u64 \<Rightarrow> u64 \<Rightarrow> guest_state \<Rightarrow> (errno + u64 \<times> u64) option" where
  "guest_ivshmem_mmap pg remap_ret private_data pgoff npages s =
     (case private_data of None \<Rightarrow> None | Some g \<Rightarrow>
     (case objs s g of None \<Rightarrow> None | Some guest \<Rightarrow>
       let total_size = GUEST_IVSHMEM_METADATA_SIZE pg + gd_h2g_page_size guest;
           offset = pgoff * of_nat pg;
           len = npages * of_nat pg
       in if total_size \<le> offset \<or> total_size - offset < len then Some (Inl EINVAL)
          else (case remap_ret of Some e \<Rightarrow> Some (Inl e)
                | None \<Rightarrow> Some (Inr ((gd_metadata_phy_page guest + offset) div of_nat pg, len)))))"

subsection \<open>The character device\<close>

record chr_env =
  alloc_chrdev_ret :: "errno option"
  class_create_ret :: "errno option"
  g_cdev_add_ret :: "errno option"
  g_device_create_ret :: "errno option"

definition guest_ivshmem_register_chardev :: "chr_env \<Rightarrow> guest_state \<Rightarrow> (errno option \<times> guest_state) option" where
  "guest_ivshmem_register_chardev env s =
     (case alloc_chrdev_ret env of Some e \<Rightarrow> Some (Some e, s) | None \<Rightarrow>
      let s1 = s\<lparr>chrdev_region := True\<rparr> in
      case class_create_ret env of
        Some e \<Rightarrow> Some (Some e, s1\<lparr>guest_class := False, chrdev_region := False\<rparr>)
      | None \<Rightarrow>
          let s2 = s1\<lparr>guest_class := True\<rparr> in
          (case guest_ivshmem s2 of None \<Rightarrow> None | Some g \<Rightarrow>
           if objs s2 g = None then None
           else (case g_cdev_add_ret env of
                   Some e \<Rightarrow> Some (Some e, s2\<lparr>guest_class := False, chrdev_region := False\<rparr>)
                 | None \<Rightarrow>
                     let s3 = s2\<lparr>cdev_at := Some g\<rparr> in
                     (case g_device_create_ret env of
                        Some e \<Rightarrow> Some (Some e, s3\<lparr>cdev_at := None, guest_class := False, chrdev_region := False\<rparr>)
                      | None \<Rightarrow> Some (None, s3\<lparr>dev_node := True\<rparr>)))))"

definition guest_ivshmem_unregister_chardev :: "guest_state \<Rightarrow> guest_state option" where
  "guest_ivshmem_unregister_chardev s =
     (if \<not> guest_class s then Some s
      else
        let s1 = s\<lparr>dev_node := False\<rparr> in
        (case guest_ivshmem s1 of None \<Rightarrow> None | Some g \<Rightarrow>
         if objs s1 g = None then None
         else Some (s1\<lparr>cdev_at := (if cdev_at s1 = Some g then None else cdev_at s1),
                guest_class := False, chrdev_region := False\<rparr>)))"

subsection \<open>The exported function\<close>

definition guest_ivshmem_g2h_write_msg ::
  "nat \<Rightarrow> u32 \<Rightarrow> gh_message option \<Rightarrow> guest_state \<Rightarrow> (errno option \<times> guest_state) option" where
  "guest_ivshmem_g2h_write_msg pg index gh s =
     (case gh of None \<Rightarrow> Some (Some EINVAL, s) | Some msg \<Rightarrow>
      if NR_GUEST_IVSHMEM_MSGS pg \<le> unat index then Some (Some EINVAL, s)
      else (case guest_ivshmem s of None \<Rightarrow> Some (Some ENODEV, s) | Some g \<Rightarrow>
           (case objs s g of None \<Rightarrow> None | Some guest \<Rightarrow>
           (case gd_g2h_page guest of None \<Rightarrow> Some (Some EIO, s) | Some (base, len) \<Rightarrow>
             let slot = unat index * GUEST_IVSHMEM_MSG_SIZE in
             if slot + 8 \<le> len
             then Some (None, s\<lparr>bars := (bars s)(gd_pdev guest :=
                    store_le 8 (bars s (gd_pdev guest)) (base + slot) (gh_msg msg))\<rparr>)
             else None))))"

definition bpf_guest_ivshmem_g2h_write ::
  "nat \<Rightarrow> u32 \<Rightarrow> gh_message option \<Rightarrow> guest_state \<Rightarrow> (errno option \<times> guest_state) option" where
  "bpf_guest_ivshmem_g2h_write pg index gh s = guest_ivshmem_g2h_write_msg pg index gh s"

subsection \<open>Binding a device\<close>

definition err_free_guest :: "nat \<Rightarrow> errno \<Rightarrow> guest_state \<Rightarrow> errno option \<times> guest_state" where
  "err_free_guest g e s = (Some e, s\<lparr>objs := (objs s)(g := None)\<rparr>)"

definition err_disable_device :: "nat \<Rightarrow> nat \<Rightarrow> errno \<Rightarrow> guest_state \<Rightarrow> errno option \<times> guest_state" where
  "err_disable_device pdev g e s = err_free_guest g e (s\<lparr>enabled := (enabled s)(pdev := False)\<rparr>)"

definition err_release_region :: "nat \<Rightarrow> nat \<Rightarrow> errno \<Rightarrow> guest_state \<Rightarrow> errno option \<times> guest_state" where
  "err_release_region pdev g e s = err_disable_device pdev g e (s\<lparr>region := (region s)(pdev := False)\<rparr>)"

text \<open>
  The last part of the probe, once the header has been read: checks, mapping, publication.
\<close>

definition probe_header ::
  "nat \<Rightarrow> pci_env \<Rightarrow> nat \<Rightarrow> nat \<Rightarrow> ivshmem_header \<Rightarrow> guest_state \<Rightarrow> errno option \<times> guest_state" where
  "probe_header pg env pdev g hdr s =
     (if magic hdr \<noteq> PVSCHED_MAGIC \<or> version hdr \<noteq> PVSCHED_VERSION then err_release_region pdev g EINVAL s
      else if h2g_page_offset hdr \<noteq> GUEST_IVSHMEM_METADATA_OFFSET + GUEST_IVSHMEM_METADATA_SIZE pg
      then err_release_region pdev g EINVAL s
      else if bar_len env < g2h_page_offset hdr + g2h_page_size hdr then err_release_region pdev g EINVAL s
      else (case pci_iomap_range env (g2h_page_offset hdr) (g2h_page_size hdr) of
              None \<Rightarrow> err_release_region pdev g ENOMEM s
            | Some page \<Rightarrow>
                let s1 = s\<lparr>iomaps := (iomaps s)(pdev := iomaps s pdev + 1)\<rparr>;
                    guest = \<lparr>gd_pdev = pdev, gd_g2h_page = Some page, gd_size = bar_len env,
                      gd_h2g_phy_page = bar_start env + h2g_page_offset hdr,
                      gd_h2g_page_size = h2g_page_size hdr,
                      gd_metadata_phy_page = bar_start env + GUEST_IVSHMEM_METADATA_OFFSET\<rparr>;
                    s2 = s1\<lparr>objs := (objs s1)(g := Some guest)\<rparr>;
                    s3 = s2\<lparr>lock_depth := lock_depth s2 + 1\<rparr>;
                    s4 = (if guest_ivshmem s3 \<noteq> None then s3\<lparr>lock_depth := lock_depth s3 - 1\<rparr> else s3);
                    s5 = s4\<lparr>drvdata := (drvdata s4)(pdev := Some g), guest_ivshmem := Some g\<rparr>
                in (None, s5\<lparr>lock_depth := lock_depth s5 - 1\<rparr>)))"

definition guest_ivshmem_probe ::
  "nat \<Rightarrow> pci_env \<Rightarrow> nat \<Rightarrow> guest_state \<Rightarrow> (errno option \<times> guest_state) option" where
  "guest_ivshmem_probe pg env pdev s =
     (if \<not> g_kzalloc_ok env then Some (Some ENOMEM, s)
      else
        let g = next_obj s; s0 = s\<lparr>objs := (objs s)(g := Some guest_zero), next_obj := Suc g\<rparr> in
        case enable_ret env of Some e \<Rightarrow> Some (err_free_guest g e s0) | None \<Rightarrow>
        let s1 = s0\<lparr>enabled := (enabled s0)(pdev := True)\<rparr> in
        if \<not> bar_is_mem env then Some (err_disable_device pdev g ENODEV s1)
        else if bar_len env < GUEST_IVSHMEM_METADATA_SIZE pg then Some (err_disable_device pdev g EINVAL s1)
        else (case request_ret env of Some e \<Rightarrow> Some (err_disable_device pdev g e s1) | None \<Rightarrow>
          let s2 = s1\<lparr>region := (region s1)(pdev := True)\<rparr> in
          (case pci_iomap_range env GUEST_IVSHMEM_METADATA_OFFSET (GUEST_IVSHMEM_METADATA_SIZE pg) of
             None \<Rightarrow> Some (err_release_region pdev g ENOMEM s2)
           | Some (base, len) \<Rightarrow>
               let s3 = s2\<lparr>iomaps := (iomaps s2)(pdev := iomaps s2 pdev + 1)\<rparr> in
               (case load_header len (\<lambda>x. bars s3 pdev (base + x)) of None \<Rightarrow> None
                | Some hdr \<Rightarrow>
                    let s4 = s3\<lparr>iomaps := (iomaps s3)(pdev := iomaps s3 pdev - 1)\<rparr>
                    in Some (probe_header pg env pdev g hdr s4)))))"

definition guest_ivshmem_remove :: "nat \<Rightarrow> guest_state \<Rightarrow> guest_state option" where
  "guest_ivshmem_remove pdev s =
     (case drvdata s pdev of None \<Rightarrow> Some s | Some g \<Rightarrow>
        let s1 = s\<lparr>drvdata := (drvdata s)(pdev := None), lock_depth := lock_depth s + 1\<rparr>;
            s2 = (if guest_ivshmem s1 \<noteq> Some g then s1 else s1\<lparr>guest_ivshmem := None\<rparr>);
            s3 = s2\<lparr>lock_depth := lock_depth s2 - 1\<rparr>
        in (case objs s3 g of None \<Rightarrow> None | Some guest \<Rightarrow>
              Some (s3\<lparr>iomaps := (iomaps s3)(pdev := iomaps s3 pdev - 1), region := (region s3)(pdev := False),
                enabled := (enabled s3)(pdev := False), objs := (objs s3)(g := None)\<rparr>)))"

subsection \<open>Module load and unload\<close>

text \<open>
  Registering the driver makes the PCI core call \<open>probe\<close> for every matching device, in turn;
  unregistering it makes the core call \<open>remove\<close> for every bound one.
\<close>

primrec probe_all :: "nat \<Rightarrow> (nat \<times> pci_env) list \<Rightarrow> guest_state \<Rightarrow> guest_state option" where
  "probe_all pg [] s = Some s"
| "probe_all pg (d # ds) s = do {
     (ret, s1) \<leftarrow> guest_ivshmem_probe pg (snd d) (fst d) s;
     probe_all pg ds s1
   }"

primrec remove_all :: "nat list \<Rightarrow> guest_state \<Rightarrow> guest_state option" where
  "remove_all [] s = Some s"
| "remove_all (d # ds) s = do { s1 \<leftarrow> guest_ivshmem_remove d s; remove_all ds s1 }"

record ginit_env =
  register_ret :: "errno option"
  pci_devices :: "(nat \<times> pci_env) list"
  kfunc_ret :: "errno option"
  chr_answers :: chr_env

definition guest_ivshmem_init :: "nat \<Rightarrow> ginit_env \<Rightarrow> guest_state \<Rightarrow> (errno option \<times> guest_state) option" where
  "guest_ivshmem_init pg env s =
     (let devs = List.map fst (pci_devices env) in
      if pg mod GUEST_IVSHMEM_MSG_SIZE \<noteq> 0 then Some (Some EINVAL, s)
      else (case register_ret env of Some e \<Rightarrow> Some (Some e, s) | None \<Rightarrow> do {
        s1 \<leftarrow> probe_all pg (pci_devices env) s;
        if guest_ivshmem s1 = None then do { s2 \<leftarrow> remove_all devs s1; Some (Some ENODEV, s2) }
        else (case kfunc_ret env of Some e \<Rightarrow> do { s2 \<leftarrow> remove_all devs s1; Some (Some e, s2) }
          | None \<Rightarrow> do {
              (ret, s2) \<leftarrow> guest_ivshmem_register_chardev (chr_answers env) (s1\<lparr>guest_kfuncs := True\<rparr>);
              (case ret of Some e \<Rightarrow> do { s3 \<leftarrow> remove_all devs s2; Some (Some e, s3) }
               | None \<Rightarrow> Some (None, s2))
            })
      }))"

definition guest_ivshmem_exit :: "nat list \<Rightarrow> guest_state \<Rightarrow> guest_state option" where
  "guest_ivshmem_exit devs s = do {
     s1 \<leftarrow> guest_ivshmem_unregister_chardev s;
     remove_all devs s1
   }"

subsection \<open>What probing does\<close>

text \<open>
  What the kernel documents of \<open>pci_iomap_range\<close>: the mapping starts at the offset, which
  must lie inside the BAR, and reaches to the end of the BAR or over the length asked for,
  whichever is shorter; length 0 means to the end.
\<close>

definition iomap_ok :: "pci_env \<Rightarrow> bool" where
  "iomap_ok env \<longleftrightarrow> (\<forall>off len base n. pci_iomap_range env off len = Some (base, n) \<longrightarrow>
     base = unat off \<and> off < bar_len env \<and>
     n = (if len = 0 then unat (bar_len env) - unat off else min (unat (bar_len env) - unat off) (unat len)))"

definition device_of :: "nat \<Rightarrow> pci_env \<Rightarrow> nat \<Rightarrow> ivshmem_header \<Rightarrow> nat \<times> nat \<Rightarrow> guest_ivshmem_device" where
  "device_of pg env pdev hdr page =
     \<lparr>gd_pdev = pdev, gd_g2h_page = Some page, gd_size = bar_len env,
      gd_h2g_phy_page = bar_start env + h2g_page_offset hdr, gd_h2g_page_size = h2g_page_size hdr,
      gd_metadata_phy_page = bar_start env + GUEST_IVSHMEM_METADATA_OFFSET\<rparr>"

definition bound_state :: "nat \<Rightarrow> pci_env \<Rightarrow> nat \<Rightarrow> ivshmem_header \<Rightarrow> nat \<times> nat \<Rightarrow> guest_state \<Rightarrow> guest_state" where
  "bound_state pg env pdev hdr page s =
     s\<lparr>objs := (objs s)(next_obj s := Some (device_of pg env pdev hdr page)), next_obj := Suc (next_obj s),
       enabled := (enabled s)(pdev := True), region := (region s)(pdev := True),
       iomaps := (iomaps s)(pdev := iomaps s pdev + 1),
       lock_depth := lock_depth s - (if guest_ivshmem s = None then 0 else 1),
       drvdata := (drvdata s)(pdev := Some (next_obj s)), guest_ivshmem := Some (next_obj s)\<rparr>"

text \<open>A PCI device the driver holds nothing of, and a heap with a free object number.\<close>

definition unbound :: "nat \<Rightarrow> guest_state \<Rightarrow> bool" where
  "unbound pdev s \<longleftrightarrow> objs s (next_obj s) = None \<and> \<not> enabled s pdev \<and> \<not> region s pdev \<and> drvdata s pdev = None"

definition hdr_ok :: "nat \<Rightarrow> pci_env \<Rightarrow> ivshmem_header \<Rightarrow> bool" where
  "hdr_ok pg env hdr \<longleftrightarrow> magic hdr = PVSCHED_MAGIC \<and> version hdr = PVSCHED_VERSION \<and>
     h2g_page_offset hdr = of_nat pg \<and> g2h_page_offset hdr + g2h_page_size hdr \<le> bar_len env"

text \<open>The state when the header has been read.\<close>

definition entry_state :: "nat \<Rightarrow> guest_state \<Rightarrow> guest_state" where
  "entry_state pdev s = s\<lparr>objs := (objs s)(next_obj s := Some guest_zero), next_obj := Suc (next_obj s),
     enabled := (enabled s)(pdev := True), region := (region s)(pdev := True)\<rparr>"

lemmas probe_errs = err_release_region_def err_disable_device_def err_free_guest_def

lemma unbound_upd:
  assumes "unbound pdev s"
  shows "(objs s)(next_obj s := None) = objs s" and "(enabled s)(pdev := False) = enabled s"
    and "(region s)(pdev := False) = region s" and "(drvdata s)(pdev := None) = drvdata s"
  using assms by (auto simp: unbound_def fun_eq_iff)

lemma probe_header_result:
  assumes "unbound pdev s" and "probe_header pg env pdev (next_obj s) hdr (entry_state pdev s) = (ret, s')"
  shows "(ret \<noteq> None \<and> s' = s\<lparr>next_obj := Suc (next_obj s)\<rparr>) \<or>
    (ret = None \<and> hdr_ok pg env hdr \<and>
      (\<exists>page. pci_iomap_range env (g2h_page_offset hdr) (g2h_page_size hdr) = Some page \<and>
        s' = bound_state pg env pdev hdr page s))"
  using assms(2) unbound_upd [OF assms(1)] unfolding probe_header_def entry_state_def
  by (auto simp: probe_errs Let_def hdr_ok_def GUEST_IVSHMEM_METADATA_OFFSET_def GUEST_IVSHMEM_METADATA_SIZE_def
      not_less bound_state_def device_of_def intro!: guest_state.equality split: option.splits if_splits)

lemma probe_until_header:
  assumes "unbound pdev s" and "guest_ivshmem_probe pg env pdev s = Some (ret, s')"
  shows "(ret \<noteq> None \<and> s' = s\<lparr>next_obj := next_obj s'\<rparr>) \<or>
    (\<exists>base len hdr. pci_iomap_range env 0 (of_nat pg) = Some (base, len) \<and>
       load_header len (\<lambda>x. bars s pdev (base + x)) = Some hdr \<and>
       probe_header pg env pdev (next_obj s) hdr (entry_state pdev s) = (ret, s'))"
  using assms(2) unbound_upd [OF assms(1)] unfolding guest_ivshmem_probe_def entry_state_def
  by (auto simp: Let_def probe_errs GUEST_IVSHMEM_METADATA_OFFSET_def GUEST_IVSHMEM_METADATA_SIZE_def
      split: if_splits option.splits prod.splits)

lemma probe_result:
  assumes "unbound pdev s" and "guest_ivshmem_probe pg env pdev s = Some (ret, s')"
  shows "(ret \<noteq> None \<and> s' = s\<lparr>next_obj := next_obj s'\<rparr>) \<or>
    (\<exists>base len hdr page. ret = None \<and> s' = bound_state pg env pdev hdr page s \<and>
       pci_iomap_range env 0 (of_nat pg) = Some (base, len) \<and>
       load_header len (\<lambda>x. bars s pdev (base + x)) = Some hdr \<and> hdr_ok pg env hdr \<and>
       pci_iomap_range env (g2h_page_offset hdr) (g2h_page_size hdr) = Some page)"
  using probe_until_header [OF assms]
proof (elim disjE exE conjE)
  fix base len hdr
  assume h: "pci_iomap_range env 0 (of_nat pg) = Some (base, len)"
    "load_header len (\<lambda>x. bars s pdev (base + x)) = Some hdr"
    "probe_header pg env pdev (next_obj s) hdr (entry_state pdev s) = (ret, s')"
  from probe_header_result [OF assms(1) h(3)] show ?thesis
    using h(1,2) by (elim disjE exE conjE) auto
qed simp

text \<open>Removing a bound device gives everything back.\<close>

lemma remove_bound:
  assumes "unbound pdev s" and "guest_ivshmem s = None"
  shows "guest_ivshmem_remove pdev (bound_state pg env pdev hdr page s) = Some (s\<lparr>next_obj := Suc (next_obj s)\<rparr>)"
  using unbound_upd [OF assms(1)] assms(2)
  by (auto simp: guest_ivshmem_remove_def bound_state_def Let_def intro!: guest_state.equality)

lemma iomap_okD:
  assumes "iomap_ok env" and "pci_iomap_range env off len = Some (base, n)"
  shows "base = unat off" and "off < bar_len env"
    and "n = (if len = 0 then unat (bar_len env) - unat off else min (unat (bar_len env) - unat off) (unat len))"
  using assms unfolding iomap_ok_def by blast+

lemma probe_total:
  assumes "page_size_ok pg" and "iomap_ok env"
  shows "\<exists>ret s'. guest_ivshmem_probe pg env pdev s = Some (ret, s')"
proof -
  have pg: "unat (of_nat pg :: u64) = pg" "48 \<le> pg" "(of_nat pg :: u64) \<noteq> 0"
    using page_size_okD(1,2) [OF assms(1)] by (auto simp: unat_of_nat_u64) (auto simp: unat_of_nat_u64 simp flip: unat_eq_0)
  have L: "load_header len m \<noteq> None"
    if "\<not> bar_len env < of_nat pg" "pci_iomap_range env 0 (of_nat pg) = Some (base, len)" for base len m
  proof -
    have "len = min (unat (bar_len env)) pg"
      using iomap_okD(3) [OF assms(2) that(2)] pg by simp
    moreover have "pg \<le> unat (bar_len env)" using that(1) pg(1) by (simp add: word_less_nat_alt not_less)
    ultimately show ?thesis using pg(2) by (simp add: load_header_def abi_defs)
  qed
  have "guest_ivshmem_probe pg env pdev s \<noteq> None"
    unfolding guest_ivshmem_probe_def Let_def GUEST_IVSHMEM_METADATA_OFFSET_def GUEST_IVSHMEM_METADATA_SIZE_def
    by (auto split: option.split dest: L)
  then show ?thesis by auto
qed

lemma bound_mapping:
  assumes "iomap_ok env" and "pci_iomap_range env off len = Some (base, n)"
  shows "base + n \<le> unat (bar_len env)"
  using iomap_okD [OF assms] by (auto simp: word_less_nat_alt)

subsection \<open>Properties\<close>

text \<open>
  C9. Binding a device when none is bound never faults and leaves the lock balanced. If it
  fails, at whatever step, everything taken is given back. If it succeeds, the structure is
  published, its guest-to-host mapping lies inside the BAR, and unbinding the device gives back
  everything again.
\<close>

theorem guest_ivshmem_probe_ledger:
  assumes "page_size_ok pg" and "iomap_ok env" and "unbound pdev s" and "guest_ivshmem s = None"
  shows "\<exists>ret s'. guest_ivshmem_probe pg env pdev s = Some (ret, s') \<and> lock_depth s' = lock_depth s \<and>
    (ret \<noteq> None \<longrightarrow> s' = s\<lparr>next_obj := next_obj s'\<rparr>) \<and>
    (ret = None \<longrightarrow> guest_ivshmem s' = Some (next_obj s) \<and>
      (\<exists>d base n. objs s' (next_obj s) = Some d \<and> gd_g2h_page d = Some (base, n) \<and> base + n \<le> unat (bar_len env)) \<and>
      guest_ivshmem_remove pdev s' = Some (s\<lparr>next_obj := next_obj s'\<rparr>))"
proof -
  obtain ret s' where run: "guest_ivshmem_probe pg env pdev s = Some (ret, s')"
    using probe_total [OF assms(1,2)] by blast
  from probe_result [OF assms(3) run] show ?thesis
  proof (elim disjE exE conjE)
    assume "ret \<noteq> None" and s': "s' = s\<lparr>next_obj := next_obj s'\<rparr>"
    have "lock_depth s' = lock_depth s" by (subst s') simp
    with run \<open>ret \<noteq> None\<close> s' show ?thesis by blast
  next
    fix base len hdr page
    assume ok: "ret = None" "s' = bound_state pg env pdev hdr page s"
      "pci_iomap_range env (g2h_page_offset hdr) (g2h_page_size hdr) = Some page"
    obtain b n where page: "page = (b, n)" by (cases page)
    have "b + n \<le> unat (bar_len env)" using bound_mapping [OF assms(2)] ok(3) page by blast
    with run ok(1,2) page remove_bound [OF assms(3,4)] assms(4) show ?thesis
      by (intro exI [of _ None] exI [of _ s']) (simp add: bound_state_def device_of_def)
  qed
qed

text \<open>A device whose BAR carries a header of the host, before the driver knows it.\<close>

definition hdr_example :: ivshmem_header where
  "hdr_example = \<lparr>magic = PVSCHED_MAGIC, version = PVSCHED_VERSION, latest_slot = 0, h2g_page_offset = 4096,
     h2g_page_size = 4096, g2h_page_offset = 8192, g2h_page_size = 8192\<rparr>"

definition penv_example :: pci_env where
  "penv_example = \<lparr>g_kzalloc_ok = True, enable_ret = None, bar_is_mem = True, bar_len = 16384, bar_start = 0x100000,
     request_ret = None, pci_iomap_range = (\<lambda>off len. if off < 16384
       then Some (unat off, if len = 0 then 16384 - unat off else min (16384 - unat off) (unat len)) else None)\<rparr>"

definition guest_example :: "mem \<Rightarrow> guest_state" where
  "guest_example m = \<lparr>objs = (\<lambda>_. None), next_obj = 0, guest_ivshmem = None, lock_depth = 0, drvdata = (\<lambda>_. None),
     enabled = (\<lambda>_. False), region = (\<lambda>_. False), iomaps = (\<lambda>_. 0), bars = (\<lambda>_. m), chrdev_region = False,
     guest_class = False, cdev_at = None, dev_node = False, guest_kfuncs = False\<rparr>"

lemma iomap_ok_example: "iomap_ok penv_example"
  by (simp add: iomap_ok_def penv_example_def)

lemma unbound_example: "unbound pdev (guest_example m)" "guest_ivshmem (guest_example m) = None"
  by (simp_all add: unbound_def guest_example_def)

lemma header_example: "\<exists>m. load_header 4096 m = Some hdr_example"
proof -
  obtain m where "store_header 4096 (\<lambda>_. 0) hdr_example = Some m"
    using store_header_Some [of 4096 "\<lambda>_. 0" hdr_example] by (auto simp: abi_defs)
  from load_header_store_header [OF this] show ?thesis by blast
qed

lemma probe_example:
  assumes "load_header 4096 (bars s pdev) = Some hdr_example" and "unbound pdev s"
  shows "\<exists>s'. guest_ivshmem_probe 4096 penv_example pdev s = Some (None, s')"
  using assms
  by (auto simp: guest_ivshmem_probe_def penv_example_def Let_def GUEST_IVSHMEM_METADATA_OFFSET_def
      GUEST_IVSHMEM_METADATA_SIZE_def probe_header_def hdr_example_def)

theorem guest_ivshmem_probe_ledger_witness:
  "\<exists>m s'. guest_ivshmem_probe 4096 penv_example 3 (guest_example m) = Some (None, s') \<and>
     guest_ivshmem s' = Some 0 \<and> guest_ivshmem_remove 3 s' = Some ((guest_example m)\<lparr>next_obj := next_obj s'\<rparr>)"
proof -
  obtain m where m: "load_header 4096 m = Some hdr_example" using header_example by blast
  obtain s' where s': "guest_ivshmem_probe 4096 penv_example 3 (guest_example m) = Some (None, s')"
    using probe_example [of "guest_example m" 3] m unbound_example(1) by (auto simp: guest_example_def)
  have "next_obj (guest_example m) = 0" by (simp add: guest_example_def)
  with guest_ivshmem_probe_ledger [OF page_size_ok_4096 iomap_ok_example unbound_example, of 3 m] s'
  show ?thesis by auto
qed

text \<open>
  A second ivshmem device is not turned away: probing it succeeds although one is already
  bound, the published structure is replaced by its own, and the lock is released once more
  than it was taken.
\<close>

theorem guest_ivshmem_probe_second_device:
  assumes "unbound pdev s" and "guest_ivshmem s = Some g" and "objs s g \<noteq> None"
    and "guest_ivshmem_probe pg env pdev s = Some (None, s')"
  shows "guest_ivshmem s' = Some (next_obj s) \<and> next_obj s \<noteq> g \<and> lock_depth s' = lock_depth s - 1 \<and>
    drvdata s' pdev = Some (next_obj s)"
proof -
  obtain hdr page where "s' = bound_state pg env pdev hdr page s"
    using probe_result [OF assms(1,4)] by auto
  moreover have "next_obj s \<noteq> g" using assms(1,3) by (auto simp: unbound_def)
  ultimately show ?thesis using assms(2) by (simp add: bound_state_def)
qed

theorem guest_ivshmem_probe_second_device_witness:
  "\<exists>m s1 s2. guest_ivshmem_probe 4096 penv_example 3 (guest_example m) = Some (None, s1) \<and>
     guest_ivshmem_probe 4096 penv_example 4 s1 = Some (None, s2) \<and> guest_ivshmem s2 = Some 1 \<and> lock_depth s2 = -1"
proof -
  obtain m where m: "load_header 4096 m = Some hdr_example" using header_example by blast
  obtain s1 where s1: "guest_ivshmem_probe 4096 penv_example 3 (guest_example m) = Some (None, s1)"
    using probe_example [of "guest_example m" 3] m unbound_example(1) by (auto simp: guest_example_def)
  obtain hdr page where b: "s1 = bound_state 4096 penv_example 3 hdr page (guest_example m)"
    using probe_result [OF unbound_example(1) s1] by auto
  have u: "unbound 4 s1" and g: "guest_ivshmem s1 = Some 0" and o: "objs s1 0 \<noteq> None"
    and e: "next_obj s1 = 1" "lock_depth s1 = 0"
    and h: "load_header 4096 (bars s1 4) = Some hdr_example"
    using m by (simp_all add: b bound_state_def unbound_def guest_example_def)
  obtain s2 where s2: "guest_ivshmem_probe 4096 penv_example 4 s1 = Some (None, s2)"
    using probe_example [OF h u] by blast
  from guest_ivshmem_probe_second_device [OF u g o s2] s1 s2 e show ?thesis by auto
qed

text \<open>
  C33. What userspace can map through the character device, for a host that describes one page
  of messages: whatever offset and length are asked for, an accepted mapping lies inside the
  metadata page and the host-to-guest page of the BAR, so the guest-to-host region is never
  exposed to userspace.
\<close>

theorem guest_ivshmem_mmap_bounds:
  assumes pg: "page_size_ok pg" and d: "objs s g = Some d" and h2g: "gd_h2g_page_size d = of_nat pg"
    and al: "unat (gd_metadata_phy_page d) mod pg = 0" and hi: "unat (gd_metadata_phy_page d) + 2 * pg < 2 ^ 64"
    and ok: "guest_ivshmem_mmap pg remap_ret (Some g) pgoff npages s = Some (Inr (pfn, len))"
  shows "unat (gd_metadata_phy_page d) \<le> unat pfn * pg \<and>
    unat pfn * pg + unat len \<le> unat (gd_metadata_phy_page d) + 2 * pg"
proof -
  let ?m = "gd_metadata_phy_page d" and ?off = "pgoff * of_nat pg :: u64"
  let ?tot = "of_nat pg + of_nat pg :: u64"
  have pos: "0 < pg" and small: "2 * pg < 2 ^ 64" using page_size_okD(1,2) [OF pg] by auto
  have upg: "unat (of_nat pg :: u64) = pg" using small by (simp add: unat_of_nat_u64)
  have tot: "unat ?tot = 2 * pg" using small upg by (simp add: unat_word_ariths)
  have acc: "\<not> ?tot \<le> ?off" "\<not> ?tot - ?off < len" and pfn: "pfn = (?m + ?off) div of_nat pg"
    using ok d h2g by (auto simp: guest_ivshmem_mmap_def Let_def GUEST_IVSHMEM_METADATA_SIZE_def
        split: if_splits option.splits)
  have off: "unat ?off < 2 * pg" using acc(1) tot by (simp add: word_le_nat_alt)
  then have "unat (?tot - ?off) = 2 * pg - unat ?off" using tot by (simp add: unat_sub word_le_nat_alt)
  then have len: "unat ?off + unat len \<le> 2 * pg" using acc(2) off by (simp add: word_less_nat_alt)
  have "unat (?m + ?off) = unat ?m + unat ?off" using hi off by (simp add: unat_word_ariths)
  then have u: "unat pfn = (unat ?m + unat ?off) div pg" by (simp add: pfn unat_div upg)
  have "unat pfn * pg \<le> unat ?m + unat ?off" unfolding u by (rule div_times_less_eq_dividend)
  moreover have "unat ?m div pg * pg \<le> unat pfn * pg"
    unfolding u by (intro mult_le_mono1 div_le_mono) simp
  moreover have "unat ?m div pg * pg = unat ?m" using al by (metis div_mult_mod_eq add.right_neutral)
  ultimately show ?thesis using len by simp
qed

theorem guest_ivshmem_mmap_bounds_witness:
  "\<exists>s pfn len. guest_ivshmem_mmap 4096 None (Some 0) 1 1 s = Some (Inr (pfn, len)) \<and>
     0x100000 \<le> unat pfn * 4096 \<and> unat pfn * 4096 + unat len \<le> 0x100000 + 8192"
proof -
  let ?d = "device_of 4096 penv_example 3 hdr_example (8192, 8192)"
  let ?s = "(guest_example (\<lambda>_. 0))\<lparr>objs := [0 \<mapsto> ?d]\<rparr>"
  have d: "objs ?s 0 = Some ?d" by simp
  have f: "gd_h2g_page_size ?d = of_nat 4096" "gd_metadata_phy_page ?d = 0x100000"
    by (simp_all add: device_of_def hdr_example_def penv_example_def GUEST_IVSHMEM_METADATA_OFFSET_def)
  obtain pfn len where r: "guest_ivshmem_mmap 4096 None (Some 0) 1 1 ?s = Some (Inr (pfn, len))"
    using f by (auto simp: guest_ivshmem_mmap_def Let_def GUEST_IVSHMEM_METADATA_SIZE_def)
  from guest_ivshmem_mmap_bounds [OF page_size_ok_4096 d f(1) _ _ r] r f(2) show ?thesis by auto
qed

subsection \<open>Load, unload and unplugging\<close>

definition unloaded :: "guest_state \<Rightarrow> bool" where
  "unloaded s \<longleftrightarrow> guest_ivshmem s = None \<and> \<not> chrdev_region s \<and> \<not> guest_class s \<and> cdev_at s = None \<and> \<not> dev_node s"

lemma remove_bound_kfuncs:
  assumes "unbound pdev s" and "guest_ivshmem s = None"
  shows "guest_ivshmem_remove pdev ((bound_state pg env pdev hdr page s)\<lparr>guest_kfuncs := b\<rparr>) =
    Some (s\<lparr>next_obj := Suc (next_obj s), guest_kfuncs := b\<rparr>)"
  using unbound_upd [OF assms(1)] assms(2)
  by (auto simp: guest_ivshmem_remove_def bound_state_def Let_def intro!: guest_state.equality)

lemma register_chardev_result:
  assumes "guest_ivshmem s1 = Some g" and "objs s1 g \<noteq> None"
    and "\<not> chrdev_region s1" "\<not> guest_class s1" "cdev_at s1 = None" "\<not> dev_node s1"
  shows "(\<exists>e. guest_ivshmem_register_chardev env s1 = Some (Some e, s1)) \<or>
    guest_ivshmem_register_chardev env s1 =
      Some (None, s1\<lparr>chrdev_region := True, guest_class := True, cdev_at := Some g, dev_node := True\<rparr>)"
  using assms
  by (auto simp: guest_ivshmem_register_chardev_def Let_def intro!: guest_state.equality split: option.splits)

text \<open>Loading the module for a device it cannot bind, and for one it binds.\<close>

lemma init_not_bound:
  assumes "page_size_ok pg" and "unbound pdev s" and "unloaded s" and "pci_devices env = [(pdev, penv)]"
    and run: "guest_ivshmem_probe pg penv pdev s = Some (ret, s1)" and s1: "s1 = s\<lparr>next_obj := next_obj s1\<rparr>"
  shows "\<exists>e s'. guest_ivshmem_init pg env s = Some (Some e, s') \<and> s' = s\<lparr>next_obj := next_obj s', guest_kfuncs := guest_kfuncs s'\<rparr>"
proof -
  have pg: "pg mod GUEST_IVSHMEM_MSG_SIZE = 0" using assms(1) by (simp add: page_size_ok_def abi_defs)
  have g: "guest_ivshmem s1 = None" by (subst s1) (use assms(3) in \<open>simp add: unloaded_def\<close>)
  have "drvdata s1 pdev = None" by (subst s1) (use assms(2) in \<open>simp add: unbound_def\<close>)
  then have "guest_ivshmem_remove pdev s1 = Some s1" by (simp add: guest_ivshmem_remove_def)
  then show ?thesis
    using run pg assms(4) g s1
    by (cases "register_ret env") (auto simp: guest_ivshmem_init_def Let_def intro!: guest_state.equality)
qed

lemma init_bound:
  assumes "page_size_ok pg" and "unbound pdev s" and "unloaded s" and "pci_devices env = [(pdev, penv)]"
    and run: "guest_ivshmem_probe pg penv pdev s = Some (None, s1)" and s1: "s1 = bound_state pg penv pdev hdr page s"
    and reg: "register_ret env = None"
  shows "(\<exists>e b. guest_ivshmem_init pg env s = Some (Some e, s\<lparr>next_obj := Suc (next_obj s), guest_kfuncs := b\<rparr>)) \<or>
    guest_ivshmem_init pg env s = Some (None, s1
      \<lparr>guest_kfuncs := True, chrdev_region := True, guest_class := True, cdev_at := Some (next_obj s), dev_node := True\<rparr>)"
proof -
  let ?s1 = "s1\<lparr>guest_kfuncs := True\<rparr>"
  have pg: "pg mod GUEST_IVSHMEM_MSG_SIZE = 0" using assms(1) by (simp add: page_size_ok_def abi_defs)
  have none: "guest_ivshmem s = None" using assms(3) by (simp add: unloaded_def)
  have g: "guest_ivshmem s1 = Some (next_obj s)" by (simp add: s1 bound_state_def)
  have rem: "guest_ivshmem_remove pdev s1 = Some (s\<lparr>next_obj := Suc (next_obj s)\<rparr>)"
    unfolding s1 by (rule remove_bound [OF assms(2) none])
  have rem': "guest_ivshmem_remove pdev ?s1 = Some (s\<lparr>next_obj := Suc (next_obj s), guest_kfuncs := True\<rparr>)"
    unfolding s1 by (rule remove_bound_kfuncs [OF assms(2) none])
  have "guest_ivshmem ?s1 = Some (next_obj s)" "objs ?s1 (next_obj s) \<noteq> None" "\<not> chrdev_region ?s1"
      "\<not> guest_class ?s1" "cdev_at ?s1 = None" "\<not> dev_node ?s1"
    using assms(3) by (simp_all add: s1 bound_state_def unloaded_def)
  note chr = register_chardev_result [OF this, of "chr_answers env"]
  have init: "guest_ivshmem_init pg env s = (case kfunc_ret env of
      Some e \<Rightarrow> do { s2 \<leftarrow> remove_all [pdev] s1; Some (Some e, s2) }
    | None \<Rightarrow> do { (ret, s2) \<leftarrow> guest_ivshmem_register_chardev (chr_answers env) ?s1;
        (case ret of Some e \<Rightarrow> do { s3 \<leftarrow> remove_all [pdev] s2; Some (Some e, s3) }
         | None \<Rightarrow> Some (None, s2)) })"
    using run pg assms(4) g reg by (simp add: guest_ivshmem_init_def Let_def del: remove_all.simps)
  show ?thesis
  proof (cases "kfunc_ret env")
    case (Some e)
    have "s\<lparr>next_obj := Suc (next_obj s)\<rparr> = s\<lparr>next_obj := Suc (next_obj s), guest_kfuncs := guest_kfuncs s\<rparr>" by simp
    moreover have "guest_ivshmem_init pg env s = Some (Some e, s\<lparr>next_obj := Suc (next_obj s)\<rparr>)" using Some by (simp add: init rem)
    ultimately show ?thesis by metis
  next
    case None
    from chr show ?thesis using None by (elim disjE exE) (auto simp: init rem')
  qed
qed

lemma init_result:
  assumes "page_size_ok pg" and "iomap_ok penv" and "unbound pdev s" and "unloaded s"
    and "pci_devices env = [(pdev, penv)]"
  shows "(\<exists>e s'. guest_ivshmem_init pg env s = Some (Some e, s') \<and>
      s' = s\<lparr>next_obj := next_obj s', guest_kfuncs := guest_kfuncs s'\<rparr>) \<or>
    (\<exists>hdr page. guest_ivshmem_init pg env s = Some (None, (bound_state pg penv pdev hdr page s)
      \<lparr>guest_kfuncs := True, chrdev_region := True, guest_class := True, cdev_at := Some (next_obj s), dev_node := True\<rparr>))"
proof -
  obtain ret s1 where run: "guest_ivshmem_probe pg penv pdev s = Some (ret, s1)"
    using probe_total [OF assms(1,2)] by blast
  from probe_result [OF assms(3) run] show ?thesis
  proof (elim disjE exE conjE)
    assume "s1 = s\<lparr>next_obj := next_obj s1\<rparr>"
    from init_not_bound [OF assms(1,3,4,5) run this] show ?thesis by (rule disjI1)
  next
    fix base len hdr page
    assume ret: "ret = None" and s1: "s1 = bound_state pg penv pdev hdr page s"
    have pg: "pg mod GUEST_IVSHMEM_MSG_SIZE = 0" using assms(1) by (simp add: page_size_ok_def abi_defs)
    show ?thesis
    proof (cases "register_ret env")
      case None
      from init_bound [OF assms(1,3,4,5) run [unfolded ret] s1 None] show ?thesis unfolding s1 by (elim disjE exE) fastforce+
    qed (use pg assms(5) in \<open>auto simp: guest_ivshmem_init_def Let_def\<close>)
  qed
qed

text \<open>
  C34. Loading the module with one ivshmem device present never faults. If loading fails, at
  whatever step, nothing is left behind, except that an exported function once registered stays
  so until the module is gone. If it succeeds, unloading gives everything back.
\<close>

theorem guest_ivshmem_init_exit:
  assumes "page_size_ok pg" and "iomap_ok penv" and "unbound pdev s" and "unloaded s"
    and "pci_devices env = [(pdev, penv)]"
  shows "\<exists>ret s'. guest_ivshmem_init pg env s = Some (ret, s') \<and>
    (if ret = None then guest_ivshmem_exit [pdev] s' = Some (s\<lparr>next_obj := next_obj s', guest_kfuncs := True\<rparr>)
     else s' = s\<lparr>next_obj := next_obj s', guest_kfuncs := guest_kfuncs s'\<rparr>)"
  using init_result [OF assms]
proof (elim disjE exE conjE)
  fix hdr page
  let ?s' = "(bound_state pg penv pdev hdr page s)
      \<lparr>guest_kfuncs := True, chrdev_region := True, guest_class := True, cdev_at := Some (next_obj s), dev_node := True\<rparr>"
  assume "guest_ivshmem_init pg env s = Some (None, ?s')"
  moreover have "guest_ivshmem_unregister_chardev ?s' = Some ((bound_state pg penv pdev hdr page s)\<lparr>guest_kfuncs := True\<rparr>)"
    using assms(4) by (auto simp: guest_ivshmem_unregister_chardev_def bound_state_def unloaded_def Let_def
        intro!: guest_state.equality)
  then have "guest_ivshmem_exit [pdev] ?s' = Some (s\<lparr>next_obj := Suc (next_obj s), guest_kfuncs := True\<rparr>)"
    using remove_bound_kfuncs [OF assms(3), where b = True] assms(4)
    by (simp add: guest_ivshmem_exit_def unloaded_def)
  moreover have "next_obj ?s' = Suc (next_obj s)" by (simp add: bound_state_def)
  ultimately show ?thesis by (intro exI [of _ None] exI [of _ ?s']) simp
qed auto

definition ginit_example :: "nat \<Rightarrow> ginit_env" where
  "ginit_example pdev = \<lparr>register_ret = None, pci_devices = [(pdev, penv_example)], kfunc_ret = None,
     chr_answers = \<lparr>alloc_chrdev_ret = None, class_create_ret = None, g_cdev_add_ret = None, g_device_create_ret = None\<rparr>\<rparr>"

lemma unloaded_example: "unloaded (guest_example m)"
  by (simp add: unloaded_def guest_example_def)

theorem guest_ivshmem_init_exit_witness:
  "\<exists>s'. guest_ivshmem_init 4096 ((ginit_example 3)\<lparr>kfunc_ret := Some EINVAL\<rparr>) (guest_example (\<lambda>_. 0)) = Some (Some ENODEV, s') \<and>
     s' = (guest_example (\<lambda>_. 0))\<lparr>next_obj := next_obj s', guest_kfuncs := guest_kfuncs s'\<rparr>"
proof -
  let ?e = "(ginit_example 3)\<lparr>kfunc_ret := Some EINVAL\<rparr>" and ?s = "guest_example (\<lambda>_. 0)"
  have dev: "pci_devices ?e = [(3, penv_example)]" by (simp add: ginit_example_def)
  have "load_header 4096 (\<lambda>_. 0) = Some h \<Longrightarrow> magic h = 0" for h
    by (auto simp: load_header_def mem_simps split: if_splits)
  then have "\<exists>s'. guest_ivshmem_init 4096 ?e ?s = Some (Some ENODEV, s')"
    by (simp add: guest_ivshmem_init_def ginit_example_def guest_ivshmem_probe_def Let_def abi_defs penv_example_def
        guest_example_def GUEST_IVSHMEM_METADATA_OFFSET_def GUEST_IVSHMEM_METADATA_SIZE_def load_header_def mem_simps
        probe_header_def PVSCHED_MAGIC_def probe_errs guest_ivshmem_remove_def)
  with guest_ivshmem_init_exit [OF page_size_ok_4096 iomap_ok_example unbound_example(1) unloaded_example dev,
      of "\<lambda>_. 0"]
  show ?thesis by auto
qed

text \<open>
  Unplugging the device while the module stays loaded leaves a dangling character device:
  mapping through a file opened before or after the removal touches a structure that is gone,
  and so does unloading the module.
\<close>

theorem guest_ivshmem_unplug_faults:
  assumes "page_size_ok pg" and "iomap_ok penv" and "unbound pdev s" and "unloaded s"
    and "pci_devices env = [(pdev, penv)]" and "guest_ivshmem_init pg env s = Some (None, s1)"
  shows "\<exists>s2. guest_ivshmem_remove pdev s1 = Some s2 \<and> guest_ivshmem_exit [pdev] s2 = None \<and>
    guest_ivshmem_mmap pg remap_ret (guest_ivshmem_open s1) pgoff npages s2 = None \<and>
    guest_ivshmem_mmap pg remap_ret (guest_ivshmem_open s2) pgoff npages s2 = None"
proof -
  obtain hdr page where s1: "s1 = (bound_state pg penv pdev hdr page s)
      \<lparr>guest_kfuncs := True, chrdev_region := True, guest_class := True, cdev_at := Some (next_obj s), dev_node := True\<rparr>"
    using init_result [OF assms(1-5)] assms(6) by auto
  then show ?thesis
    using assms(3,4)
    by (simp add: guest_ivshmem_remove_def bound_state_def unloaded_def Let_def guest_ivshmem_exit_def
        guest_ivshmem_unregister_chardev_def guest_ivshmem_mmap_def guest_ivshmem_open_def)
qed

theorem guest_ivshmem_unplug_faults_witness:
  "\<exists>m s1 s2. guest_ivshmem_init 4096 (ginit_example 3) (guest_example m) = Some (None, s1) \<and>
     guest_ivshmem_remove 3 s1 = Some s2 \<and> guest_ivshmem_exit [3] s2 = None"
proof -
  obtain m where m: "load_header 4096 m = Some hdr_example" using header_example by blast
  have dev: "pci_devices (ginit_example 3) = [(3, penv_example)]" by (simp add: ginit_example_def)
  obtain s0 where s0: "guest_ivshmem_probe 4096 penv_example 3 (guest_example m) = Some (None, s0)"
    using probe_example [of "guest_example m" 3] m unbound_example(1) by (auto simp: guest_example_def)
  obtain hdr page where b: "s0 = bound_state 4096 penv_example 3 hdr page (guest_example m)"
    using probe_result [OF unbound_example(1) s0] by auto
  obtain s1 where s1: "guest_ivshmem_init 4096 (ginit_example 3) (guest_example m) = Some (None, s1)"
    using s0 by (simp add: guest_ivshmem_init_def ginit_example_def Let_def abi_defs guest_ivshmem_register_chardev_def
        b bound_state_def)
  from guest_ivshmem_unplug_faults [OF page_size_ok_4096 iomap_ok_example unbound_example(1) unloaded_example dev s1] s1
  show ?thesis by blast
qed

end
