(* ===== verification/Omp_Tracker.thy ===== *)
theory Omp_Tracker
  imports Guest_Ivshmem
begin

text \<open>
  The guest's eBPF program \<^verbatim>\<open>pvsched-ebpf/guest/omp_thread_reg.bpf.c\<close>: it records which
  threads are OpenMP threads and reports, per vCPU, whether one of them is running. The function
  it calls in the guest module is the argument \<open>wr\<close> of its operations: given the state of the
  module, an index and a message, it returns the new state. What the program relies on is the
  locale \<open>run_states\<close>; \<open>Guest_Ivshmem\<close> provides it.
\<close>

subsection \<open>The program\<close>

record 's omp_state =
  omp_threads_map :: "u32 \<Rightarrow> u32 option"
  omp_shm :: 's

text \<open>
  \<open>room\<close> is whether the hash map accepts a new entry; the answer is ignored by the program.
\<close>

definition capture_omp_master_thread :: "bool \<Rightarrow> u32 \<Rightarrow> u32 \<Rightarrow> 's omp_state \<Rightarrow> 's omp_state" where
  "capture_omp_master_thread room tid cpu s =
     (if room \<or> omp_threads_map s tid \<noteq> None
      then s\<lparr>omp_threads_map := (omp_threads_map s)(tid \<mapsto> cpu)\<rparr> else s)"

definition capture_omp_worker_threads :: "bool \<Rightarrow> u32 \<Rightarrow> u32 \<Rightarrow> 's omp_state \<Rightarrow> 's omp_state" where
  "capture_omp_worker_threads room tid cpu s =
     (if room \<or> omp_threads_map s tid \<noteq> None
      then s\<lparr>omp_threads_map := (omp_threads_map s)(tid \<mapsto> cpu)\<rparr> else s)"

definition remove_current_tid ::
  "('s \<Rightarrow> u32 \<Rightarrow> u64 \<Rightarrow> 's option) \<Rightarrow> u32 \<Rightarrow> u32 \<Rightarrow> 's omp_state \<Rightarrow> 's omp_state option" where
  "remove_current_tid wr tid cpu s = do {
     s1 \<leftarrow> (if omp_threads_map s tid \<noteq> None
           then do { h \<leftarrow> wr (omp_shm s) cpu 0; Some (s\<lparr>omp_shm := h\<rparr>) } else Some s);
     Some (s1\<lparr>omp_threads_map := (omp_threads_map s1)(tid := None)\<rparr>)
   }"

definition remove_exited_omp_thread ::
  "('s \<Rightarrow> u32 \<Rightarrow> u64 \<Rightarrow> 's option) \<Rightarrow> u32 \<Rightarrow> u32 \<Rightarrow> 's omp_state \<Rightarrow> 's omp_state option" where
  "remove_exited_omp_thread wr tid cpu s = remove_current_tid wr tid cpu s"

definition remove_execed_omp_thread ::
  "('s \<Rightarrow> u32 \<Rightarrow> u64 \<Rightarrow> 's option) \<Rightarrow> u32 \<Rightarrow> u32 \<Rightarrow> 's omp_state \<Rightarrow> 's omp_state option" where
  "remove_execed_omp_thread wr tid cpu s = remove_current_tid wr tid cpu s"

definition handle_switch ::
  "('s \<Rightarrow> u32 \<Rightarrow> u64 \<Rightarrow> 's option) \<Rightarrow> u32 \<Rightarrow> u32 \<Rightarrow> u32 \<Rightarrow> 's omp_state \<Rightarrow> 's omp_state option" where
  "handle_switch wr prev_tid next_tid current_cpu s = do {
     s1 \<leftarrow> (if omp_threads_map s prev_tid \<noteq> None
           then do { h \<leftarrow> wr (omp_shm s) current_cpu 0; Some (s\<lparr>omp_shm := h\<rparr>) } else Some s);
     (if omp_threads_map s1 next_tid \<noteq> None
      then do { h \<leftarrow> wr (omp_shm s1) current_cpu 1; Some (s1\<lparr>omp_shm := h\<rparr>) } else Some s1)
   }"

subsection \<open>The system around it\<close>

text \<open>
  \<open>running\<close> is the thread each vCPU runs; thread id 0 is the idle thread of every vCPU. One
  step is one event of the guest that runs a part of the program: the probes act for the
  current thread of a vCPU, a context switch brings in a thread that runs nowhere else.
\<close>

record 's omp_sys =
  omp :: "'s omp_state"
  running :: "u32 \<Rightarrow> u32"

inductive omp_step :: "('s \<Rightarrow> u32 \<Rightarrow> u64 \<Rightarrow> 's option) \<Rightarrow> 's omp_sys \<Rightarrow> 's omp_sys \<Rightarrow> bool"
  for wr :: "'s \<Rightarrow> u32 \<Rightarrow> u64 \<Rightarrow> 's option" where
  master: "running y cpu \<noteq> 0 \<Longrightarrow>
    omp_step wr y (y\<lparr>omp := capture_omp_master_thread room (running y cpu) cpu (omp y)\<rparr>)"
| worker: "running y cpu \<noteq> 0 \<Longrightarrow>
    omp_step wr y (y\<lparr>omp := capture_omp_worker_threads room (running y cpu) cpu (omp y)\<rparr>)"
| exit: "remove_exited_omp_thread wr (running y cpu) cpu (omp y) = Some s \<Longrightarrow> omp_step wr y (y\<lparr>omp := s\<rparr>)"
| exec: "remove_execed_omp_thread wr (running y cpu) cpu (omp y) = Some s \<Longrightarrow> omp_step wr y (y\<lparr>omp := s\<rparr>)"
| switch: "next_tid = 0 \<or> (\<forall>c. running y c \<noteq> next_tid) \<Longrightarrow>
    handle_switch wr (running y cpu) next_tid cpu (omp y) = Some s \<Longrightarrow>
    omp_step wr y (y\<lparr>omp := s, running := (running y)(cpu := next_tid)\<rparr>)"

inductive_cases omp_stepE: "omp_step wr y y'"

definition omp_start :: "'s \<Rightarrow> (u32 \<Rightarrow> u32) \<Rightarrow> 's omp_sys" where
  "omp_start h r = \<lparr>omp = \<lparr>omp_threads_map = (\<lambda>_. None), omp_shm = h\<rparr>, running = r\<rparr>"

text \<open>No thread runs on two vCPUs.\<close>

definition placed :: "(u32 \<Rightarrow> u32) \<Rightarrow> bool" where
  "placed r \<longleftrightarrow> (\<forall>c c'. r c = r c' \<and> r c \<noteq> 0 \<longrightarrow> c = c')"

lemma placed_switch:
  assumes "placed r" and "t = 0 \<or> (\<forall>c. r c \<noteq> t)"
  shows "placed (r(cpu := t))"
  unfolding placed_def
proof (intro allI impI)
  fix c c'
  assume eq: "(r(cpu := t)) c = (r(cpu := t)) c' \<and> (r(cpu := t)) c \<noteq> 0"
  show "c = c'"
  proof (cases "c = cpu \<or> c' = cpu")
    case True
    with eq assms(2) show ?thesis by (auto split: if_splits)
  next
    case False
    with eq have "r c = r c' \<and> r c \<noteq> 0" by (auto split: if_splits)
    with assms(1) show ?thesis unfolding placed_def by blast
  qed
qed

subsection \<open>What the program needs of the guest module\<close>

locale run_states =
  fixes nr :: nat and ready :: "'s \<Rightarrow> bool" and wr :: "'s \<Rightarrow> u32 \<Rightarrow> u64 \<Rightarrow> 's option" and slot :: "'s \<Rightarrow> nat \<Rightarrow> u64"
  assumes write_slot: "ready h \<Longrightarrow> unat i < nr \<Longrightarrow>
      \<exists>h'. wr h i v = Some h' \<and> ready h' \<and> (\<forall>j<nr. slot h' j = (if j = unat i then v else slot h j))"
    and write_out: "ready h \<Longrightarrow> nr \<le> unat i \<Longrightarrow> wr h i v = Some h"
begin

definition reports :: "'s omp_sys \<Rightarrow> bool" where
  "reports y \<longleftrightarrow> ready (omp_shm (omp y)) \<and> omp_threads_map (omp y) 0 = None \<and> placed (running y) \<and>
     (\<forall>c. unat c < nr \<longrightarrow> slot (omp_shm (omp y)) (unat c) = 0 \<or>
        slot (omp_shm (omp y)) (unat c) = 1 \<and> omp_threads_map (omp y) (running y c) \<noteq> None)"

lemma write_any:
  assumes "ready h"
  shows "\<exists>h'. wr h i v = Some h' \<and> ready h' \<and> (\<forall>j<nr. slot h' j = (if j = unat i then v else slot h j))"
  using write_slot [OF assms, of i v] write_out [OF assms, of i v] assms by (cases "unat i < nr") auto

lemma remove_current:
  assumes "reports y"
  shows "\<exists>s. remove_current_tid wr (running y cpu) cpu (omp y) = Some s \<and> reports (y\<lparr>omp := s\<rparr>)"
proof (cases "omp_threads_map (omp y) (running y cpu) = None")
  case True
  then have "remove_current_tid wr (running y cpu) cpu (omp y) = Some (omp y)"
    by (simp add: remove_current_tid_def fun_upd_idem)
  with assms show ?thesis by simp
next
  case False
  have ready: "ready (omp_shm (omp y))" and nz: "running y cpu \<noteq> 0"
    using assms False by (auto simp: reports_def)
  obtain h where h: "wr (omp_shm (omp y)) cpu 0 = Some h" "ready h"
      "\<forall>j<nr. slot h j = (if j = unat cpu then 0 else slot (omp_shm (omp y)) j)"
    using write_any [OF ready] by blast
  have other: "running y c \<noteq> running y cpu" if "c \<noteq> cpu" for c
    using assms nz that unfolding reports_def placed_def by metis
  define s where "s = (omp y)\<lparr>omp_shm := h, omp_threads_map := (omp_threads_map (omp y))(running y cpu := None)\<rparr>"
  have "remove_current_tid wr (running y cpu) cpu (omp y) = Some s"
    using False h(1) by (simp add: remove_current_tid_def s_def)
  moreover have "reports (y\<lparr>omp := s\<rparr>)"
    unfolding reports_def
  proof (intro conjI allI impI)
    fix c :: u32
    assume c: "unat c < nr"
    show "slot (omp_shm (omp (y\<lparr>omp := s\<rparr>))) (unat c) = 0 \<or>
      slot (omp_shm (omp (y\<lparr>omp := s\<rparr>))) (unat c) = 1 \<and>
      omp_threads_map (omp (y\<lparr>omp := s\<rparr>)) (running (y\<lparr>omp := s\<rparr>) c) \<noteq> None"
    proof (cases "c = cpu")
      case False
      then have "unat c \<noteq> unat cpu" by (simp add: word_unat_eq_iff)
      with c h(3) other [OF False] assms show ?thesis by (simp add: s_def reports_def)
    qed (use c h(3) in \<open>simp add: s_def\<close>)
  qed (use assms h(2) in \<open>auto simp: s_def reports_def\<close>)
  ultimately show ?thesis by blast
qed

lemma cond_write:
  assumes "ready (omp_shm s)" and "\<not> P \<Longrightarrow> unat i < nr \<Longrightarrow> slot (omp_shm s) (unat i) = v"
  shows "\<exists>h. (if P then do { h \<leftarrow> wr (omp_shm s) i v; Some (s\<lparr>omp_shm := h\<rparr>) } else Some s) = Some (s\<lparr>omp_shm := h\<rparr>) \<and>
    ready h \<and> (\<forall>j<nr. slot h j = (if j = unat i then v else slot (omp_shm s) j))"
proof (cases P)
  case True
  then show ?thesis using write_any [OF assms(1), of i v] by auto
next
  case False
  then show ?thesis using assms by (intro exI [of _ "omp_shm s"]) auto
qed

lemma switch_reports:
  assumes y: "reports y" and nx: "next_tid = 0 \<or> (\<forall>c. running y c \<noteq> next_tid)"
  shows "\<exists>s. handle_switch wr (running y cpu) next_tid cpu (omp y) = Some s \<and>
    reports (y\<lparr>omp := s, running := (running y)(cpu := next_tid)\<rparr>) \<and>
    omp_threads_map s = omp_threads_map (omp y) \<and>
    (unat cpu < nr \<longrightarrow> slot (omp_shm s) (unat cpu) = (if omp_threads_map s next_tid = None then 0 else 1))"
proof -
  let ?m = "omp_threads_map (omp y)" and ?P = "omp_threads_map (omp y) (running y cpu) \<noteq> None"
  have "\<not> ?P \<Longrightarrow> unat cpu < nr \<Longrightarrow> slot (omp_shm (omp y)) (unat cpu) = 0"
    using y unfolding reports_def by blast
  then obtain h where h: "(if ?P then do { h \<leftarrow> wr (omp_shm (omp y)) cpu 0; Some ((omp y)\<lparr>omp_shm := h\<rparr>) }
        else Some (omp y)) = Some ((omp y)\<lparr>omp_shm := h\<rparr>)" "ready h"
      "\<forall>j<nr. slot h j = (if j = unat cpu then 0 else slot (omp_shm (omp y)) j)"
    using cond_write [of "omp y" ?P cpu 0] y unfolding reports_def by blast
  let ?s1 = "(omp y)\<lparr>omp_shm := h\<rparr>" and ?v = "if ?m next_tid = None then 0 else 1 :: u64"
  obtain h' where h': "(if ?m next_tid \<noteq> None then do { h \<leftarrow> wr (omp_shm ?s1) cpu ?v; Some (?s1\<lparr>omp_shm := h\<rparr>) }
        else Some ?s1) = Some (?s1\<lparr>omp_shm := h'\<rparr>)" "ready h'"
      "\<forall>j<nr. slot h' j = (if j = unat cpu then ?v else slot h j)"
    using cond_write [of ?s1 "?m next_tid \<noteq> None" cpu ?v] h(2,3) by auto
  define s where "s = (omp y)\<lparr>omp_shm := h'\<rparr>"
  have run: "handle_switch wr (running y cpu) next_tid cpu (omp y) = Some s"
    unfolding handle_switch_def h(1) using h'(1) by (simp add: s_def split: if_splits)
  have slots: "\<forall>j<nr. slot h' j = (if j = unat cpu then ?v else slot (omp_shm (omp y)) j)"
    using h(3) h'(3) by simp
  let ?y' = "y\<lparr>omp := s, running := (running y)(cpu := next_tid)\<rparr>"
  have "reports ?y'"
    unfolding reports_def
  proof (intro conjI allI impI)
    show "placed (running ?y')"
      using placed_switch [OF _ nx] y by (simp add: reports_def)
    fix c :: u32
    assume c: "unat c < nr"
    show "slot (omp_shm (omp ?y')) (unat c) = 0 \<or>
      slot (omp_shm (omp ?y')) (unat c) = 1 \<and> omp_threads_map (omp ?y') (running ?y' c) \<noteq> None"
    proof (cases "c = cpu")
      case False
      then have "unat c \<noteq> unat cpu" by (simp add: word_unat_eq_iff)
      with c slots False y show ?thesis by (simp add: s_def reports_def)
    qed (use c slots in \<open>simp add: s_def\<close>)
  qed (use y h'(2) in \<open>simp_all add: s_def reports_def\<close>)
  with run slots show ?thesis by (simp add: s_def)
qed

lemma step_reports:
  assumes "omp_step wr y y'" and "reports y"
  shows "reports y'"
  using assms(1)
proof (cases rule: omp_step.cases)
  case (exit cpu s)
  with remove_current [OF assms(2), of cpu] show ?thesis by (simp add: remove_exited_omp_thread_def)
next
  case (exec cpu s)
  with remove_current [OF assms(2), of cpu] show ?thesis by (simp add: remove_execed_omp_thread_def)
next
  case (switch next_tid cpu s)
  with switch_reports [OF assms(2) switch(2), of cpu] show ?thesis by simp
qed (use assms(2) in \<open>auto simp: reports_def capture_omp_master_thread_def capture_omp_worker_threads_def\<close>)

lemma run_reports: "(omp_step wr)\<^sup>*\<^sup>* y y' \<Longrightarrow> reports y \<Longrightarrow> reports y'"
  by (induction rule: rtranclp_induct) (auto intro: step_reports)

end

subsection \<open>The guest module provides it\<close>

text \<open>
  A device is bound whose guest-to-host mapping holds a page of slots. The words in these slots,
  and the exported function as the program calls it.
\<close>

definition guest_ready :: "nat \<Rightarrow> guest_state \<Rightarrow> bool" where
  "guest_ready pg s \<longleftrightarrow> page_size_ok pg \<and>
     (case guest_ivshmem s of None \<Rightarrow> False | Some g \<Rightarrow>
     (case objs s g of None \<Rightarrow> False | Some d \<Rightarrow>
     (case gd_g2h_page d of None \<Rightarrow> False | Some (base, len) \<Rightarrow> pg \<le> len)))"

definition guest_slot :: "guest_state \<Rightarrow> nat \<Rightarrow> u64" where
  "guest_slot s i =
     (case guest_ivshmem s of None \<Rightarrow> 0 | Some g \<Rightarrow>
     (case objs s g of None \<Rightarrow> 0 | Some d \<Rightarrow>
     (case gd_g2h_page d of None \<Rightarrow> 0 | Some (base, len) \<Rightarrow>
        load_le 8 (bars s (gd_pdev d)) (base + i * GUEST_IVSHMEM_MSG_SIZE))))"

definition g2h_report :: "nat \<Rightarrow> guest_state \<Rightarrow> u32 \<Rightarrow> u64 \<Rightarrow> guest_state option" where
  "g2h_report pg s cpu v =
     map_option snd (bpf_guest_ivshmem_g2h_write pg cpu (Some (gh_message_zero\<lparr>gh_msg := v\<rparr>)) s)"

lemma guest_readyE:
  assumes "guest_ready pg s"
  obtains g d base len where "page_size_ok pg" "guest_ivshmem s = Some g" "objs s g = Some d"
    "gd_g2h_page d = Some (base, len)" "pg \<le> len"
  using assms by (auto simp: guest_ready_def split: option.splits)

interpretation g2h: run_states "NR_GUEST_IVSHMEM_MSGS pg" "guest_ready pg" "g2h_report pg" guest_slot for pg
proof unfold_locales
  fix h :: guest_state and i :: u32 and v
  assume r: "guest_ready pg h"
  from r obtain g d base len where d: "page_size_ok pg" "guest_ivshmem h = Some g" "objs h g = Some d"
    "gd_g2h_page d = Some (base, len)" "pg \<le> len" by (rule guest_readyE)
  {
    assume i: "unat i < NR_GUEST_IVSHMEM_MSGS pg"
    have len: "unat i * 64 + 8 \<le> len"
      using slot_in_page [OF d(1), of "unat i"] i d(5) by (simp add: NR_GUEST_eq_HOST)
    let ?m = "store_le 8 (bars h (gd_pdev d)) (base + unat i * 64) v"
    let ?h = "h\<lparr>bars := (bars h)(gd_pdev d := ?m)\<rparr>"
    have w: "g2h_report pg h i v = Some ?h"
      using d i len by (simp add: g2h_report_def bpf_guest_ivshmem_g2h_write_def guest_ivshmem_g2h_write_msg_def
          GUEST_IVSHMEM_MSG_SIZE_def Let_def)
    have "guest_slot ?h j = (if j = unat i then v else guest_slot h j)" for j
      using d slots_disjoint [of j "unat i"]
      by (auto simp: guest_slot_def GUEST_IVSHMEM_MSG_SIZE_def mem_simps)
    moreover have "guest_ready pg ?h" using d by (simp add: guest_ready_def)
    ultimately show "\<exists>h'. g2h_report pg h i v = Some h' \<and> guest_ready pg h' \<and>
        (\<forall>j<NR_GUEST_IVSHMEM_MSGS pg. guest_slot h' j = (if j = unat i then v else guest_slot h j))"
      using w by blast
  }
  assume "NR_GUEST_IVSHMEM_MSGS pg \<le> unat i"
  then show "g2h_report pg h i v = Some h"
    by (simp add: g2h_report_def bpf_guest_ivshmem_g2h_write_def guest_ivshmem_g2h_write_msg_def)
qed

subsection \<open>Properties\<close>

text \<open>
  C10. The host is never told that an OpenMP thread runs where none does: from a zeroed page and
  an empty map, after any probes, exits, execs and context switches of the guest, the slot of
  every vCPU holds 0 or 1, and it holds 1 only while the thread the vCPU runs is a recorded
  OpenMP thread.
\<close>

theorem omp_reports_sound:
  assumes "guest_ready pg h" and "placed r" and "\<forall>i<NR_GUEST_IVSHMEM_MSGS pg. guest_slot h i = 0"
    and "(omp_step (g2h_report pg))\<^sup>*\<^sup>* (omp_start h r) y" and "unat cpu < NR_GUEST_IVSHMEM_MSGS pg"
  shows "guest_slot (omp_shm (omp y)) (unat cpu) = 0 \<or>
    guest_slot (omp_shm (omp y)) (unat cpu) = 1 \<and> omp_threads_map (omp y) (running y cpu) \<noteq> None"
proof -
  have "g2h.reports pg (omp_start h r)" using assms(1-3) by (simp add: g2h.reports_def omp_start_def)
  from g2h.run_reports [OF assms(4) this] assms(5) show ?thesis by (simp add: g2h.reports_def)
qed

text \<open>A guest whose vCPU 2 runs thread 40 on a bound device with a zeroed page.\<close>

definition omp_guest_example :: guest_state where
  "omp_guest_example = bound_state 4096 penv_example 3 hdr_example (8192, 8192) (guest_example (\<lambda>_. 0))"

lemma omp_guest_example_ready: "guest_ready 4096 omp_guest_example"
  by (simp add: guest_ready_def omp_guest_example_def bound_state_def device_of_def)

lemma omp_guest_example_zero: "\<forall>i<NR_GUEST_IVSHMEM_MSGS 4096. guest_slot omp_guest_example i = 0"
  by (simp add: guest_slot_def omp_guest_example_def bound_state_def device_of_def guest_example_def mem_simps)

definition running_example :: "u32 \<Rightarrow> u32" where
  "running_example c = (if c = 2 then 40 else 0)"

lemma placed_example: "placed running_example"
  by (simp add: placed_def running_example_def)

lemma omp_run_example:
  "\<exists>y. omp_step (g2h_report 4096) (omp_start omp_guest_example running_example) y \<and>
     running y = running_example \<and> omp_threads_map (omp y) 40 = Some 2"
  using omp_step.master [of "omp_start omp_guest_example running_example" 2 "g2h_report 4096" True]
  by (intro exI [of _ "(omp_start omp_guest_example running_example)
      \<lparr>omp := capture_omp_master_thread True 40 2 (omp (omp_start omp_guest_example running_example))\<rparr>"])
    (auto simp: omp_start_def running_example_def capture_omp_master_thread_def)

theorem omp_reports_sound_witness:
  "\<exists>y. (omp_step (g2h_report 4096))\<^sup>*\<^sup>* (omp_start omp_guest_example running_example) y \<and>
     omp_threads_map (omp y) 40 = Some 2 \<and>
     (guest_slot (omp_shm (omp y)) 2 = 0 \<or> guest_slot (omp_shm (omp y)) 2 = 1)"
proof -
  obtain y where y: "omp_step (g2h_report 4096) (omp_start omp_guest_example running_example) y"
    "omp_threads_map (omp y) 40 = Some 2" using omp_run_example by blast
  then have run: "(omp_step (g2h_report 4096))\<^sup>*\<^sup>* (omp_start omp_guest_example running_example) y" by blast
  have "unat (2 :: u32) < NR_GUEST_IVSHMEM_MSGS 4096" by (simp add: abi_defs)
  from omp_reports_sound [OF omp_guest_example_ready placed_example omp_guest_example_zero run this] run y(2)
  show ?thesis by auto
qed

text \<open>
  C35. A context switch brings the slot up to date: in every reachable state the handler returns,
  and afterwards the slot of the vCPU is 1 if the thread switched in is a recorded OpenMP thread
  and 0 otherwise.
\<close>

theorem handle_switch_reports:
  assumes "guest_ready pg h" and "placed r" and "\<forall>i<NR_GUEST_IVSHMEM_MSGS pg. guest_slot h i = 0"
    and "(omp_step (g2h_report pg))\<^sup>*\<^sup>* (omp_start h r) y"
    and "next_tid = 0 \<or> (\<forall>c. running y c \<noteq> next_tid)" and "unat cpu < NR_GUEST_IVSHMEM_MSGS pg"
  shows "\<exists>s. handle_switch (g2h_report pg) (running y cpu) next_tid cpu (omp y) = Some s \<and>
    omp_threads_map s = omp_threads_map (omp y) \<and>
    guest_slot (omp_shm s) (unat cpu) = (if omp_threads_map (omp y) next_tid = None then 0 else 1)"
proof -
  have "g2h.reports pg (omp_start h r)" using assms(1-3) by (simp add: g2h.reports_def omp_start_def)
  then have "g2h.reports pg y" by (rule g2h.run_reports [OF assms(4)])
  from g2h.switch_reports [OF this assms(5), of cpu] assms(6) show ?thesis by auto
qed

theorem handle_switch_reports_witness:
  "\<exists>(y :: guest_state omp_sys) s. handle_switch (g2h_report 4096) (running y 5) 40 5 (omp y) = Some s \<and> guest_slot (omp_shm s) 5 = 1"
proof -
  obtain y where y: "omp_step (g2h_report 4096) (omp_start omp_guest_example running_example) y"
    "running y = running_example" "omp_threads_map (omp y) 40 = Some 2" using omp_run_example by blast
  obtain s where s: "handle_switch (g2h_report 4096) (running y 2) 0 2 (omp y) = Some s"
      "omp_threads_map s = omp_threads_map (omp y)"
    using handle_switch_reports [OF omp_guest_example_ready placed_example omp_guest_example_zero
        r_into_rtranclp [of "omp_step (g2h_report 4096)", OF y(1)], of 0 2] by (auto simp: abi_defs)
  let ?y = "y\<lparr>omp := s, running := (running y)(2 := 0)\<rparr>"
  have "omp_step (g2h_report 4096) y ?y" by (rule omp_step.switch) (use s in auto)
  with y(1) have run: "(omp_step (g2h_report 4096))\<^sup>*\<^sup>* (omp_start omp_guest_example running_example) ?y" by auto
  have away: "(40 :: u32) = 0 \<or> (\<forall>c. running ?y c \<noteq> 40)" using y(2) by (auto simp: running_example_def)
  have "unat (5 :: u32) < NR_GUEST_IVSHMEM_MSGS 4096" by (simp add: abi_defs)
  from handle_switch_reports [OF omp_guest_example_ready placed_example omp_guest_example_zero run away this]
  obtain s' where "handle_switch (g2h_report 4096) (running ?y 5) 40 5 (omp ?y) = Some s'"
      "guest_slot (omp_shm s') 5 = (if omp_threads_map (omp ?y) 40 = None then 0 else 1)" by auto
  with s(2) y(3) show ?thesis by - (rule exI [of _ ?y], rule exI [of _ s'], simp)
qed

end
