(* ===== verification/Linked_List.thy ===== *)
theory Linked_List
  imports Pvsched_Abi
begin

text \<open>
  The singly linked list of \<^verbatim>\<open>pvsched-ebpf/host/user/linkedlist.c\<close>, on an explicit heap.
  A pointer is an address or NULL (\<open>None\<close>). \<open>mok\<close> is the environment of \<open>malloc\<close>: whether
  its n-th call finds memory. A result \<open>None\<close> of an operation is the access to a cell that
  is not allocated, or a loop that does not end.
\<close>

subsection \<open>The heap of the registration tool\<close>

type_synonym addr = nat
type_synonym ptr = "addr option"

text \<open>\<open>struct qmp_vpcu\<close>: the two numbers QMP reports of a vCPU.\<close>

record qmp_vpcu =
  cpuIndex :: int
  threadId :: int

record Node =
  node_data :: ptr
  node_next :: ptr

record user_heap =
  nodes :: "addr \<Rightarrow> Node option"
  qmps :: "addr \<Rightarrow> qmp_vpcu option"
  next_addr :: addr
  mallocs :: nat

definition malloc_qmp :: "(nat \<Rightarrow> bool) \<Rightarrow> qmp_vpcu \<Rightarrow> user_heap \<Rightarrow> ptr \<times> user_heap" where
  "malloc_qmp mok q h =
     (if mok (mallocs h)
      then (Some (next_addr h), h\<lparr>qmps := (qmps h)(next_addr h \<mapsto> q), next_addr := Suc (next_addr h),
              mallocs := Suc (mallocs h)\<rparr>)
      else (None, h\<lparr>mallocs := Suc (mallocs h)\<rparr>))"

subsection \<open>Operations\<close>

definition create_node :: "(nat \<Rightarrow> bool) \<Rightarrow> ptr \<Rightarrow> user_heap \<Rightarrow> ptr \<times> user_heap" where
  "create_node mok data h =
     (if mok (mallocs h)
      then (Some (next_addr h), h\<lparr>nodes := (nodes h)(next_addr h \<mapsto> \<lparr>node_data = data, node_next = None\<rparr>),
              next_addr := Suc (next_addr h), mallocs := Suc (mallocs h)\<rparr>)
      else (None, h\<lparr>mallocs := Suc (mallocs h)\<rparr>))"

text \<open>The loop \<open>while (temp->next != NULL)\<close>.\<close>

partial_function (option) last_node :: "(addr \<Rightarrow> Node option) \<Rightarrow> addr \<Rightarrow> addr option" where
  "last_node N temp =
     (case N temp of None \<Rightarrow> None
      | Some n \<Rightarrow> (case node_next n of None \<Rightarrow> Some temp | Some q \<Rightarrow> last_node N q))"

definition push_back :: "(nat \<Rightarrow> bool) \<Rightarrow> ptr \<Rightarrow> ptr \<Rightarrow> user_heap \<Rightarrow> (ptr \<times> user_heap) option" where
  "push_back mok head data h =
     (let (node, h1) = create_node mok data h in
      case head of None \<Rightarrow> Some (node, h1)
      | Some p \<Rightarrow> do {
          temp \<leftarrow> last_node (nodes h1) p;
          n \<leftarrow> nodes h1 temp;
          Some (head, h1\<lparr>nodes := (nodes h1)(temp \<mapsto> n\<lparr>node_next := node\<rparr>)\<rparr>)
        })"

text \<open>\<open>print_node\<close> gives the text it prints of one node's data.\<close>

partial_function (option) print_nodes ::
  "(addr \<Rightarrow> Node option) \<Rightarrow> (ptr \<Rightarrow> string option) \<Rightarrow> ptr \<Rightarrow> string option" where
  "print_nodes N print_node temp =
     (case temp of None \<Rightarrow> Some ''''
      | Some p \<Rightarrow>
          (case N p of None \<Rightarrow> None
           | Some n \<Rightarrow> do {
               out \<leftarrow> print_node (node_data n);
               rest \<leftarrow> print_nodes N print_node (node_next n);
               Some (out @ rest)
             }))"

subsection \<open>Lists on the heap\<close>

text \<open>
  From \<open>p\<close> the cells at the addresses of \<open>xs\<close> follow one another and carry its data; the
  last one's successor is NULL.
\<close>

primrec list_at :: "(addr \<Rightarrow> Node option) \<Rightarrow> ptr \<Rightarrow> (addr \<times> ptr) list \<Rightarrow> bool" where
  "list_at N p [] \<longleftrightarrow> p = None"
| "list_at N p (x # xs) \<longleftrightarrow> p = Some (fst x) \<and>
     (case N (fst x) of None \<Rightarrow> False | Some n \<Rightarrow> node_data n = snd x \<and> list_at N (node_next n) xs)"

definition heap_ok :: "user_heap \<Rightarrow> bool" where
  "heap_ok h \<longleftrightarrow> (\<forall>a. next_addr h \<le> a \<longrightarrow> nodes h a = None \<and> qmps h a = None)"

lemma heap_ok_malloc_qmp: "heap_ok h \<Longrightarrow> heap_ok (snd (malloc_qmp mok q h))"
  by (auto simp: heap_ok_def malloc_qmp_def)

lemma heap_ok_create_node: "heap_ok h \<Longrightarrow> heap_ok (snd (create_node mok d h))"
  by (auto simp: heap_ok_def create_node_def)

lemma list_at_live: "list_at N p xs \<Longrightarrow> x \<in> set xs \<Longrightarrow> N (fst x) \<noteq> None"
  by (induction xs arbitrary: p) (auto split: option.splits)

text \<open>Two lists from one address are one list, so a list never meets itself.\<close>

lemma list_at_unique: "list_at N p xs \<Longrightarrow> list_at N p ys \<Longrightarrow> xs = ys"
proof (induction xs arbitrary: p ys)
  case Nil
  then show ?case by (cases ys) auto
next
  case (Cons x xs)
  then show ?case by (cases ys) (auto split: option.splits intro: prod_eqI)
qed

lemma list_at_drop: "list_at N p (xs @ y # ys) \<Longrightarrow> list_at N (Some (fst y)) (y # ys)"
proof (induction xs arbitrary: p)
  case Nil
  then show ?case by simp
next
  case (Cons x xs)
  then obtain q where "list_at N q (xs @ y # ys)" by (auto split: option.splits)
  then show ?case by (rule Cons.IH)
qed

lemma list_at_distinct: "list_at N p xs \<Longrightarrow> distinct (map fst xs)"
proof (induction xs arbitrary: p)
  case Nil
  then show ?case by simp
next
  case (Cons x xs)
  from Cons.prems have p: "list_at N (Some (fst x)) (x # xs)" by simp
  obtain q where q: "list_at N q xs" using Cons.prems by (auto split: option.splits)
  have "fst x \<notin> fst ` set xs"
  proof
    assume "fst x \<in> fst ` set xs"
    then obtain y ys zs where xs: "xs = ys @ y # zs" and y: "fst y = fst x"
      by (metis imageE split_list)
    have "list_at N (Some (fst x)) (y # zs)"
      using list_at_drop [of N q ys y zs] q by (simp add: xs y del: list_at.simps)
    from list_at_unique [OF p this] have "length (x # xs) = length (y # zs)" by simp
    then show False by (simp add: xs)
  qed
  with Cons.IH [OF q] show ?case by simp
qed

lemma list_at_frame:
  "list_at N p xs \<Longrightarrow> (\<And>x. x \<in> set xs \<Longrightarrow> N' (fst x) = N (fst x)) \<Longrightarrow> list_at N' p xs"
proof (induction xs arbitrary: p)
  case Nil
  then show ?case by simp
next
  case (Cons x xs)
  then show ?case by (auto split: option.splits)
qed

subsection \<open>Walking and appending\<close>

lemma last_node_list:
  "list_at N (Some p) xs \<Longrightarrow> last_node N p = Some (fst (last xs)) \<and> xs \<noteq> []"
proof (induction xs arbitrary: p)
  case Nil
  then show ?case by simp
next
  case (Cons x xs)
  then obtain n where n: "N p = Some n" "p = fst x" "list_at N (node_next n) xs"
    by (auto split: option.splits)
  show ?case
  proof (cases "node_next n")
    case None
    then have "last_node N p = Some p" using n(1) by (simp add: last_node.simps [of N p])
    with n None show ?thesis by (cases xs) auto
  next
    case (Some q)
    then have "last_node N p = last_node N q" using n(1) by (simp add: last_node.simps [of N p])
    with n Some Cons.IH [of q] show ?thesis by auto
  qed
qed

lemma last_node_data:
  "list_at N p xs \<Longrightarrow> xs \<noteq> [] \<Longrightarrow> N (fst (last xs)) = Some \<lparr>node_data = snd (last xs), node_next = None\<rparr>"
proof (induction xs arbitrary: p)
  case Nil
  then show ?case by simp
next
  case (Cons x xs)
  then show ?case by (cases xs) (auto split: option.splits)
qed

text \<open>Linking a further cell behind the last one.\<close>

lemma list_at_link:
  "list_at N p xs \<Longrightarrow> xs \<noteq> [] \<Longrightarrow> distinct (map fst xs) \<Longrightarrow> a \<notin> fst ` set xs \<Longrightarrow>
    N a = Some \<lparr>node_data = d, node_next = None\<rparr> \<Longrightarrow>
    list_at (N(fst (last xs) \<mapsto> \<lparr>node_data = snd (last xs), node_next = Some a\<rparr>)) p (xs @ [(a, d)])"
proof (induction xs arbitrary: p)
  case Nil
  then show ?case by simp
next
  case (Cons x xs)
  show ?case
  proof (cases "xs = []")
    case True
    with Cons.prems show ?thesis by (auto split: option.splits)
  next
    case False
    obtain n where n: "N (fst x) = Some n" "node_data n = snd x" "list_at N (node_next n) xs" "p = Some (fst x)"
      using Cons.prems(1) by (auto split: option.splits)
    have "fst (last xs) \<in> fst ` set xs" using last_in_set [OF False] by (rule imageI)
    then have ne: "fst (last xs) \<noteq> fst x" using Cons.prems(3) by (metis distinct.simps(2) list.simps(9) list.set_map)
    from Cons.IH [OF n(3) False] Cons.prems(3-5) ne n False show ?thesis by simp
  qed
qed

lemma list_at_same:
  assumes "list_at N p xs" and "N a = Some n"
  shows "list_at (N(a \<mapsto> n)) p xs"
  using list_at_frame [OF assms(1), of "N(a \<mapsto> n)"] assms(2) by (simp add: fun_upd_idem)

lemma print_nodes_list:
  "list_at N p xs \<Longrightarrow> (\<And>x. x \<in> set xs \<Longrightarrow> pr (snd x) = Some (txt x)) \<Longrightarrow>
    print_nodes N pr p = Some (concat (map txt xs))"
proof (induction xs arbitrary: p)
  case Nil
  then show ?case by (simp add: print_nodes.simps)
next
  case (Cons x xs)
  then obtain n where n: "N (fst x) = Some n" "node_data n = snd x" "list_at N (node_next n) xs" "p = Some (fst x)"
    by (auto split: option.splits)
  from Cons.IH [OF n(3)] Cons.prems(2) n show ?case by (simp add: print_nodes.simps [of N pr "Some (fst x)"])
qed

text \<open>
  Appending to a list always returns. With memory, the list afterwards is the old one
  followed by a new cell that carries the data; an empty list becomes that one cell. Without
  memory the list is the old one: the element is dropped. No data of the heap is touched.
\<close>

lemma push_back_appends:
  assumes "heap_ok h" and "list_at (nodes h) head xs"
  shows "\<exists>head' h'. push_back mok head data h = Some (head', h') \<and> heap_ok h' \<and> qmps h' = qmps h \<and>
    list_at (nodes h') head' (if mok (mallocs h) then xs @ [(next_addr h, data)] else xs) \<and>
    (head \<noteq> None \<longrightarrow> head' = head)"
proof -
  obtain node h1 where c: "create_node mok data h = (node, h1)" by fastforce
  have ok1: "heap_ok h1" using heap_ok_create_node [OF assms(1), of mok data] by (simp add: c)
  have fresh: "nodes h (next_addr h) = None" using assms(1) by (simp add: heap_ok_def)
  then have new: "x \<in> set xs \<Longrightarrow> fst x \<noteq> next_addr h" for x using list_at_live [OF assms(2), of x] by auto
  have same: "x \<in> set xs \<Longrightarrow> nodes h1 (fst x) = nodes h (fst x)" for x
    using c new [of x] by (auto simp: create_node_def split: if_splits)
  have old: "list_at (nodes h1) head xs" by (rule list_at_frame [OF assms(2) same])
  have q: "qmps h1 = qmps h" and node: "node = (if mok (mallocs h) then Some (next_addr h) else None)"
    using c by (auto simp: create_node_def split: if_splits)
  have cell: "mok (mallocs h) \<Longrightarrow> nodes h1 (next_addr h) = Some \<lparr>node_data = data, node_next = None\<rparr>"
    using c by (auto simp: create_node_def)
  show ?thesis
  proof (cases head)
    case None
    then have xs: "xs = []" using assms(2) by (cases xs) auto
    have "push_back mok head data h = Some (node, h1)" by (simp add: push_back_def c None)
    moreover have "list_at (nodes h1) node (if mok (mallocs h) then xs @ [(next_addr h, data)] else xs)"
      using cell xs node by (auto split: option.splits)
    ultimately show ?thesis using ok1 q None by blast
  next
    case (Some p)
    let ?l = "last xs"
    have ne: "xs \<noteq> []" and last: "last_node (nodes h1) p = Some (fst ?l)"
      using last_node_list [of "nodes h1" p xs] old Some by auto
    have ln: "nodes h1 (fst ?l) = Some \<lparr>node_data = snd ?l, node_next = None\<rparr>"
      by (rule last_node_data [OF old ne])
    let ?n = "\<lparr>node_data = snd ?l, node_next = node\<rparr>"
    let ?h = "h1\<lparr>nodes := (nodes h1)(fst ?l \<mapsto> ?n)\<rparr>"
    have r: "push_back mok head data h = Some (head, ?h)" using last ln by (simp add: push_back_def c Some)
    have "heap_ok ?h" using ok1 ln by (auto simp: heap_ok_def)
    moreover have "list_at (nodes ?h) head (if mok (mallocs h) then xs @ [(next_addr h, data)] else xs)"
    proof (cases "mok (mallocs h)")
      case True
      have "next_addr h \<notin> fst ` set xs" using new by force
      from list_at_link [OF old ne list_at_distinct [OF old] this cell [OF True]] show ?thesis
        by (simp add: True node)
    next
      case False
      from list_at_same [OF old ln] show ?thesis by (simp add: False node)
    qed
    ultimately show ?thesis using r q by auto
  qed
qed

definition heap_empty :: user_heap where
  "heap_empty = \<lparr>nodes = (\<lambda>_. None), qmps = (\<lambda>_. None), next_addr = 1, mallocs = 0\<rparr>"

lemma heap_ok_empty [simp]: "heap_ok heap_empty"
  by (simp add: heap_ok_def heap_empty_def)

end
