(* ===== verification/Qmp_Client.thy ===== *)
theory Qmp_Client
  imports Linked_List C_Text
begin

text \<open>
  The part of \<^verbatim>\<open>pvsched-ebpf/host/user/register_vm.c\<close> that talks to a VM's monitor (QMP):
  connecting, sending a command, reading a reply line into a buffer, and extracting the thread
  and index of every vCPU from the reply. What it prints for the user is left out, except that
  it walks the list it built in order to print it.
\<close>

subsection \<open>The connection\<close>

text \<open>
  What is still to be read from the socket, one byte or one failing \<open>read\<close> at a time; when
  it is used up the peer has closed the connection. \<open>write_ok n\<close> is whether the n-th
  \<open>write\<close> goes through; \<open>connect_ok n\<close> whether the n-th \<open>connect\<close> does.
\<close>

datatype read_result = Rd char | Rd_error

record qmp_sock =
  sock_in :: "read_result list"
  sock_out :: "string list"

record qmp_env =
  socket_ok :: bool
  connect_ok :: "nat \<Rightarrow> bool"
  write_ok :: "nat \<Rightarrow> bool"

definition UNIX_PATH_SIZE :: nat where
  "UNIX_PATH_SIZE = 108"

partial_function (option) connect_loop :: "(nat \<Rightarrow> bool) \<Rightarrow> nat \<Rightarrow> nat option" where
  "connect_loop connected n = (if connected n then Some n else connect_loop connected (Suc n))"

text \<open>
  The result is whether a descriptor is returned; one that is not returned has been closed.
\<close>

definition qmp_connect :: "qmp_env \<Rightarrow> string \<Rightarrow> bool option" where
  "qmp_connect env path =
     (if \<not> socket_ok env then Some False
      else if UNIX_PATH_SIZE \<le> length path then Some False
      else do { n \<leftarrow> connect_loop (connect_ok env) 0; Some True })"

subsection \<open>Reading a line\<close>

text \<open>
  The loop of \<open>qmp_read_line\<close>: \<open>lim\<close> is \<open>bufsz - 1\<close>, computed on 64 bits. \<open>Inl ()\<close> is the
  result -1. A store outside the buffer is \<open>None\<close>.
\<close>

fun read_loop ::
  "u64 \<Rightarrow> read_result list \<Rightarrow> u64 \<Rightarrow> string \<Rightarrow> ((unit + u64) \<times> string \<times> read_result list) option" where
  "read_loop lim [] tot buf = Some (Inr tot, buf, [])"
| "read_loop lim (x # xs) tot buf =
     (if \<not> tot < lim then Some (Inr tot, buf, x # xs)
      else case x of Rd_error \<Rightarrow> Some (Inl (), buf, xs)
      | Rd c \<Rightarrow>
          if length buf \<le> unat tot then None
          else let buf' = buf[unat tot := c] in
            if c = CHR 0x0A then Some (Inr (tot + 1), buf', xs)
            else read_loop lim xs (tot + 1) buf')"

definition qmp_read_line ::
  "u64 \<Rightarrow> string \<Rightarrow> qmp_sock \<Rightarrow> ((unit + u64) \<times> string \<times> qmp_sock) option" where
  "qmp_read_line bufsz buf s = do {
     (ret, buf1, rest) \<leftarrow> read_loop (bufsz - 1) (sock_in s) 0 buf;
     (case ret of
        Inl u \<Rightarrow> Some (Inl u, buf1, s\<lparr>sock_in := rest\<rparr>)
      | Inr tot \<Rightarrow>
          if length buf1 \<le> unat tot then None
          else Some (Inr tot, buf1[unat tot := nul], s\<lparr>sock_in := rest\<rparr>))
   }"

definition qmp_send_recv ::
  "qmp_env \<Rightarrow> string \<Rightarrow> u64 \<Rightarrow> string \<Rightarrow> qmp_sock \<Rightarrow> (bool \<times> string \<times> qmp_sock) option" where
  "qmp_send_recv env cmd bufsz buf s =
     (if \<not> write_ok env (length (sock_out s)) then Some (False, buf, s)
      else do {
        (ret, buf1, s1) \<leftarrow> qmp_read_line bufsz buf (s\<lparr>sock_out := sock_out s @ [cmd]\<rparr>);
        Some ((case ret of Inl _ \<Rightarrow> False | Inr _ \<Rightarrow> True), buf1, s1)
      })"

subsection \<open>Extracting the vCPUs\<close>

definition entry_key :: string where
  "entry_key = ''{'' @ [CHR 0x22] @ ''thread-id'' @ [CHR 0x22] @ '': ''"

definition cpu_key :: string where
  "cpu_key = [CHR 0x22] @ ''cpu-index'' @ [CHR 0x22] @ '': ''"

definition print_vcpu :: "(addr \<Rightarrow> qmp_vpcu option) \<Rightarrow> ptr \<Rightarrow> string option" where
  "print_vcpu Q data =
     (case data of None \<Rightarrow> Some ''''
      | Some a \<Rightarrow> (case Q a of None \<Rightarrow> None
          | Some v \<Rightarrow> Some ([CHR 0x0A] @ ''cpu='' @ show_int (cpuIndex v) @ '' thread='' @ show_int (threadId v) @ [CHR 0x0A])))"

text \<open>
  One turn of the loop per occurrence of the entry key. The boolean says whether the loop ran
  to its end; it leaves early when there is no memory for a vCPU.
\<close>

function extract_loop :: "(nat \<Rightarrow> bool) \<Rightarrow> string \<Rightarrow> ptr \<Rightarrow> user_heap \<Rightarrow> (bool \<times> ptr \<times> user_heap) option" where
  "extract_loop mok str head h =
     (case strstr str entry_key of None \<Rightarrow> Some (True, head, h)
      | Some s \<Rightarrow>
          let s1 = drop (length entry_key) s in do {
            thread_id \<leftarrow> sscanf_d s1 (- 1);
            cpu_index \<leftarrow> (case strstr s1 cpu_key of None \<Rightarrow> Some (- 1)
                          | Some c \<Rightarrow> sscanf_d (drop (length cpu_key) c) (- 1));
            (case malloc_qmp mok \<lparr>cpuIndex = cpu_index, threadId = thread_id\<rparr> h of
               (None, h1) \<Rightarrow> Some (False, head, h1)
             | (Some v, h1) \<Rightarrow> do {
                 (head1, h2) \<leftarrow> push_back mok head (Some v) h1;
                 extract_loop mok s1 head1 h2
               })
          })"
  by pat_completeness auto

lemma length_entry_key [simp]: "length entry_key = 14"
  by (simp add: entry_key_def)

termination extract_loop
proof (relation "measure (\<lambda>(mok, str, head, h). length str)")
  show "wf (measure (\<lambda>(mok :: nat \<Rightarrow> bool, str :: string, head :: ptr, h :: user_heap). length str))" by simp
next
  fix mok str head h s x xa xb xc x2 xd xe y
  assume "strstr str entry_key = Some s" and "x = drop (length entry_key) s"
  then show "((mok, x, xe, y), mok, str, head, h) \<in> measure (\<lambda>(mok, str, head, h). length str)"
    using strstr_length [of str entry_key s] prefix_length_le [OF strstr_prefix, of str entry_key s] by auto
qed

declare extract_loop.simps [simp del]

definition extract_vcpu_info :: "(nat \<Rightarrow> bool) \<Rightarrow> string \<Rightarrow> user_heap \<Rightarrow> (ptr \<times> user_heap) option" where
  "extract_vcpu_info mok query_result h =
     (case create_node mok None h of
        (None, h1) \<Rightarrow> Some (None, h1)
      | (Some a, h1) \<Rightarrow> do {
          (done_all, head, h2) \<leftarrow> extract_loop mok query_result (Some a) h1;
          if done_all then do {
            out \<leftarrow> print_nodes (nodes h2) (print_vcpu (qmps h2)) head;
            Some (head, h2)
          } else Some (head, h2)
        })"

subsection \<open>Reading a line stays inside the buffer\<close>

primrec first_line :: "string \<Rightarrow> string" where
  "first_line [] = []"
| "first_line (c # cs) = (if c = CHR 0x0A then [c] else c # first_line cs)"

text \<open>A line as it travels: no other newline and no NUL.\<close>

definition is_line :: "string \<Rightarrow> bool" where
  "is_line x \<longleftrightarrow> x \<noteq> [] \<and> last x = CHR 0x0A \<and> CHR 0x0A \<notin> set (butlast x) \<and> c_string x"

lemma first_line_append: "is_line x \<Longrightarrow> first_line (x @ rest) = x"
proof (induction x)
  case Nil
  then show ?case by (simp add: is_line_def)
next
  case (Cons c x)
  then show ?case by (cases "x = []") (auto simp: is_line_def c_string_def split: if_splits)
qed

lemma first_line_prefix: "prefix (first_line cs) cs"
  by (induction cs) auto

lemma unat_step: "t < l \<Longrightarrow> unat (t + 1) = unat t + 1 \<and> unat t < unat l" for t l :: u64
  by (metis unat_add_one_no_wrap word_less_nat_alt Suc_eq_plus1 Suc_leI le_less_trans unsigned_less)

lemma read_loop_safe:
  assumes "unat lim < length buf"
  shows "\<exists>ret buf' rest. read_loop lim xs t buf = Some (ret, buf', rest) \<and> length buf' = length buf \<and>
    (\<forall>n. ret = Inr n \<longrightarrow> t \<le> lim \<longrightarrow> n \<le> lim)"
  using assms
proof (induction xs arbitrary: t buf)
  case Nil
  then show ?case by simp
next
  case (Cons x xs)
  show ?case
  proof (cases "t < lim \<and> x \<noteq> Rd_error")
    case True
    then obtain c where x: "x = Rd c" by (cases x) auto
    have t: "unat (t + 1) = unat t + 1" "unat t < unat lim" using unat_step [of t lim] True by auto
    then have le: "t + 1 \<le> lim" by (simp add: word_le_nat_alt)
    from Cons.IH [of "buf[unat t := c]" "t + 1"] Cons.prems
    obtain ret buf' rest where "read_loop lim xs (t + 1) (buf[unat t := c]) = Some (ret, buf', rest)"
        "length buf' = length buf" "\<forall>n. ret = Inr n \<longrightarrow> n \<le> lim" using le by auto
    with x True t le Cons.prems show ?thesis by (cases "c = CHR 0x0A") auto
  next
    case False
    then show ?thesis by (cases x) auto
  qed
qed

lemma read_loop_line:
  fixes lim t :: u64
  defines "got \<equiv> \<lambda>t cs. take (unat lim - unat t) (first_line cs)"
  assumes "unat lim < length buf" and "unat t \<le> unat lim"
  shows "read_loop lim (map Rd cs) t buf =
    Some (Inr (t + of_nat (length (got t cs))),
      take (unat t) buf @ got t cs @ drop (unat t + length (got t cs)) buf,
      map Rd (drop (length (got t cs)) cs))"
  using assms(2,3)
proof (induction cs arbitrary: t buf)
  case Nil
  then show ?case by (simp add: got_def)
next
  case (Cons c cs)
  show ?case
  proof (cases "t < lim")
    case False
    then have "unat lim - unat t = 0" by (simp add: word_less_nat_alt)
    with False show ?thesis by (simp add: got_def)
  next
    case True
    have t: "unat (t + 1) = unat t + 1" "unat t < unat lim" using unat_step [OF True] by auto
    let ?b = "buf[unat t := c]"
    have pre: "take (Suc (unat t)) ?b = take (unat t) buf @ [c]"
      using t Cons.prems by (simp add: take_Suc_conv_app_nth)
    have post: "drop (Suc (unat t) + n) ?b = drop (Suc (unat t) + n) buf" for n by simp
    have d: "unat lim - unat t = Suc (unat lim - unat (t + 1))" using t by simp
    show ?thesis
    proof (cases "c = CHR 0x0A")
      case nl: True
      have "got t (c # cs) = [c]" using d nl by (simp add: got_def)
      moreover have "?b = take (unat t) buf @ c # drop (Suc (unat t)) buf"
        using t Cons.prems by (simp add: upd_conv_take_nth_drop)
      ultimately show ?thesis using True nl t Cons.prems by simp
    next
      case other: False
      have got: "got t (c # cs) = c # got (t + 1) cs" using d other by (simp add: got_def)
      have "read_loop lim (map Rd (c # cs)) t buf = read_loop lim (map Rd cs) (t + 1) ?b"
        using True other t Cons.prems by simp
      also have "\<dots> = Some (Inr (t + 1 + of_nat (length (got (t + 1) cs))),
          take (unat t + 1) ?b @ got (t + 1) cs @ drop (unat t + 1 + length (got (t + 1) cs)) ?b,
          map Rd (drop (length (got (t + 1) cs)) cs))"
        using Cons.IH [of ?b "t + 1"] t Cons.prems by simp
      finally show ?thesis by (simp add: got pre del: take_update_swap) 
    qed
  qed
qed

subsection \<open>Extracting from a well-formed reply\<close>

text \<open>
  The dummy head at \<open>a\<close> and behind it one cell per vCPU, whose data are the given numbers.
\<close>

definition vcpu_cells :: "user_heap \<Rightarrow> (addr \<times> ptr) list \<Rightarrow> qmp_vpcu list \<Rightarrow> bool" where
  "vcpu_cells h xs qs \<longleftrightarrow> list_all2 (\<lambda>x q. \<exists>a. snd x = Some a \<and> qmps h a = Some q) xs qs"

definition vcpu_list :: "user_heap \<Rightarrow> addr \<Rightarrow> qmp_vpcu list \<Rightarrow> bool" where
  "vcpu_list h a qs \<longleftrightarrow> (\<exists>xs. list_at (nodes h) (Some a) ((a, None) # xs) \<and> vcpu_cells h xs qs)"

lemma vcpu_cells_alloc:
  assumes "heap_ok h" and "vcpu_cells h xs qs" and "qmps h' = (qmps h)(next_addr h \<mapsto> q)"
  shows "vcpu_cells h' xs qs"
proof -
  have "qmps h (next_addr h) = None" using assms(1) by (simp add: heap_ok_def)
  with assms(3) have "qmps h a = Some v \<Longrightarrow> qmps h' a = Some v" for a v by auto
  then show ?thesis using assms(2) unfolding vcpu_cells_def
    by (rule_tac list_all2_mono [where P = "\<lambda>x q. \<exists>a. snd x = Some a \<and> qmps h a = Some q"]) auto
qed

text \<open>One vCPU more: its numbers and its cell are allocated and the cell linked.\<close>

lemma vcpu_list_push:
  assumes "heap_ok h" and "vcpu_list h a qs" and "\<And>n. mok n"
  shows "\<exists>v h1 h2. malloc_qmp mok q h = (Some v, h1) \<and> push_back mok (Some a) (Some v) h1 = Some (Some a, h2) \<and>
    heap_ok h2 \<and> vcpu_list h2 a (qs @ [q])"
proof -
  let ?h1 = "snd (malloc_qmp mok q h)"
  have m: "malloc_qmp mok q h = (Some (next_addr h), ?h1)" and q1: "qmps ?h1 = (qmps h)(next_addr h \<mapsto> q)"
    and n1: "nodes ?h1 = nodes h"
    using assms(3) by (auto simp: malloc_qmp_def)
  obtain xs where xs: "list_at (nodes h) (Some a) ((a, None) # xs)" "vcpu_cells h xs qs"
    using assms(2) by (auto simp: vcpu_list_def)
  obtain h2 where h2: "push_back mok (Some a) (Some (next_addr h)) ?h1 = Some (Some a, h2)" "heap_ok h2"
      "qmps h2 = qmps ?h1"
      "list_at (nodes h2) (Some a) ((a, None) # xs @ [(next_addr ?h1, Some (next_addr h))])"
    using push_back_appends [OF heap_ok_malloc_qmp [OF assms(1), of mok q], of "Some a" "(a, None) # xs" mok "Some (next_addr h)"]
      xs(1) assms(3) by (auto simp: n1 simp del: list_at.simps)
  have "vcpu_cells h2 xs qs" by (rule vcpu_cells_alloc [OF assms(1) xs(2)]) (simp add: h2(3) q1)
  then have "vcpu_cells h2 (xs @ [(next_addr ?h1, Some (next_addr h))]) (qs @ [q])"
    using h2(3) q1 by (simp add: vcpu_cells_def list_all2_appendI)
  with h2(4) have "vcpu_list h2 a (qs @ [q])" unfolding vcpu_list_def by blast
  with m h2(1,2) show ?thesis by blast
qed

text \<open>
  A reply of \<open>query-cpus-fast\<close>: some text, then per vCPU the entry key, the thread id, more
  text, the index key, the index, and text up to the next entry.
\<close>

record reply_entry =
  re_thread :: int
  re_mid :: string
  re_cpu :: int
  re_tail :: string

definition entry_body :: "reply_entry \<Rightarrow> string" where
  "entry_body e = show_int (re_thread e) @ re_mid e @ cpu_key @ show_int (re_cpu e) @ re_tail e"

definition reply_text :: "string \<Rightarrow> reply_entry list \<Rightarrow> string" where
  "reply_text pre es = pre @ concat (map (\<lambda>e. entry_key @ entry_body e) es)"

definition ends_number :: "string \<Rightarrow> bool" where
  "ends_number t \<longleftrightarrow> t \<noteq> [] \<and> \<not> is_digit (hd t)"

definition entry_ok :: "reply_entry \<Rightarrow> bool" where
  "entry_ok e \<longleftrightarrow> fits_int (re_thread e) \<and> fits_int (re_cpu e) \<and> ends_number (re_mid e) \<and> ends_number (re_tail e) \<and>
     strstr (re_mid e) cpu_key = None \<and> strstr (entry_body e) entry_key = None"

definition entry_vcpu :: "reply_entry \<Rightarrow> qmp_vpcu" where
  "entry_vcpu e = \<lparr>cpuIndex = re_cpu e, threadId = re_thread e\<rparr>"

lemma unbordered_keys: "unbordered entry_key" "unbordered cpu_key"
  by code_simp+

lemma cpu_key_hd: "cpu_key \<noteq> []" "hd cpu_key = CHR 0x22"
  by (simp_all add: cpu_key_def)

lemma scan_entry:
  assumes "entry_ok e"
  shows "sscanf_d (entry_body e @ rest) v = Some (re_thread e)"
    and "strstr (entry_body e @ rest) cpu_key = Some (cpu_key @ show_int (re_cpu e) @ re_tail e @ rest)"
    and "sscanf_d (show_int (re_cpu e) @ re_tail e @ rest) v = Some (re_cpu e)"
proof -
  have e: "fits_int (re_thread e)" "fits_int (re_cpu e)" "ends_number (re_mid e)" "ends_number (re_tail e)"
    "strstr (re_mid e) cpu_key = None" using assms by (auto simp: entry_ok_def)
  show "sscanf_d (entry_body e @ rest) v = Some (re_thread e)"
    using scan_show_int [of "re_mid e @ cpu_key @ show_int (re_cpu e) @ re_tail e @ rest" "re_thread e"] e
    by (auto simp: sscanf_d_def entry_body_def ends_number_def)
  show "sscanf_d (show_int (re_cpu e) @ re_tail e @ rest) v = Some (re_cpu e)"
    using scan_show_int [of "re_tail e @ rest" "re_cpu e"] e by (auto simp: sscanf_d_def ends_number_def)
  have "CHR 0x22 \<notin> set (show_int (re_thread e))" using show_int_chars [of "CHR 0x22"] by blast
  then have "strstr (entry_body e @ rest) cpu_key =
      strstr (re_mid e @ cpu_key @ show_int (re_cpu e) @ re_tail e @ rest) cpu_key"
    using strstr_skip [OF cpu_key_hd(1), of "show_int (re_thread e)"] by (simp add: entry_body_def cpu_key_hd)
  also have "\<dots> = Some (cpu_key @ show_int (re_cpu e) @ re_tail e @ rest)"
    by (rule strstr_first [OF unbordered_keys(2) e(5)])
  finally show "strstr (entry_body e @ rest) cpu_key = Some (cpu_key @ show_int (re_cpu e) @ re_tail e @ rest)" .
qed

lemma extract_loop_reply:
  assumes "\<And>n. mok n" and "heap_ok h" and "vcpu_list h a qs" and "strstr pre entry_key = None" and "\<And>e. e \<in> set es \<Longrightarrow> entry_ok e"
  shows "\<exists>h'. extract_loop mok (reply_text pre es) (Some a) h = Some (True, Some a, h') \<and>
    heap_ok h' \<and> vcpu_list h' a (qs @ map entry_vcpu es)"
  using assms(2-5)
proof (induction es arbitrary: pre qs h)
  case Nil
  then have "extract_loop mok (reply_text pre []) (Some a) h = Some (True, Some a, h)"
    by (subst extract_loop.simps) (simp add: reply_text_def)
  with Nil show ?case by simp
next
  case (Cons e es)
  let ?rest = "concat (map (\<lambda>e. entry_key @ entry_body e) es)"
  have ok: "entry_ok e" using Cons.prems(4) by simp
  have eq: "reply_text pre (e # es) = pre @ entry_key @ entry_body e @ ?rest" by (simp add: reply_text_def)
  have find: "strstr (reply_text pre (e # es)) entry_key = Some (entry_key @ entry_body e @ ?rest)"
    unfolding eq by (rule strstr_first [OF unbordered_keys(1) Cons.prems(3)])
  have cut: "drop (length cpu_key) (cpu_key @ t) = t" "drop (length entry_key) (entry_key @ t) = t" for t by simp_all
  have next_text: "reply_text (entry_body e) es = entry_body e @ ?rest" by (simp add: reply_text_def)
  obtain v h1 h2 where p: "malloc_qmp mok (entry_vcpu e) h = (Some v, h1)"
      "push_back mok (Some a) (Some v) h1 = Some (Some a, h2)" "heap_ok h2" "vcpu_list h2 a (qs @ [entry_vcpu e])"
    using vcpu_list_push [OF Cons.prems(1,2), of mok "entry_vcpu e"] assms(1) by blast
  have step: "extract_loop mok (reply_text pre (e # es)) (Some a) h =
      extract_loop mok (reply_text (entry_body e) es) (Some a) h2"
    using p(1,2) scan_entry [OF ok, of ?rest]
    by (subst extract_loop.simps) (simp add: find cut entry_vcpu_def next_text del: length_entry_key)
  have "strstr (entry_body e) entry_key = None" using ok by (simp add: entry_ok_def)
  moreover have "\<And>e'. e' \<in> set es \<Longrightarrow> entry_ok e'" using Cons.prems(4) by simp
  ultimately obtain h' where "extract_loop mok (reply_text (entry_body e) es) (Some a) h2 = Some (True, Some a, h')"
      "heap_ok h'" "vcpu_list h' a ((qs @ [entry_vcpu e]) @ map entry_vcpu es)"
    using Cons.IH [OF p(3,4)] by blast
  then show ?case unfolding step by auto
qed

lemma print_vcpu_list:
  assumes "vcpu_list h a qs"
  shows "\<exists>out. print_nodes (nodes h) (print_vcpu (qmps h)) (Some a) = Some out"
proof -
  obtain xs where xs: "list_at (nodes h) (Some a) ((a, None) # xs)" "vcpu_cells h xs qs"
    using assms by (auto simp: vcpu_list_def)
  have live: "print_vcpu (qmps h) (snd x) \<noteq> None" if "x \<in> set ((a, None) # xs)" for x
  proof (cases "x = (a, None)")
    case True
    then show ?thesis by (simp add: print_vcpu_def)
  next
    case False
    with that have "x \<in> set xs" by simp
    then obtain b q where "snd x = Some b" "qmps h b = Some q"
      using xs(2) by (auto simp: vcpu_cells_def list_all2_conv_all_nth in_set_conv_nth)
    then show ?thesis by (simp add: print_vcpu_def)
  qed
  have "print_nodes (nodes h) (print_vcpu (qmps h)) (Some a) =
      Some (concat (map (\<lambda>x. the (print_vcpu (qmps h) (snd x))) ((a, None) # xs)))"
    by (rule print_nodes_list [OF xs(1)]) (rule option.collapse [OF live, symmetric])
  then show ?thesis by blast
qed

text \<open>
  From a reply that lists vCPUs in the form the monitor prints them, the thread id and index
  of every vCPU are extracted, in order: the call returns, and its result is a list on the heap
  with a dummy head followed by exactly these pairs.
\<close>

lemma extract_vcpu_info_reply:
  assumes "\<forall>n. mok n" and "heap_ok h" and "strstr pre entry_key = None" and "\<forall>e \<in> set es. entry_ok e"
  shows "\<exists>a h'. extract_vcpu_info mok (reply_text pre es) h = Some (Some a, h') \<and> heap_ok h' \<and>
    vcpu_list h' a (map entry_vcpu es)"
proof -
  let ?a = "next_addr h"
  obtain h1 where c: "create_node mok None h = (Some ?a, h1)" using assms(1) by (simp add: create_node_def)
  have ok: "heap_ok h1" using heap_ok_create_node [OF assms(2), of mok None] by (simp add: c)
  have l: "vcpu_list h1 ?a []" using assms(1) c by (auto simp: vcpu_list_def vcpu_cells_def create_node_def)
  obtain h' where h': "extract_loop mok (reply_text pre es) (Some ?a) h1 = Some (True, Some ?a, h')" "heap_ok h'"
      "vcpu_list h' ?a (map entry_vcpu es)"
    using extract_loop_reply [OF _ ok l assms(3), of mok es] assms(1,4) by auto
  obtain out where "print_nodes (nodes h') (print_vcpu (qmps h')) (Some ?a) = Some out"
    using print_vcpu_list [OF h'(3)] by blast
  with c h' show ?thesis by (simp add: extract_vcpu_info_def)
qed

lemma qmp_read_line_text:
  assumes "0 < bufsz" and "length buf = unat bufsz"
  shows "\<exists>ret buf' s'. qmp_read_line bufsz buf s = Some (ret, buf', s') \<and> length buf' = length buf \<and>
    (\<forall>cs. sock_in s = map Rd cs \<and> c_string cs \<longrightarrow>
      (let got = take (unat bufsz - 1) (first_line cs) in
        ret = Inr (of_nat (length got)) \<and> c_str buf' = got \<and> sock_in s' = map Rd (drop (length got) cs)))"
proof -
  have pos: "0 < unat bufsz" using assms(1) by (simp add: unat_gt_0 word_neq_0_conv)
  have lim: "unat (bufsz - 1) = unat bufsz - 1" using assms(1) by (simp add: unat_minus_one word_greater_zero_iff)
  have room: "unat (bufsz - 1) < length buf" using pos by (simp add: lim assms(2))
  obtain ret b rest where r: "read_loop (bufsz - 1) (sock_in s) 0 buf = Some (ret, b, rest)" "length b = length buf"
      "\<And>n. ret = Inr n \<Longrightarrow> n \<le> bufsz - 1"
    using read_loop_safe [OF room, of "sock_in s" 0] by auto
  let ?b = "case ret of Inl _ \<Rightarrow> b | Inr n \<Rightarrow> b[unat n := nul]"
  have in_buf: "unat n < length b" if "ret = Inr n" for n
    using r(2) r(3) [OF that] room by (simp add: word_le_nat_alt)
  have run: "qmp_read_line bufsz buf s = Some (ret, ?b, s\<lparr>sock_in := rest\<rparr>)"
    using r(1) in_buf by (auto simp: qmp_read_line_def not_le split: sum.splits)
  have line: "let got = take (unat bufsz - 1) (first_line cs) in
      ret = Inr (of_nat (length got)) \<and> c_str ?b = got \<and> rest = map Rd (drop (length got) cs)"
    if cs: "sock_in s = map Rd cs" "c_string cs" for cs
  proof -
    define got where "got = take (unat bufsz - 1) (first_line cs)"
    have n: "length got \<le> unat bufsz - 1" by (simp add: got_def)
    have eq: "ret = Inr (of_nat (length got))" "b = got @ drop (length got) buf" "rest = map Rd (drop (length got) cs)"
      using read_loop_line [OF room, of 0 cs] r(1) cs(1) by (auto simp: lim got_def)
    have "unat bufsz < 2 ^ 64" using unsigned_less [of bufsz] by simp
    with n have small: "length got < 2 ^ 64" by simp
    have cg: "c_string got"
      using cs(2) set_mono_prefix [OF first_line_prefix, of cs] by (auto simp: got_def c_string_def dest!: in_set_takeD)
    have "length got < length buf" using n pos by (simp add: assms(2))
    then have "b[length got := nul] = got @ nul # drop (Suc (length got)) buf"
      using eq(2) by (simp add: list_update_append upd_conv_take_nth_drop)
    moreover have "takeWhile (\<lambda>c. c \<noteq> nul) (got @ nul # t) = got" for t
      using cg by (auto simp: c_string_def takeWhile_append)
    ultimately have "c_str ?b = got" using eq(1) small by (simp add: c_str_def unat_of_nat_u64)
    with eq show ?thesis by (simp add: got_def Let_def)
  qed
  have len: "length ?b = length buf" using r(2) by (cases ret) auto
  show ?thesis
  proof (intro exI [of _ ret] exI [of _ ?b] exI [of _ "s\<lparr>sock_in := rest\<rparr>"] conjI allI impI run len)
    fix cs
    assume cs: "sock_in s = map Rd cs \<and> c_string cs"
    have "sock_in (s\<lparr>sock_in := rest\<rparr>) = rest" by simp
    with line [OF conjunct1 [OF cs] conjunct2 [OF cs]] show "let got = take (unat bufsz - 1) (first_line cs) in ret = Inr (of_nat (length got)) \<and>
        c_str ?b = got \<and> sock_in (s\<lparr>sock_in := rest\<rparr>) = map Rd (drop (length got) cs)" by (simp only:)
  qed
qed

lemma qmp_read_line_one:
  assumes "0 < bufsz" and "length buf = unat bufsz" and "sock_in s = map Rd (l @ rest)" and "is_line l" and "c_string rest"
    and "length l < unat bufsz"
  shows "\<exists>n buf' s'. qmp_read_line bufsz buf s = Some (Inr n, buf', s') \<and> length buf' = unat bufsz \<and> c_str buf' = l \<and>
    sock_in s' = map Rd rest"
proof -
  have got: "take (unat bufsz - 1) (first_line (l @ rest)) = l" using assms(6) by (simp add: first_line_append [OF assms(4)])
  have cs: "c_string (l @ rest)" using assms(4,5) by (simp add: is_line_def cstr_simps)
  from qmp_read_line_text [OF assms(1,2), of s] obtain ret buf' s' where r:
    "qmp_read_line bufsz buf s = Some (ret, buf', s')" "length buf' = unat bufsz"
    "\<forall>cs. sock_in s = map Rd cs \<and> c_string cs \<longrightarrow> (let got = take (unat bufsz - 1) (first_line cs) in
        ret = Inr (of_nat (length got)) \<and> c_str buf' = got \<and> sock_in s' = map Rd (drop (length got) cs))"
    using assms(2) by metis
  from spec [OF r(3), of "l @ rest"] assms(3) cs have "ret = Inr (of_nat (length l))" "c_str buf' = l" "sock_in s' = map Rd rest"
    unfolding got Let_def by auto
  with r(1,2) show ?thesis by blast
qed

subsection \<open>Properties\<close>

text \<open>
  C38. With a buffer of at least one byte, reading a line never stores outside the buffer,
  whatever the peer sends. If no read fails, the buffer then holds the first line of the text,
  newline included, or as much of it as fits, closed by a NUL, and exactly these bytes have been
  taken from the socket.
\<close>

theorem qmp_read_line_reads:
  assumes "0 < bufsz" and "length buf = unat bufsz"
  shows "\<exists>ret buf' s'. qmp_read_line bufsz buf s = Some (ret, buf', s') \<and> length buf' = length buf \<and>
    (\<forall>cs. sock_in s = map Rd cs \<and> c_string cs \<longrightarrow>
      (let got = take (unat bufsz - 1) (first_line cs) in
        ret = Inr (of_nat (length got)) \<and> c_str buf' = got \<and> sock_in s' = map Rd (drop (length got) cs)))"
  by (rule qmp_read_line_text [OF assms])

theorem qmp_read_line_reads_witness:
  "\<exists>buf' s'. qmp_read_line 8 (replicate 8 nul) \<lparr>sock_in = map Rd (''ok'' @ [CHR 0x0A] @ ''x''), sock_out = []\<rparr> =
      Some (Inr 3, buf', s') \<and> c_str buf' = ''ok'' @ [CHR 0x0A] \<and> sock_in s' = [Rd CHR ''x'']"
  using qmp_read_line_reads [of 8 "replicate 8 nul" "\<lparr>sock_in = map Rd (''ok'' @ [CHR 0x0A] @ ''x''), sock_out = []\<rparr>"]
  by (auto simp: c_string_def Let_def dest!: spec [of _ "''ok'' @ [CHR 0x0A] @ ''x''"])

text \<open>
  A size of zero, which the tool computes for zero vCPUs, makes the limit wrap around: the first
  byte read is stored outside the buffer.
\<close>

lemma qmp_read_line_zero: "sock_in s = Rd c # xs \<Longrightarrow> qmp_read_line 0 [] s = None"
  by (simp add: qmp_read_line_def)

subsection \<open>An example reply\<close>

definition reply_example :: "reply_entry list" where
  "reply_example = [\<lparr>re_thread = 41, re_mid = '', '', re_cpu = 0, re_tail = ''}, ''\<rparr>,
     \<lparr>re_thread = 42, re_mid = '', '', re_cpu = 1, re_tail = ''}]}'' @ [CHR 0x0A]\<rparr>]"

lemma reply_example_ok:
  "strstr ''['' entry_key = None" "\<forall>e \<in> set reply_example. entry_ok e" "is_line (reply_text ''['' reply_example)"
  by (simp_all add: reply_example_def entry_ok_def entry_body_def entry_key_def cpu_key_def ends_number_def fits_int_def
        show_int_def show_nat.simps is_digit_def is_line_def reply_text_def c_string_def char_of_def)

end
