(* ===== verification/Vm_Registration.thy ===== *)
theory Vm_Registration
  imports Qmp_Client Phantom_Switch
begin

text \<open>
  The userspace side of the host maps: \<^verbatim>\<open>pvsched-ebpf/host/include/register_vm.h\<close>
  (\<open>cleanup_stale_vcpus\<close>, \<open>register_vm\<close>, \<open>setup_vm_maps\<close>), the main program of
  \<^verbatim>\<open>host/user/register_vm.c\<close>, and \<^verbatim>\<open>host/user/cleanup.c\<close>. Every allocation and system
  call may fail: \<open>mok n\<close> is the answer of the n-th \<open>malloc\<close> or \<open>realloc\<close>, \<open>sysret n\<close> the
  answer of the n-th system call (\<open>None\<close> is success). A call that fails for a reason the state
  shows, such as a name that is missing or taken, fails whatever the environment says.
\<close>

named_theorems tool_defs \<open>allocations and system calls of the tools\<close>

subsection \<open>State\<close>

text \<open>
  \<open>th_heap\<close> holds the linked list; \<open>th_host\<close> the kernel's maps; \<open>dirs\<close> and \<open>pins\<close> are the
  directories and pinned maps of the bpf file system, \<open>map_ids\<close> the next map the kernel
  creates; \<open>fds\<close> and \<open>chunks\<close> count open descriptors and live allocations other than the list.
\<close>

record tool_state =
  th_heap :: user_heap
  th_host :: host_state
  dirs :: "string set"
  pins :: "string \<Rightarrow> nat option"
  map_ids :: nat
  fds :: int
  chunks :: int
  syscalls :: nat

record tool_env =
  mok :: "nat \<Rightarrow> bool"
  sysret :: "nat \<Rightarrow> errno option"
  key_order :: "u32 list"
  dir_entries :: "string list"

text \<open>The answer of the next allocation and of the next system call.\<close>

definition alloc :: "tool_env \<Rightarrow> tool_state \<Rightarrow> bool \<times> tool_state" where
  [tool_defs]: "alloc env s =
     (let h = th_heap s; ok = mok env (mallocs h);
          s1 = s\<lparr>th_heap := h\<lparr>mallocs := Suc (mallocs h)\<rparr>\<rparr>
      in (ok, if ok then s1\<lparr>chunks := chunks s1 + 1\<rparr> else s1))"

definition free :: "tool_state \<Rightarrow> tool_state" where
  [tool_defs]: "free s = s\<lparr>chunks := chunks s - 1\<rparr>"

definition sys :: "tool_env \<Rightarrow> tool_state \<Rightarrow> errno option \<times> tool_state" where
  [tool_defs]: "sys env s = (sysret env (syscalls s), s\<lparr>syscalls := Suc (syscalls s)\<rparr>)"

text \<open>\<open>bpf_obj_get\<close>, \<open>bpf_map_create\<close> and the like: a descriptor or -1.\<close>

definition sys_fd :: "tool_env \<Rightarrow> tool_state \<Rightarrow> errno option \<times> tool_state" where
  [tool_defs]: "sys_fd env s =
     (let (r, s1) = sys env s in (r, if r = None then s1\<lparr>fds := fds s1 + 1\<rparr> else s1))"

definition close :: "tool_state \<Rightarrow> tool_state" where
  [tool_defs]: "close s = s\<lparr>fds := fds s - 1\<rparr>"

text \<open>A change of the kernel's maps.\<close>

definition on_host :: "(host_state \<Rightarrow> host_state) \<Rightarrow> tool_state \<Rightarrow> tool_state" where
  [tool_defs]: "on_host f s = s\<lparr>th_host := f (th_host s)\<rparr>"

subsection \<open>Stale vCPUs\<close>

text \<open>
  The loop over the keys of \<open>vcpus\<close>, in the order \<open>bpf_map_get_next_key\<close> gives them
  (\<open>key_order\<close>), collecting those to delete in an array that doubles when it is full; \<open>None\<close>
  when it cannot grow. The map holds at most ten million entries, so the capacity stays an \<open>int\<close>.
\<close>

fun stale_keys ::
  "tool_env \<Rightarrow> string \<Rightarrow> u32 list \<Rightarrow> nat \<Rightarrow> u32 list \<Rightarrow> tool_state \<Rightarrow> u32 list option \<times> tool_state" where
  "stale_keys env name [] capacity keys s = (Some keys, s)"
| "stale_keys env name (key # rest) capacity keys s =
     (case vcpus (th_host s) key of None \<Rightarrow> stale_keys env name rest capacity keys s
      | Some vcpu \<Rightarrow>
          if c_str (vm_name vcpu) = name then
            (if capacity \<le> length keys then
               (let ok = mok env (mallocs (th_heap s));
                    s1 = s\<lparr>th_heap := (th_heap s)\<lparr>mallocs := Suc (mallocs (th_heap s))\<rparr>\<rparr>
                in if ok then stale_keys env name rest (2 * capacity) (keys @ [key]) s1 else (None, s1))
             else stale_keys env name rest capacity (keys @ [key]) s)
          else stale_keys env name rest capacity keys s)"

definition delete_vcpu :: "tool_env \<Rightarrow> u32 \<Rightarrow> tool_state \<Rightarrow> tool_state" where
  "delete_vcpu env key s =
     (let (r, s1) = sys env s in
      if vcpus (th_host s) key \<noteq> None \<and> r = None
      then on_host (\<lambda>h. h\<lparr>vcpus := (vcpus h)(key := None)\<rparr>) s1 else s1)"

definition cleanup_stale_vcpus :: "tool_env \<Rightarrow> string \<Rightarrow> tool_state \<Rightarrow> tool_state" where
  "cleanup_stale_vcpus env name s =
     (let (ok, s1) = alloc env s in
      if \<not> ok then s1
      else case stale_keys env name (key_order env) 1024 [] s1 of
        (None, s2) \<Rightarrow> free s2
      | (Some keys, s2) \<Rightarrow> free (fold (delete_vcpu env) keys s2))"

subsection \<open>Registering a VM\<close>

definition fresh_vm :: "string \<Rightarrow> s32 \<Rightarrow> vm_t" where
  "fresh_vm socket nb = \<lparr>qmp_socket = fill_buf 128 socket, vm_phantom_count = 0,
     collection_buff_1_index = 0, collection_buff_2_index = 0, is_collectx_in_buff_1 = 0,
     nb_vcpus = nb, h2g_history_index = 0\<rparr>"

definition fresh_vcpu :: "string \<Rightarrow> qmp_vpcu \<Rightarrow> vcpu_t" where
  "fresh_vcpu name q = \<lparr>vcpu_index = of_int (cpuIndex q), vm_name = vm_key name, is_phantom = 0\<rparr>"

definition put_vcpu :: "string \<Rightarrow> qmp_vpcu \<Rightarrow> host_state \<Rightarrow> host_state" where
  "put_vcpu name q h = h\<lparr>vcpus := (vcpus h)(of_int (threadId q) \<mapsto> fresh_vcpu name q)\<rparr>"

text \<open>The loop over the list of vCPUs; the boolean is whether it ran to its end.\<close>

partial_function (option) register_vcpus ::
  "tool_env \<Rightarrow> string \<Rightarrow> ptr \<Rightarrow> tool_state \<Rightarrow> (bool \<times> tool_state) option" where
  "register_vcpus env name temp s =
     (case temp of None \<Rightarrow> Some (True, s)
      | Some p \<Rightarrow> do {
          n \<leftarrow> nodes (th_heap s) p;
          (let (ok, s1) = alloc env s in
           if \<not> ok then Some (False, s1)
           else do {
             d \<leftarrow> node_data n;
             q \<leftarrow> qmps (th_heap s1) d;
             (let (r, s2) = sys env s1 in
              if r \<noteq> None then Some (False, free s2)
              else register_vcpus env name (node_next n) (free (on_host (put_vcpu name q) s2)))
           })
        })"

definition register_vm ::
  "tool_env \<Rightarrow> addr \<Rightarrow> string \<Rightarrow> string \<Rightarrow> s32 \<Rightarrow> tool_state \<Rightarrow> (bool \<times> tool_state) option" where
  "register_vm env head name socket nb s =
     (let (ok, s1) = alloc env s in
      if \<not> ok then Some (False, s1)
      else
        let (r1, s2) = sys_fd env s1 in
        if r1 \<noteq> None then Some (False, free s2)
        else
          let (r2, s3) = sys_fd env s2 in
          if r2 \<noteq> None then Some (False, free (close s3))
          else
            let s4 = cleanup_stale_vcpus env name s3;
                (r3, s5) = sys env s4
            in if r3 \<noteq> None then Some (False, free (close (close s5)))
               else
                 let s6 = on_host (\<lambda>h. h\<lparr>vms := (vms h)(vm_key name \<mapsto> fresh_vm socket nb)\<rparr>) s5 in do {
                   n \<leftarrow> nodes (th_heap s6) head;
                   (ret, s7) \<leftarrow> register_vcpus env name (node_next n) s6;
                   Some (ret, free (close (close s7)))
                 })"

subsection \<open>The sample buffers of a VM\<close>

definition PIN_BASE :: string where
  "PIN_BASE = ''/sys/fs/bpf''"

definition VM_MAP_MAX_ENTRIES :: nat where
  "VM_MAP_MAX_ENTRIES = 1000000"

text \<open>\<open>snprintf\<close> into a \<open>char[n]\<close> keeps the first \<open>n - 1\<close> characters.\<close>

definition vm_dir :: "nat \<Rightarrow> string \<Rightarrow> string" where
  "vm_dir n name = take (n - 1) (PIN_BASE @ ''/'' @ name)"

definition buffer_path :: "string \<Rightarrow> char \<Rightarrow> string" where
  "buffer_path name d = take 127 (PIN_BASE @ ''/'' @ name @ ''/collection_buff_'' @ [d])"

definition mkdir :: "tool_env \<Rightarrow> string \<Rightarrow> tool_state \<Rightarrow> errno option \<times> tool_state" where
  "mkdir env path s =
     (let (r, s1) = sys env s in
      if path \<in> dirs s then (Some EEXIST, s1)
      else (r, if r = None then s1\<lparr>dirs := insert path (dirs s1)\<rparr> else s1))"

definition bpf_map_create :: "tool_env \<Rightarrow> tool_state \<Rightarrow> errno option \<times> nat \<times> tool_state" where
  "bpf_map_create env s =
     (let (r, s1) = sys_fd env s; mid = map_ids s1 in
      if r \<noteq> None then (r, mid, s1)
      else (None, mid, on_host (\<lambda>h. h\<lparr>inner_maps := (inner_maps h)(mid :=
              \<lparr>arr_max = VM_MAP_MAX_ENTRIES, arr_val = (\<lambda>_. phantom_count_zero)\<rparr>)\<rparr>)
            (s1\<lparr>map_ids := Suc mid\<rparr>)))"

definition unlink :: "tool_env \<Rightarrow> string \<Rightarrow> tool_state \<Rightarrow> errno option \<times> tool_state" where
  "unlink env path s =
     (let (r, s1) = sys env s in
      if pins s path = None then (Some ENOENT, s1)
      else (r, if r = None then s1\<lparr>pins := (pins s1)(path := None)\<rparr> else s1))"

definition bpf_obj_pin :: "tool_env \<Rightarrow> nat \<Rightarrow> string \<Rightarrow> tool_state \<Rightarrow> errno option \<times> tool_state" where
  "bpf_obj_pin env mid path s =
     (let (r, s1) = sys env s in
      if pins s path \<noteq> None then (Some EEXIST, s1)
      else (r, if r = None then s1\<lparr>pins := (pins s1)(path \<mapsto> mid)\<rparr> else s1))"

definition registry_update :: "tool_env \<Rightarrow> string \<Rightarrow> nat \<Rightarrow> tool_state \<Rightarrow> errno option \<times> tool_state" where
  "registry_update env key mid s =
     (let (r, s1) = sys env s in
      (r, if r = None then on_host (\<lambda>h. h\<lparr>map_registry := (map_registry h)(key \<mapsto> mid)\<rparr>) s1 else s1))"

definition cleanup_registry :: "bool \<Rightarrow> tool_state \<Rightarrow> bool \<times> tool_state" where
  "cleanup_registry ret s = (ret, close s)"

definition cleanup_collection :: "bool \<Rightarrow> tool_state \<Rightarrow> bool \<times> tool_state" where
  "cleanup_collection ret s = cleanup_registry ret (close s)"

definition cleanup_processing :: "bool \<Rightarrow> tool_state \<Rightarrow> bool \<times> tool_state" where
  "cleanup_processing ret s = cleanup_collection ret (close s)"

definition setup_vm_maps :: "tool_env \<Rightarrow> string \<Rightarrow> tool_state \<Rightarrow> bool \<times> tool_state" where
  "setup_vm_maps env name s =
     (let (r1, s1) = sys_fd env s in
      if r1 \<noteq> None then (False, s1) else
      let (r2, s2) = mkdir env (vm_dir 128 name) s1 in
      if r2 \<noteq> None \<and> r2 \<noteq> Some EEXIST then cleanup_registry False s2 else
      let (r3, collection, s3) = bpf_map_create env s2 in
      if r3 \<noteq> None then cleanup_registry False s3 else
      let (_, s4) = unlink env (buffer_path name CHR ''1'') s3;
          (r5, s5) = bpf_obj_pin env collection (buffer_path name CHR ''1'') s4 in
      if r5 \<noteq> None then cleanup_collection False s5 else
      let (r6, processing, s6) = bpf_map_create env s5 in
      if r6 \<noteq> None then cleanup_collection False s6 else
      let (_, s7) = unlink env (buffer_path name CHR ''2'') s6;
          (r8, s8) = bpf_obj_pin env processing (buffer_path name CHR ''2'') s7 in
      if r8 \<noteq> None then cleanup_processing False s8 else
      let (r9, s9) = registry_update env (registry_key CHR ''1'' name) collection s8 in
      if r9 \<noteq> None then cleanup_processing False s9 else
      let (r10, s10) = registry_update env (registry_key CHR ''2'' name) processing s9 in
      if r10 \<noteq> None then cleanup_processing False s10 else
      cleanup_processing True s10)"

subsection \<open>The registration program\<close>

definition QMP_VCPU_SIZE :: u64 where
  "QMP_VCPU_SIZE = 4096"

definition qmp_capabilities :: string where
  "qmp_capabilities = ''{ '' @ [CHR 0x22] @ ''execute'' @ [CHR 0x22] @ '': '' @ [CHR 0x22] @ ''qmp_capabilities'' @ [CHR 0x22] @ '' }''"

definition query_cpus :: string where
  "query_cpus = ''{ '' @ [CHR 0x22] @ ''execute'' @ [CHR 0x22] @ '': '' @ [CHR 0x22] @ ''query-cpus-fast'' @ [CHR 0x22] @ '' }''"

text \<open>The conversation with the monitor: \<open>None\<close> in the result is one of its failing exits.\<close>

definition qmp_query :: "qmp_env \<Rightarrow> u64 \<Rightarrow> string \<Rightarrow> qmp_sock \<Rightarrow> string option option" where
  "qmp_query qenv bufsz buff sock = do {
     (ret1, b1, k1) \<leftarrow> qmp_read_line bufsz (replicate (length buff) nul) sock;
     (case ret1 of Inl _ \<Rightarrow> Some None
      | Inr _ \<Rightarrow> do {
          (ok2, b2, k2) \<leftarrow> qmp_send_recv qenv qmp_capabilities bufsz b1 k1;
          if \<not> ok2 then Some None
          else do {
            (ok3, b3, k3) \<leftarrow> qmp_send_recv qenv query_cpus bufsz b2 k2;
            Some (if ok3 then Some (c_str b3) else None)
          }
        })
   }"

text \<open>
  \<open>main\<close> on the arguments after the program name. The buffer is what \<open>malloc\<close> returned:
  \<open>bufsz\<close> bytes of any content. The result is the exit code.
\<close>

definition register_vm_main ::
  "tool_env \<Rightarrow> qmp_env \<Rightarrow> qmp_sock \<Rightarrow> (u64 \<Rightarrow> string) \<Rightarrow> string list \<Rightarrow> tool_state \<Rightarrow> (nat \<times> tool_state) option" where
  "register_vm_main env qenv sock garbage args s =
     (case args of unix_socket # name # nb # _ \<Rightarrow> do {
        nb_vcpus \<leftarrow> atoi nb;
        (let bufsz = of_int nb_vcpus * QMP_VCPU_SIZE; (ok, s1) = alloc env s in
         if \<not> ok then Some (1, s1)
         else do {
           connected \<leftarrow> qmp_connect qenv unix_socket;
           if \<not> connected then Some (1, free s1)
           else
             let s2 = s1\<lparr>fds := fds s1 + 1\<rparr> in do {
               reply \<leftarrow> qmp_query qenv bufsz (garbage bufsz) sock;
               (case reply of None \<Rightarrow> Some (1, free (close s2))
                | Some txt_in \<Rightarrow> do {
                    (head, h) \<leftarrow> extract_vcpu_info (mok env) txt_in (th_heap s2);
                    (let s3 = s2\<lparr>th_heap := h\<rparr> in
                     case head of None \<Rightarrow> Some (1, free (close s3))
                     | Some a \<Rightarrow> do {
                         (ok4, s4) \<leftarrow> register_vm env a name unix_socket (of_int nb_vcpus) s3;
                         if \<not> ok4 then Some (1, free (close s4))
                         else
                           let (ok5, s5) = setup_vm_maps env name s4 in
                           Some (if ok5 then 0 else 1, free (close s5))
                       })
                  })
             }
         })
      } | _ \<Rightarrow> Some (1, s))"

subsection \<open>Removing a VM\<close>

fun unlink_entries :: "tool_env \<Rightarrow> string \<Rightarrow> string list \<Rightarrow> bool \<Rightarrow> tool_state \<Rightarrow> bool \<times> tool_state" where
  "unlink_entries env dir_path [] ret s = (ret, s)"
| "unlink_entries env dir_path (d_name # rest) ret s =
     (if d_name = ''.'' \<or> d_name = ''..'' then unlink_entries env dir_path rest ret s
      else
        let (r, s1) = unlink env (take 319 (dir_path @ ''/'' @ d_name)) s in
        unlink_entries env dir_path rest (ret \<and> r = None) s1)"

definition unlink_dir_contents :: "tool_env \<Rightarrow> string \<Rightarrow> tool_state \<Rightarrow> bool \<times> tool_state" where
  "unlink_dir_contents env dir_path s =
     (let (r0, s1) = sys env s; r = (if dir_path \<notin> dirs s then Some ENOENT else r0) in
      if r \<noteq> None then (r = Some ENOENT, s1)
      else
        let (ret, s2) = unlink_entries env dir_path (dir_entries env) True (s1\<lparr>fds := fds s1 + 1\<rparr>)
        in (ret, close s2))"

definition rmdir :: "tool_env \<Rightarrow> string \<Rightarrow> tool_state \<Rightarrow> errno option \<times> tool_state" where
  "rmdir env path s =
     (let (r, s1) = sys env s in
      if path \<notin> dirs s then (Some ENOENT, s1)
      else if \<exists>d \<in> set (dir_entries env). pins s (path @ ''/'' @ d) \<noteq> None then (Some (ECODE 39), s1)
      else (r, if r = None then s1\<lparr>dirs := dirs s1 - {path}\<rparr> else s1))"

text \<open>\<open>bpf_map_delete_elem\<close> on a map of which \<open>has\<close> says whether the key is there.\<close>

definition map_delete ::
  "tool_env \<Rightarrow> bool \<Rightarrow> (host_state \<Rightarrow> host_state) \<Rightarrow> tool_state \<Rightarrow> errno option \<times> tool_state" where
  "map_delete env has f s =
     (let (r, s1) = sys env s in
      if \<not> has then (Some ENOENT, s1) else (r, if r = None then on_host f s1 else s1))"

definition failed :: "errno option \<Rightarrow> bool" where
  "failed r \<longleftrightarrow> r \<noteq> None \<and> r \<noteq> Some ENOENT"

definition delete_registry_key :: "tool_env \<Rightarrow> string \<Rightarrow> tool_state \<Rightarrow> errno option \<times> tool_state" where
  "delete_registry_key env key s =
     map_delete env (map_registry (th_host s) key \<noteq> None)
       (\<lambda>h. h\<lparr>map_registry := (map_registry h)(key := None)\<rparr>) s"

definition delete_vm :: "tool_env \<Rightarrow> string \<Rightarrow> tool_state \<Rightarrow> errno option \<times> tool_state" where
  "delete_vm env name s =
     map_delete env (vms (th_host s) (vm_key name) \<noteq> None)
       (\<lambda>h. h\<lparr>vms := (vms h)(vm_key name := None)\<rparr>) s"

definition cleanup_main :: "tool_env \<Rightarrow> string list \<Rightarrow> tool_state \<Rightarrow> nat \<times> tool_state" where
  "cleanup_main env args s =
     (case args of [] \<Rightarrow> (1, s)
      | name # _ \<Rightarrow>
          let path = vm_dir 256 name;
              (ok1, s1) = unlink_dir_contents env path s;
              (r2, s2) = rmdir env path s1;
              ret2 = (ok1 \<and> \<not> failed r2);
              (r3, s3) = sys_fd env s2;
              (ret3, s6) = (if r3 = None then
                  let (r4, s4) = delete_registry_key env (registry_key CHR ''1'' name) s3;
                      (r5, s5) = delete_registry_key env (registry_key CHR ''2'' name) s4
                  in (ret2 \<and> \<not> failed r4 \<and> \<not> failed r5, close s5)
                else (ret2 \<and> \<not> failed r3, s3));
              (r7, s7) = sys_fd env s6;
              (ret7, s8) = (if r7 = None then
                  let (r8, s8) = delete_vm env name s7 in (ret3 \<and> \<not> failed r8, close s8)
                else (ret3 \<and> \<not> failed r7, s7));
              (r9, s9) = sys_fd env s8;
              (ret9, s10) = (if r9 = None then (ret7, close (cleanup_stale_vcpus env name s9))
                else (ret7 \<and> \<not> failed r9, s9))
          in (if ret9 then 0 else 1, s10))"

subsection \<open>What a call leaves as it was\<close>

text \<open>
  Descriptors, allocations and the list are as before; the kernel's state other than the maps of
  VMs, vCPUs and buffers is never touched.
\<close>

definition balanced :: "tool_state \<Rightarrow> tool_state \<Rightarrow> bool" where
  "balanced s s' \<longleftrightarrow> fds s' = fds s \<and> chunks s' = chunks s \<and>
     nodes (th_heap s') = nodes (th_heap s) \<and> qmps (th_heap s') = qmps (th_heap s)"

definition same_files :: "tool_state \<Rightarrow> tool_state \<Rightarrow> bool" where
  "same_files s s' \<longleftrightarrow> dirs s' = dirs s \<and> pins s' = pins s \<and> map_ids s' = map_ids s"

lemma balanced_trans: "balanced s s' \<Longrightarrow> balanced s' s'' \<Longrightarrow> balanced s s''"
  by (simp add: balanced_def)

lemma same_files_trans: "same_files s s' \<Longrightarrow> same_files s' s'' \<Longrightarrow> same_files s s''"
  by (simp add: same_files_def)

text \<open>Nothing fails.\<close>

definition calm :: "tool_env \<Rightarrow> bool" where
  "calm env \<longleftrightarrow> (\<forall>n. mok env n) \<and> (\<forall>n. sysret env n = None)"

lemma calmD [simp]: "calm env \<Longrightarrow> mok env n" "calm env \<Longrightarrow> sysret env n = None"
  by (auto simp: calm_def)

lemma alloc_result:
  assumes "alloc env s = (ok, s1)"
  shows "th_host s1 = th_host s" "fds s1 = fds s" "chunks s1 = (if ok then chunks s + 1 else chunks s)" "same_files s s1"
    "nodes (th_heap s1) = nodes (th_heap s)" "qmps (th_heap s1) = qmps (th_heap s)" "calm env \<Longrightarrow> ok"
  using assms by (auto simp: tool_defs Let_def same_files_def)

lemma sys_result:
  assumes "sys env s = (r, s1)"
  shows "th_host s1 = th_host s" "fds s1 = fds s" "chunks s1 = chunks s" "same_files s s1"
    "th_heap s1 = th_heap s" "calm env \<Longrightarrow> r = None"
  using assms by (auto simp: tool_defs same_files_def)

lemma sys_fd_result:
  assumes "sys_fd env s = (r, s1)"
  shows "th_host s1 = th_host s" "fds s1 = (if r = None then fds s + 1 else fds s)" "chunks s1 = chunks s" "same_files s s1"
    "th_heap s1 = th_heap s" "calm env \<Longrightarrow> r = None"
  using assms by (auto simp: tool_defs Let_def same_files_def split: if_splits)

lemma free_close_simps [simp]:
  "th_host (free s) = th_host s" "fds (free s) = fds s" "chunks (free s) = chunks s - 1" "th_heap (free s) = th_heap s"
  "same_files s' (free s) = same_files s' s"
  "th_host (close s) = th_host s" "fds (close s) = fds s - 1" "chunks (close s) = chunks s" "th_heap (close s) = th_heap s"
  "same_files s' (close s) = same_files s' s"
  "th_host (on_host f s) = f (th_host s)" "fds (on_host f s) = fds s" "chunks (on_host f s) = chunks s"
  "th_heap (on_host f s) = th_heap s" "same_files s' (on_host f s) = same_files s' s"
  by (auto simp: tool_defs same_files_def)

subsection \<open>Stale vCPUs are forgotten\<close>

definition stale :: "string \<Rightarrow> host_state \<Rightarrow> u32 \<Rightarrow> bool" where
  "stale name h k = (case vcpus h k of None \<Rightarrow> False | Some v \<Rightarrow> c_str (vm_name v) = name)"

definition forget_vcpus :: "string \<Rightarrow> host_state \<Rightarrow> host_state" where
  "forget_vcpus name h = h\<lparr>vcpus := (\<lambda>k. if stale name h k then None else vcpus h k)\<rparr>"

lemma stale_keys_result:
  "\<exists>m. snd (stale_keys env name order cap keys s) = s\<lparr>th_heap := (th_heap s)\<lparr>mallocs := m\<rparr>\<rparr> \<and>
    (fst (stale_keys env name order cap keys s) = Some (keys @ filter (stale name (th_host s)) order) \<or>
     fst (stale_keys env name order cap keys s) = None \<and> \<not> (\<forall>n. mok env n))"
proof (induction order arbitrary: cap keys s)
  case Nil
  show ?case by (intro exI [of _ "mallocs (th_heap s)"]) simp
next
  case (Cons k ks)
  let ?s1 = "s\<lparr>th_heap := (th_heap s)\<lparr>mallocs := Suc (mallocs (th_heap s))\<rparr>\<rparr>"
  show ?case
    using Cons.IH [of cap keys s] Cons.IH [of cap "keys @ [k]" s] Cons.IH [of "2 * cap" "keys @ [k]" ?s1]
    by (auto simp: stale_def Let_def split: option.splits)
qed

lemma fold_delete_vcpu:
  "\<exists>n V. fold (delete_vcpu env) keys s = s\<lparr>syscalls := n, th_host := (th_host s)\<lparr>vcpus := V\<rparr>\<rparr> \<and>
    (calm env \<longrightarrow> V = (\<lambda>k. if k \<in> set keys then None else vcpus (th_host s) k)) \<and>
    (\<forall>k. V k = None \<or> V k = vcpus (th_host s) k)"
proof (induction keys arbitrary: s)
  case Nil
  show ?case by (intro exI [of _ "syscalls s"] exI [of _ "vcpus (th_host s)"]) simp
next
  case (Cons k ks)
  let ?s1 = "delete_vcpu env k s"
  have one: "\<exists>n V. ?s1 = s\<lparr>syscalls := n, th_host := (th_host s)\<lparr>vcpus := V\<rparr>\<rparr> \<and>
      (calm env \<longrightarrow> V = (vcpus (th_host s))(k := None)) \<and> (\<forall>k. V k = None \<or> V k = vcpus (th_host s) k)"
    by (rule exI [of _ "Suc (syscalls s)"],
        rule exI [of _ "if vcpus (th_host s) k \<noteq> None \<and> sysret env (syscalls s) = None
          then (vcpus (th_host s))(k := None) else vcpus (th_host s)"])
      (auto simp: delete_vcpu_def tool_defs fun_upd_idem)
  then obtain n V where s1: "?s1 = s\<lparr>syscalls := n, th_host := (th_host s)\<lparr>vcpus := V\<rparr>\<rparr>"
      "calm env \<Longrightarrow> V = (vcpus (th_host s))(k := None)" "\<And>k. V k = None \<or> V k = vcpus (th_host s) k" by blast
  obtain n' V' where r: "fold (delete_vcpu env) ks ?s1 = ?s1\<lparr>syscalls := n', th_host := (th_host ?s1)\<lparr>vcpus := V'\<rparr>\<rparr>"
      "calm env \<Longrightarrow> V' = (\<lambda>k. if k \<in> set ks then None else vcpus (th_host ?s1) k)"
      "\<And>k. V' k = None \<or> V' k = vcpus (th_host ?s1) k"
    using Cons.IH [of ?s1] by blast
  have "V' k' = None \<or> V' k' = vcpus (th_host s) k'" for k' using r(3) [of k'] s1(1) s1(3) [of k'] by auto
  then show ?case
    by (intro exI [of _ n'] exI [of _ V']) (use r(1,2) s1(1,2) in \<open>auto simp: fun_eq_iff\<close>)
qed

lemma cleanup_stale_vcpus_result:
  "balanced s (cleanup_stale_vcpus env name s) \<and> same_files s (cleanup_stale_vcpus env name s) \<and>
    (\<exists>V. th_host (cleanup_stale_vcpus env name s) = (th_host s)\<lparr>vcpus := V\<rparr> \<and>
       (\<forall>k. V k = None \<or> V k = vcpus (th_host s) k)) \<and>
    (calm env \<and> set (key_order env) = dom (vcpus (th_host s)) \<longrightarrow>
       th_host (cleanup_stale_vcpus env name s) = forget_vcpus name (th_host s))"
proof -
  obtain ok s1 where a: "alloc env s = (ok, s1)" by fastforce
  note s1 = alloc_result [OF a]
  obtain keys s2 where st: "stale_keys env name (key_order env) 1024 [] s1 = (keys, s2)" by fastforce
  obtain m where s2: "s2 = s1\<lparr>th_heap := (th_heap s1)\<lparr>mallocs := m\<rparr>\<rparr>"
      and ks0: "keys = Some ([] @ filter (stale name (th_host s1)) (key_order env)) \<or> keys = None \<and> \<not> (\<forall>n. mok env n)"
    using stale_keys_result [of env name "key_order env" 1024 "[]" s1] unfolding st fst_conv snd_conv by blast
  have s2k: "keys = Some (filter (stale name (th_host s)) (key_order env)) \<or> keys = None \<and> \<not> calm env"
    using ks0 unfolding s1(1) calm_def append.simps by blast
  have host_id: "\<exists>V. th_host s = (th_host s)\<lparr>vcpus := V\<rparr> \<and> (\<forall>k. V k = None \<or> V k = vcpus (th_host s) k)" by (rule exI [of _ "vcpus (th_host s)"]) simp
  show ?thesis
  proof (cases "ok \<and> keys \<noteq> None")
    case False
    then have "\<not> calm env" using s1(7) s2k by auto
    moreover have "cleanup_stale_vcpus env name s = (if ok then free s2 else s1)"
      using False a st by (auto simp: cleanup_stale_vcpus_def)
    moreover have "th_host (if ok then free s2 else s1) = th_host s" "balanced s (if ok then free s2 else s1)"
        "same_files s (if ok then free s2 else s1)"
      using s1(1-6) s2 by (auto simp: balanced_def same_files_def tool_defs)
    ultimately show ?thesis using host_id by (simp only: simp_thms)
  next
    case True
    then obtain ks where ks: "keys = Some ks" "ks = filter (stale name (th_host s)) (key_order env)" using s2k by auto
    obtain n V where f: "fold (delete_vcpu env) ks s2 = s2\<lparr>syscalls := n, th_host := (th_host s2)\<lparr>vcpus := V\<rparr>\<rparr>"
        "calm env \<Longrightarrow> V = (\<lambda>k. if k \<in> set ks then None else vcpus (th_host s2) k)"
        "\<And>k. V k = None \<or> V k = vcpus (th_host s2) k"
      using fold_delete_vcpu [of env ks s2] by blast
    have r: "cleanup_stale_vcpus env name s = free (s2\<lparr>syscalls := n, th_host := (th_host s2)\<lparr>vcpus := V\<rparr>\<rparr>)"
      using True a st ks f(1) by (simp add: cleanup_stale_vcpus_def)
    have "V = (\<lambda>k. if stale name (th_host s) k then None else vcpus (th_host s) k)"
      if "calm env" "set (key_order env) = dom (vcpus (th_host s))"
      using f(2) [OF that(1)] that(2) s1(1) s2 by (auto simp: ks(2) stale_def fun_eq_iff split: option.splits)
    moreover have "balanced s (cleanup_stale_vcpus env name s)" "same_files s (cleanup_stale_vcpus env name s)"
        "th_host (cleanup_stale_vcpus env name s) = (th_host s)\<lparr>vcpus := V\<rparr>"
      using s1(1-6) s2 True by (auto simp: r balanced_def same_files_def tool_defs)
    moreover have "V k = None \<or> V k = vcpus (th_host s) k" for k using f(3) [of k] s2 s1(1) by simp
    ultimately show ?thesis by (auto simp: forget_vcpus_def)
  qed
qed

subsection \<open>Types of the stored values\<close>

text \<open>
  The kernel compares all 64 bytes of a key. A name is stored as it must be when it is the
  zero-padded array of the string it holds; the monitor's socket fills its 128 bytes.
\<close>

definition name_typed :: "string \<Rightarrow> bool" where
  "name_typed k \<longleftrightarrow> k = fill_buf VM_NAME_LEN (c_str k)"

definition host_typed :: "host_state \<Rightarrow> bool" where
  "host_typed h \<longleftrightarrow>
     (\<forall>k v. vms h k = Some v \<longrightarrow> name_typed k \<and> length (qmp_socket v) = 128) \<and>
     (\<forall>t v. vcpus h t = Some v \<longrightarrow> name_typed (vm_name v)) \<and>
     (\<forall>k m. map_registry h k = Some m \<longrightarrow> name_typed k)"

lemma name_typed_fill: "c_string n \<Longrightarrow> name_typed (fill_buf VM_NAME_LEN n)"
  unfolding name_typed_def by (subst c_str_fill_buf) (simp_all add: fill_buf_def)

lemma name_typed_vm_key [simp]: "c_string n \<Longrightarrow> name_typed (vm_key n)"
  by (simp add: vm_key_def name_typed_fill)

lemma name_typed_registry_key: "c_string n \<Longrightarrow> d \<noteq> nul \<Longrightarrow> name_typed (registry_key d n)"
  by (auto simp: registry_key_def c_string_def intro!: name_typed_fill)

lemma c_str_eq_vm_key:
  assumes "name_typed k" and "c_string n" and "length n \<le> 63"
  shows "c_str k = n \<longleftrightarrow> k = vm_key n"
proof
  assume "c_str k = n"
  then show "k = vm_key n" using assms(1) unfolding name_typed_def vm_key_def by metis
next
  assume "k = vm_key n"
  then show "c_str k = n" using assms(3) c_str_fill_buf [OF assms(2), of VM_NAME_LEN] by (simp add: vm_key_def VM_NAME_LEN_def)
qed

lemma host_typed_vcpus:
  assumes "host_typed h" and "\<And>t v. V t = Some v \<Longrightarrow> name_typed (vm_name v)"
  shows "host_typed (h\<lparr>vcpus := V\<rparr>)"
  using assms unfolding host_typed_def by simp

lemma host_typed_put: "host_typed h \<Longrightarrow> c_string name \<Longrightarrow> host_typed (put_vcpu name q h)"
  unfolding put_vcpu_def by (rule host_typed_vcpus) (auto simp: host_typed_def fresh_vcpu_def split: if_splits)

lemma host_typed_puts: "host_typed h \<Longrightarrow> c_string name \<Longrightarrow> host_typed (fold (put_vcpu name) qs h)"
  by (induction qs arbitrary: h) (auto simp: host_typed_put)

lemma host_typed_vm: "host_typed h \<Longrightarrow> c_string name \<Longrightarrow> host_typed (h\<lparr>vms := (vms h)(vm_key name \<mapsto> fresh_vm socket nb)\<rparr>)"
  by (auto simp: host_typed_def fresh_vm_def)

lemma host_typed_cleanup:
  assumes "host_typed (th_host s)"
  shows "host_typed (th_host (cleanup_stale_vcpus env name s))"
proof -
  obtain V where V: "th_host (cleanup_stale_vcpus env name s) = (th_host s)\<lparr>vcpus := V\<rparr>"
      "\<And>k. V k = None \<or> V k = vcpus (th_host s) k"
    using cleanup_stale_vcpus_result [of s env name] by blast
  show ?thesis
    unfolding V(1)
  proof (rule host_typed_vcpus [OF assms])
    fix t v
    assume "V t = Some v"
    with V(2) [of t] assms show "name_typed (vm_name v)" by (simp add: host_typed_def)
  qed
qed

subsection \<open>Registering\<close>

lemma vcpu_cells_cong: "qmps h' = qmps h \<Longrightarrow> vcpu_cells h' xs qs = vcpu_cells h xs qs"
  by (simp add: vcpu_cells_def)

text \<open>One turn of the loop that enters the vCPUs.\<close>

lemma register_vcpus_turn:
  assumes "alloc env s = (ok, s1)" and "sys env s1 = (r, s2)" and "s3 = free (on_host (put_vcpu name q) s2)"
  shows "\<not> ok \<Longrightarrow> balanced s s1" "ok \<Longrightarrow> balanced s (free s2)" "ok \<Longrightarrow> balanced s s3"
    and "same_files s s1" "same_files s (free s2)" "same_files s s3" and "calm env \<Longrightarrow> ok \<and> r = None"
    and "th_host s3 = put_vcpu name q (th_host s)" "nodes (th_heap s3) = nodes (th_heap s)" "qmps (th_heap s3) = qmps (th_heap s)"
    and "th_host s1 = th_host s" "th_host (free s2) = th_host s"
  using assms by (auto simp: balanced_def same_files_def tool_defs Let_def)

lemma register_vcpus_result:
  assumes "list_at (nodes (th_heap s)) p xs" and "vcpu_cells (th_heap s) xs qs"
  shows "\<exists>ret s'. register_vcpus env name p s = Some (ret, s') \<and> balanced s s' \<and> same_files s s' \<and>
    (calm env \<longrightarrow> ret) \<and> (ret \<longrightarrow> th_host s' = fold (put_vcpu name) qs (th_host s)) \<and>
    (\<exists>k. th_host s' = fold (put_vcpu name) (take k qs) (th_host s))"
  using assms
proof (induction xs arbitrary: p s qs)
  case Nil
  then have "register_vcpus env name p s = Some (True, s)" by (subst register_vcpus.simps) simp
  with Nil.prems(2) show ?case by (auto simp: balanced_def same_files_def vcpu_cells_def)
next
  case (Cons x xs)
  obtain n where n: "nodes (th_heap s) (fst x) = Some n" "node_data n = snd x" "list_at (nodes (th_heap s)) (node_next n) xs"
      "p = Some (fst x)" using Cons.prems(1) by (auto split: option.splits)
  obtain q qs' d where q: "qs = q # qs'" "snd x = Some d" "qmps (th_heap s) d = Some q" "vcpu_cells (th_heap s) xs qs'"
    using Cons.prems(2) by (auto simp: vcpu_cells_def list_all2_Cons1)
  obtain ok s1 where al: "alloc env s = (ok, s1)" by fastforce
  obtain r s2 where sy: "sys env s1 = (r, s2)" by fastforce
  define s3 where "s3 = free (on_host (put_vcpu name q) s2)"
  have unf: "register_vcpus env name p s =
      (if \<not> ok then Some (False, s1) else if r \<noteq> None then Some (False, free s2)
       else register_vcpus env name (node_next n) s3)"
    unfolding n(4) using n(1,2) q(2,3) al sy
    by (subst register_vcpus.simps) (auto simp: s3_def tool_defs Let_def)
  note b = register_vcpus_turn [OF al sy s3_def]
  have cells: "vcpu_cells (th_heap s3) xs qs'" using q(4) vcpu_cells_cong [OF b(10)] by simp
  from Cons.IH [OF n(3) [folded b(9)] cells]
  obtain ret s' where ih: "register_vcpus env name (node_next n) s3 = Some (ret, s')" "balanced s3 s'" "same_files s3 s'"
      "calm env \<longrightarrow> ret" "ret \<longrightarrow> th_host s' = fold (put_vcpu name) qs' (th_host s3)"
      "\<exists>k. th_host s' = fold (put_vcpu name) (take k qs') (th_host s3)" by blast
  obtain k where "th_host s' = fold (put_vcpu name) (take k qs') (th_host s3)" using ih(6) by blast
  then have k: "th_host s' = fold (put_vcpu name) (take (Suc k) qs) (th_host s)" by (simp add: q(1) b(8))
  show ?case
  proof (cases "ok \<and> r = None")
    case True
    have "ret \<longrightarrow> th_host s' = fold (put_vcpu name) qs (th_host s)" using ih(5) by (simp add: q(1) b(8))
    with True show ?thesis
      using ih(1-4) unf b(3,6) k balanced_trans [of s s3 s'] same_files_trans [of s s3 s']
      by (intro exI [of _ ret] exI [of _ s'] conjI) auto
  next
    case False
    then show ?thesis
      using unf b(1,2,4,5,7,11,12) exI [of "\<lambda>k. th_host s = fold (put_vcpu name) (take k qs) (th_host s)" 0] by (cases ok) auto
  qed
qed

definition registered :: "string \<Rightarrow> string \<Rightarrow> s32 \<Rightarrow> qmp_vpcu list \<Rightarrow> host_state \<Rightarrow> host_state" where
  "registered name socket nb qs h =
     fold (put_vcpu name) qs
       ((forget_vcpus name h)\<lparr>vms := (vms h)(vm_key name \<mapsto> fresh_vm socket nb)\<rparr>)"

text \<open>The buffer and the two descriptors \<open>register_vm\<close> begins with.\<close>

lemma register_vm_opens:
  assumes e1: "alloc env s = (ok, s1)" and e2: "sys_fd env s1 = (r1, s2)" and e3: "sys_fd env s2 = (r2, s3)"
  shows "same_files s s1" "same_files s s2" "same_files s s3"
    and "\<not> ok \<Longrightarrow> balanced s s1" "ok \<Longrightarrow> r1 \<noteq> None \<Longrightarrow> balanced s (free s2)"
      "ok \<Longrightarrow> r1 = None \<Longrightarrow> r2 \<noteq> None \<Longrightarrow> balanced s (free (close s3))"
    and "th_host s1 = th_host s" "th_host s2 = th_host s" "th_host s3 = th_host s"
    and "nodes (th_heap s3) = nodes (th_heap s)" "qmps (th_heap s3) = qmps (th_heap s)"
    and "ok \<and> r1 = None \<and> r2 = None \<longrightarrow> fds s3 = fds s + 2 \<and> chunks s3 = chunks s + 1"
    and "calm env \<Longrightarrow> ok \<and> r1 = None \<and> r2 = None"
  using alloc_result [OF e1] sys_fd_result [OF e2] sys_fd_result [OF e3] by (auto simp: balanced_def same_files_def)

lemma host_typed_entered:
  assumes "host_typed (th_host s)" and "c_string name" and "th_host s5 = th_host (cleanup_stale_vcpus env name s)"
    and "th_host s7 = fold (put_vcpu name) qs (th_host (on_host (\<lambda>h. h\<lparr>vms := (vms h)(vm_key name \<mapsto> fresh_vm socket nb)\<rparr>) s5))"
  shows "host_typed (th_host s5)" and "host_typed (th_host s7)"
proof -
  show t: "host_typed (th_host s5)" using host_typed_cleanup [OF assms(1)] assms(3) by simp
  then have "host_typed (th_host (on_host (\<lambda>h. h\<lparr>vms := (vms h)(vm_key name \<mapsto> fresh_vm socket nb)\<rparr>) s5))"
    using assms(2) by (simp add: host_typed_vm)
  then show "host_typed (th_host s7)" using host_typed_puts assms(2,4) by auto
qed

lemma register_vm_result:
  assumes "vcpu_list (th_heap s) a qs"
  shows "\<exists>ret s'. register_vm env a name socket nb s = Some (ret, s') \<and> balanced s s' \<and> same_files s s' \<and>
    (host_typed (th_host s) \<and> c_string name \<longrightarrow> host_typed (th_host s')) \<and>
    (calm env \<and> set (key_order env) = dom (vcpus (th_host s)) \<longrightarrow>
       ret \<and> th_host s' = registered name socket nb qs (th_host s))"
proof -
  obtain xs n where xs: "nodes (th_heap s) a = Some n" "list_at (nodes (th_heap s)) (node_next n) xs"
      "vcpu_cells (th_heap s) xs qs"
    using assms by (auto simp: vcpu_list_def split: option.splits)
  obtain ok s1 where e1: "alloc env s = (ok, s1)" by fastforce
  obtain r1 s2 where e2: "sys_fd env s1 = (r1, s2)" by fastforce
  obtain r2 s3 where e3: "sys_fd env s2 = (r2, s3)" by fastforce
  define s4 where "s4 = cleanup_stale_vcpus env name s3"
  obtain r3 s5 where e5: "sys env s4 = (r3, s5)" by fastforce
  define s6 where "s6 = on_host (\<lambda>h. h\<lparr>vms := (vms h)(vm_key name \<mapsto> fresh_vm socket nb)\<rparr>) s5"
  note c = cleanup_stale_vcpus_result [of s3 env name, folded s4_def]
  note o = register_vm_opens [OF e1 e2 e3]
  have calm: "calm env \<Longrightarrow> ok \<and> r1 = None \<and> r2 = None \<and> r3 = None" using o(13) sys_result(6) [OF e5] by simp
  have s5: "nodes (th_heap s5) = nodes (th_heap s)" "qmps (th_heap s5) = qmps (th_heap s)" "fds s5 = fds s3"
      "chunks s5 = chunks s3" "same_files s s5" "th_host s5 = th_host s4"
    using conjunct1 [OF c] conjunct1 [OF conjunct2 [OF c]] sys_result [OF e5] o(10,11,3)
    by (simp_all add: balanced_def same_files_def)
  have s6: "nodes (th_heap s6) = nodes (th_heap s)" "qmps (th_heap s6) = qmps (th_heap s)" "fds s6 = fds s3"
      "chunks s6 = chunks s3" "same_files s s6"
    using s5 by (simp_all add: s6_def)
  have host6: "th_host s6 = (forget_vcpus name (th_host s))\<lparr>vms := (vms (th_host s))(vm_key name \<mapsto> fresh_vm socket nb)\<rparr>"
    if "calm env" "set (key_order env) = dom (vcpus (th_host s))"
    using conjunct2 [OF conjunct2 [OF c]] that s5(6) o(9) by (simp add: s6_def forget_vcpus_def)
  obtain ret s7 where v: "register_vcpus env name (node_next n) s6 = Some (ret, s7)" "balanced s6 s7" "same_files s6 s7"
      "calm env \<longrightarrow> ret" "ret \<longrightarrow> th_host s7 = fold (put_vcpu name) qs (th_host s6)"
      "\<exists>k. th_host s7 = fold (put_vcpu name) (take k qs) (th_host s6)"
    using register_vcpus_result [of s6 "node_next n" xs qs env name] xs(2,3) s6(1) vcpu_cells_cong [OF s6(2)] by auto
  have typed: "host_typed (th_host s) \<and> c_string name \<longrightarrow> host_typed (th_host s5) \<and> host_typed (th_host s7)"
    using host_typed_entered [of s3 name s5 env s7] v(6) s5(6) by (auto simp: o(9) s4_def s6_def)
  have unf: "register_vm env a name socket nb s =
      (if \<not> ok then Some (False, s1) else if r1 \<noteq> None then Some (False, free s2)
       else if r2 \<noteq> None then Some (False, free (close s3))
       else if r3 \<noteq> None then Some (False, free (close (close s5)))
       else Some (ret, free (close (close s7))))"
    using xs(1) s6(1) v(1) by (simp add: register_vm_def e1 e2 e3 e5 Let_def s4_def [symmetric] s6_def [symmetric])
  show ?thesis
  proof (cases "ok \<and> r1 = None \<and> r2 = None")
    case False
    then show ?thesis using unf o calm by (auto split: if_splits)
  next
    case True
    then have "balanced s (free (close (close s5)))" "balanced s (free (close (close s7)))"
        "same_files s (free (close (close s5)))" "same_files s (free (close (close s7)))"
      using o(12) s5 s6 v(2) same_files_trans [OF s6(5) v(3)] by (simp_all add: balanced_def)
    then show ?thesis using unf True calm v(4,5) host6 typed by (auto simp: registered_def)
  qed
qed

subsection \<open>Registration and the counting invariant\<close>

definition tid :: "qmp_vpcu \<Rightarrow> u32" where
  "tid q = of_int (threadId q)"

lemma fold_put_vcpu:
  "fold (put_vcpu name) qs h = h\<lparr>vcpus := vcpus (fold (put_vcpu name) qs h)\<rparr> \<and>
   (\<forall>t. (t \<notin> tid ` set qs \<longrightarrow> vcpus (fold (put_vcpu name) qs h) t = vcpus h t) \<and>
     (t \<in> tid ` set qs \<longrightarrow> (\<exists>q \<in> set qs. tid q = t \<and> vcpus (fold (put_vcpu name) qs h) t = Some (fresh_vcpu name q))))"
proof (induction qs rule: rev_induct)
  case Nil
  show ?case by simp
next
  case (snoc q qs)
  let ?h = "fold (put_vcpu name) qs h"
  have one: "fold (put_vcpu name) (qs @ [q]) h = ?h\<lparr>vcpus := (vcpus ?h)(tid q \<mapsto> fresh_vcpu name q)\<rparr>"
    by (simp add: put_vcpu_def tid_def)
  have eq: "?h\<lparr>vcpus := V\<rparr> = h\<lparr>vcpus := V\<rparr>" for V by (subst conjunct1 [OF snoc.IH]) simp
  define V where "V = (vcpus ?h)(tid q \<mapsto> fresh_vcpu name q)"
  have V: "(t \<notin> tid ` set (qs @ [q]) \<longrightarrow> V t = vcpus h t) \<and>
      (t \<in> tid ` set (qs @ [q]) \<longrightarrow> (\<exists>q' \<in> set (qs @ [q]). tid q' = t \<and> V t = Some (fresh_vcpu name q')))" for t
    using spec [OF conjunct2 [OF snoc.IH], of t] by (auto simp: V_def)
  show ?case
    unfolding one eq V_def [symmetric] using V by simp
qed

lemma registered_fields:
  "vms (registered name socket nb qs h) = (vms h)(vm_key name \<mapsto> fresh_vm socket nb)"
  "map_registry (registered name socket nb qs h) = map_registry h"
  "inner_maps (registered name socket nb qs h) = inner_maps h"
  "shm (registered name socket nb qs h) = shm h"
  unfolding registered_def by (subst conjunct1 [OF fold_put_vcpu]; simp add: forget_vcpus_def)+

lemma registered_old:
  "t \<notin> tid ` set qs \<Longrightarrow> vcpus (registered name socket nb qs h) t = (if stale name h t then None else vcpus h t)"
  unfolding registered_def using fold_put_vcpu by (simp add: forget_vcpus_def)

lemma registered_new:
  "t \<in> tid ` set qs \<Longrightarrow> \<exists>q \<in> set qs. tid q = t \<and> vcpus (registered name socket nb qs h) t = Some (fresh_vcpu name q)"
  unfolding registered_def using fold_put_vcpu by blast

lemma registered_cases:
  assumes "vcpus (registered name socket nb qs h) t = Some v"
  obtains q where "q \<in> set qs" "tid q = t" "v = fresh_vcpu name q"
    | "t \<notin> tid ` set qs" "\<not> stale name h t" "vcpus h t = Some v"
proof (cases "t \<in> tid ` set qs")
  case True
  then show ?thesis using registered_new [OF True, of name socket nb h] assms that(1) by auto
next
  case False
  then show ?thesis using registered_old [OF False, of name socket nb h] assms that(2) by (auto split: if_splits)
qed

lemma host_typed_registered:
  assumes "host_typed h" and "c_string name"
  shows "host_typed (registered name socket nb qs h)"
  unfolding host_typed_def
proof (intro conjI allI impI)
  fix t v
  assume "vcpus (registered name socket nb qs h) t = Some v"
  then show "name_typed (vm_name v)"
    by (rule registered_cases) (use assms in \<open>auto simp: fresh_vcpu_def host_typed_def\<close>)
qed (use assms in \<open>auto simp: registered_fields host_typed_def fresh_vm_def split: if_splits\<close>)

text \<open>The vCPUs of the registered VM are the new ones, unmarked; other VMs keep theirs.\<close>

lemma registered_members:
  assumes "host_typed h" and "c_string name" and "length name \<le> 63"
    and "\<And>q v. q \<in> set qs \<Longrightarrow> vcpus h (tid q) = Some v \<Longrightarrow> vm_name v = vm_key name"
  shows "members (registered name socket nb qs h) n = (if n = vm_key name then tid ` set qs else members h n)"
    and "phantoms (registered name socket nb qs h) n = (if n = vm_key name then {} else phantoms h n)"
proof -
  have stale: "stale name h t \<longleftrightarrow> vm_name v = vm_key name" if "vcpus h t = Some v" for t v
    using that assms(1) c_str_eq_vm_key [OF _ assms(2,3), of "vm_name v"] by (auto simp: stale_def host_typed_def)
  have new: "vcpus (registered name socket nb qs h) t = Some v \<longleftrightarrow> vcpus h t = Some v" if "vm_name v \<noteq> vm_key name" for t v
  proof
    assume "vcpus (registered name socket nb qs h) t = Some v"
    then show "vcpus h t = Some v" by (rule registered_cases) (use that in \<open>auto simp: fresh_vcpu_def\<close>)
  next
    assume v: "vcpus h t = Some v"
    then have "t \<notin> tid ` set qs" using assms(4) that by auto
    with v stale [OF v] that show "vcpus (registered name socket nb qs h) t = Some v" by (simp add: registered_old)
  qed
  have own: "(\<exists>v. vcpus (registered name socket nb qs h) t = Some v \<and> vm_name v = vm_key name) \<longleftrightarrow> t \<in> tid ` set qs" for t
  proof
    assume "\<exists>v. vcpus (registered name socket nb qs h) t = Some v \<and> vm_name v = vm_key name"
    then obtain v where v: "vcpus (registered name socket nb qs h) t = Some v" "vm_name v = vm_key name" by blast
    from v(1) show "t \<in> tid ` set qs" by (rule registered_cases) (use stale v(2) in auto)
  next
    assume "t \<in> tid ` set qs"
    from registered_new [OF this] show "\<exists>v. vcpus (registered name socket nb qs h) t = Some v \<and> vm_name v = vm_key name"
      by (force simp: fresh_vcpu_def)
  qed
  have other: "vcpus (registered name socket nb qs h) t = Some v \<and> vm_name v = n \<longleftrightarrow> vcpus h t = Some v \<and> vm_name v = n"
    if "n \<noteq> vm_key name" for t v using new [of v t] that by auto
  show "members (registered name socket nb qs h) n = (if n = vm_key name then tid ` set qs else members h n)"
    using own other by (cases "n = vm_key name") (simp_all add: members_def)
  have unmarked: "is_phantom v = 0" if "vcpus (registered name socket nb qs h) t = Some v" "vm_name v = vm_key name" for t v
    using that(1) by (rule registered_cases) (use stale that(2) in \<open>auto simp: fresh_vcpu_def\<close>)
  show "phantoms (registered name socket nb qs h) n = (if n = vm_key name then {} else phantoms h n)"
  proof (cases "n = vm_key name")
    case True
    then show ?thesis using unmarked by (force simp: phantoms_def)
  next
    case False
    from other [OF this] show ?thesis using False unfolding phantoms_def by (simp flip: conj_assoc)
  qed
qed

lemma count_inv_registered:
  assumes "count_inv h" and "host_typed h" and "c_string name" and "length name \<le> 63"
    and "\<And>q v. q \<in> set qs \<Longrightarrow> vcpus h (tid q) = Some v \<Longrightarrow> vm_name v = vm_key name"
    and "length qs \<le> unat nb"
  shows "count_inv (registered name socket nb qs h)"
proof -
  let ?h = "registered name socket nb qs h"
  note mem = registered_members [OF assms(2-5), where socket = socket and nb = nb]
  have view: "vm_view ?h n = (if n = vm_key name then Some (0, nb) else vm_view h n)" for n
    by (simp add: vm_view_def registered_fields fresh_vm_def)
  have sub: "dom (vcpus ?h) \<subseteq> tid ` set qs \<union> dom (vcpus h)"
    by (auto elim: registered_cases)
  show ?thesis
    unfolding count_inv_def
  proof (intro conjI allI impI)
    show "finite (dom (vcpus ?h))" by (rule finite_subset [OF sub]) (use assms(1) in \<open>simp add: count_inv_def\<close>)
  next
    fix t v
    assume "vcpus ?h t = Some v"
    then show "is_phantom v = 0 \<or> is_phantom v = 1" "vm_view ?h (vm_name v) \<noteq> None"
      by (rule registered_cases; use assms(1) in \<open>auto simp: fresh_vcpu_def view count_inv_def\<close>)+
  next
    fix n c k
    assume v: "vm_view ?h n = Some (c, k)"
    have "card (tid ` set qs) \<le> length qs" by (meson card_image_le card_length finite_set le_trans)
    with v show "card (members ?h n) \<le> unat k"
      using assms(1,6) by (auto simp: mem view count_inv_def split: if_splits)
    from v show "sint c = int (card (phantoms ?h n))"
      using assms(1) by (auto simp: mem view count_inv_def split: if_splits)
  qed
qed

subsection \<open>Setting up and removing the buffers\<close>

text \<open>
  What a part of \<open>setup_vm_maps\<close> or of the removal may do: open \<open>k\<close> descriptors more than it
  closes, and change the registry only at well-typed keys.
\<close>

definition tidy :: "int \<Rightarrow> tool_state \<Rightarrow> tool_state \<Rightarrow> bool" where
  "tidy k s s' \<longleftrightarrow> fds s' = fds s + k \<and> chunks s' = chunks s \<and> nodes (th_heap s') = nodes (th_heap s) \<and>
     qmps (th_heap s') = qmps (th_heap s) \<and> shm (th_host s') = shm (th_host s) \<and>
     (host_typed (th_host s) \<longrightarrow> host_typed (th_host s'))"

lemma tidy_trans: "tidy j s s1 \<Longrightarrow> tidy k s1 s2 \<Longrightarrow> j + k = l \<Longrightarrow> tidy l s s2"
  by (auto simp: tidy_def)

lemma tidy_close: "tidy k s s' \<Longrightarrow> tidy (k - 1) s (close s')"
  by (simp add: tidy_def)

lemma tidy_sys_fd: "sys_fd env s = (r, s1) \<Longrightarrow> tidy (if r = None then 1 else 0) s s1"
  using sys_fd_result [of env s r s1] by (simp add: tidy_def)

lemma tidy_sys: "sys env s = (r, s1) \<Longrightarrow> tidy 0 s s1"
  using sys_result [of env s r s1] by (simp add: tidy_def)

lemma tidy_mkdir: "mkdir env path s = (r, s1) \<Longrightarrow> tidy 0 s s1"
  by (auto simp: mkdir_def tool_defs tidy_def Let_def split: if_splits)

lemma tidy_unlink: "unlink env path s = (r, s1) \<Longrightarrow> tidy 0 s s1"
  by (auto simp: unlink_def tool_defs tidy_def Let_def split: if_splits)

lemma tidy_rmdir: "rmdir env path s = (r, s1) \<Longrightarrow> tidy 0 s s1"
  by (auto simp: rmdir_def tool_defs tidy_def Let_def split: if_splits)

lemma tidy_pin: "bpf_obj_pin env mid path s = (r, s1) \<Longrightarrow> tidy 0 s s1"
  by (auto simp: bpf_obj_pin_def tool_defs tidy_def Let_def split: if_splits)

lemma tidy_create:
  assumes "bpf_map_create env s = (r, mid, s1)"
  shows "tidy (if r = None then 1 else 0) s s1"
proof -
  have "host_typed (h\<lparr>inner_maps := I\<rparr>) = host_typed h" for h I by (simp add: host_typed_def)
  then show ?thesis
    using assms by (auto simp: bpf_map_create_def tool_defs tidy_def Let_def split: if_splits)
qed

lemma tidy_registry:
  assumes "name_typed key" and "registry_update env key mid s = (r, s1)"
  shows "tidy 0 s s1"
proof -
  have "host_typed (h\<lparr>map_registry := (map_registry h)(key \<mapsto> mid)\<rparr>)" if "host_typed h" for h
    using that assms(1) by (auto simp: host_typed_def)
  then show ?thesis using assms(2) by (auto simp: registry_update_def tool_defs tidy_def Let_def split: if_splits)
qed

lemma setup_vm_maps_tidy:
  assumes "c_string name"
  shows "tidy 0 s (snd (setup_vm_maps env name s))"
proof -
  let ?p1 = "buffer_path name CHR ''1''" and ?p2 = "buffer_path name CHR ''2''"
  obtain r1 s1 where e1: "sys_fd env s = (r1, s1)" by fastforce
  obtain r2 s2 where e2: "mkdir env (vm_dir 128 name) s1 = (r2, s2)" by fastforce
  obtain r3 c s3 where e3: "bpf_map_create env s2 = (r3, c, s3)" by (cases "bpf_map_create env s2") auto
  obtain r4 s4 where e4: "unlink env ?p1 s3 = (r4, s4)" by fastforce
  obtain r5 s5 where e5: "bpf_obj_pin env c ?p1 s4 = (r5, s5)" by fastforce
  obtain r6 p s6 where e6: "bpf_map_create env s5 = (r6, p, s6)" by (cases "bpf_map_create env s5") auto
  obtain r7 s7 where e7: "unlink env ?p2 s6 = (r7, s7)" by fastforce
  obtain r8 s8 where e8: "bpf_obj_pin env p ?p2 s7 = (r8, s8)" by fastforce
  obtain r9 s9 where e9: "registry_update env (registry_key CHR ''1'' name) c s8 = (r9, s9)" by fastforce
  obtain r10 s10 where e10: "registry_update env (registry_key CHR ''2'' name) p s9 = (r10, s10)" by fastforce
  have k: "name_typed (registry_key CHR ''1'' name)" "name_typed (registry_key CHR ''2'' name)"
    using name_typed_registry_key [OF assms] by simp_all
  have t2: "tidy (if r1 = None then 1 else 0) s s2" by (rule tidy_trans [OF tidy_sys_fd [OF e1] tidy_mkdir [OF e2]]) simp
  note t3 = tidy_trans [OF t2 tidy_create [OF e3] refl]
  have t5: "tidy ((if r1 = None then 1 else 0) + (if r3 = None then 1 else 0)) s s5"
    by (rule tidy_trans [OF tidy_trans [OF t3 tidy_unlink [OF e4] refl] tidy_pin [OF e5]]) simp
  note t6 = tidy_trans [OF t5 tidy_create [OF e6] refl]
  have t8: "tidy ((if r1 = None then 1 else 0) + (if r3 = None then 1 else 0) + (if r6 = None then 1 else 0)) s s8"
    by (rule tidy_trans [OF tidy_trans [OF t6 tidy_unlink [OF e7] refl] tidy_pin [OF e8]]) simp
  have t9: "tidy ((if r1 = None then 1 else 0) + (if r3 = None then 1 else 0) + (if r6 = None then 1 else 0)) s s9"
    by (rule tidy_trans [OF t8 tidy_registry [OF k(1) e9]]) simp
  have t10: "tidy ((if r1 = None then 1 else 0) + (if r3 = None then 1 else 0) + (if r6 = None then 1 else 0)) s s10"
    by (rule tidy_trans [OF t9 tidy_registry [OF k(2) e10]]) simp
  show ?thesis
    using tidy_sys_fd [OF e1] tidy_close [OF t2] tidy_close [OF t3] tidy_close [OF tidy_close [OF t5]]
      tidy_close [OF tidy_close [OF t6]] tidy_close [OF tidy_close [OF tidy_close [OF t8]]]
      tidy_close [OF tidy_close [OF tidy_close [OF t9]]] tidy_close [OF tidy_close [OF tidy_close [OF t10]]]
    by (cases r1; cases r3; cases r6) (simp_all add: setup_vm_maps_def e1 e2 e3 e4 e5 e6 e7 e8 e9 e10 cleanup_registry_def
        cleanup_collection_def cleanup_processing_def)
qed

text \<open>When nothing fails, both buffers are new, pinned and registered.\<close>

definition new_buffer :: "phantom_count bpf_array" where
  "new_buffer = \<lparr>arr_max = VM_MAP_MAX_ENTRIES, arr_val = (\<lambda>_. phantom_count_zero)\<rparr>"

lemma setup_vm_maps_calm:
  fixes name :: string and s :: tool_state
  assumes "calm env"
  defines "s' \<equiv> snd (setup_vm_maps env name s)"
  shows "fst (setup_vm_maps env name s)"
    and "dirs s' = insert (vm_dir 128 name) (dirs s)"
    and "pins s' = (pins s)(buffer_path name CHR ''1'' \<mapsto> map_ids s, buffer_path name CHR ''2'' \<mapsto> Suc (map_ids s))"
    and "th_host s' = (th_host s)\<lparr>inner_maps := (inner_maps (th_host s))(map_ids s := new_buffer, Suc (map_ids s) := new_buffer),
       map_registry := (map_registry (th_host s))(registry_key CHR ''1'' name \<mapsto> map_ids s,
         registry_key CHR ''2'' name \<mapsto> Suc (map_ids s))\<rparr>"
proof -
  let ?p1 = "buffer_path name CHR ''1''" and ?p2 = "buffer_path name CHR ''2''"
  have create: "bpf_map_create env x = (None, map_ids x, on_host (\<lambda>h. h\<lparr>inner_maps := (inner_maps h)(map_ids x := new_buffer)\<rparr>)
      (x\<lparr>syscalls := Suc (syscalls x), fds := fds x + 1, map_ids := Suc (map_ids x)\<rparr>))" for x
    using assms(1) by (simp add: bpf_map_create_def tool_defs new_buffer_def Let_def)
  have repin: "bpf_obj_pin env m q (snd (unlink env q x)) =
      (None, x\<lparr>syscalls := Suc (Suc (syscalls x)), pins := (pins x)(q \<mapsto> m)\<rparr>)" for m q x
    using assms(1) by (cases "pins x q") (simp_all add: bpf_obj_pin_def unlink_def tool_defs)
  have dir: "mkdir env d x = (if d \<in> dirs x then Some EEXIST else None,
      x\<lparr>syscalls := Suc (syscalls x), dirs := insert d (dirs x)\<rparr>)" for d x
    using assms(1) by (simp add: mkdir_def tool_defs insert_absorb)
  show "fst (setup_vm_maps env name s)" "dirs s' = insert (vm_dir 128 name) (dirs s)"
    "pins s' = (pins s)(buffer_path name CHR ''1'' \<mapsto> map_ids s, buffer_path name CHR ''2'' \<mapsto> Suc (map_ids s))"
    "th_host s' = (th_host s)\<lparr>inner_maps := (inner_maps (th_host s))(map_ids s := new_buffer, Suc (map_ids s) := new_buffer),
       map_registry := (map_registry (th_host s))(registry_key CHR ''1'' name \<mapsto> map_ids s,
         registry_key CHR ''2'' name \<mapsto> Suc (map_ids s))\<rparr>"
    using assms(1)
    by (simp_all add: s'_def setup_vm_maps_def create repin dir case_prod_unfold registry_update_def tool_defs
        cleanup_registry_def cleanup_collection_def cleanup_processing_def)
qed

subsection \<open>Removing a VM\<close>

text \<open>The bytes of a path that \<open>cleanup.c\<close> and \<open>setup_vm_maps\<close> build, for names that fit.\<close>

lemma vm_dir_short: "length name \<le> 63 \<Longrightarrow> 128 \<le> n \<Longrightarrow> vm_dir n name = PIN_BASE @ ''/'' @ name"
  by (simp add: vm_dir_def PIN_BASE_def)

lemma buffer_path_short:
  "length name \<le> 63 \<Longrightarrow> buffer_path name d = (PIN_BASE @ ''/'' @ name) @ ''/'' @ ''collection_buff_'' @ [d]"
  by (simp add: buffer_path_def PIN_BASE_def)

lemma tidy_unlink_entries: "tidy 0 s (snd (unlink_entries env d es ret s))"
proof (induction es arbitrary: s ret)
  case Nil
  show ?case by (simp add: tidy_def)
next
  case (Cons e es)
  obtain r s1 where u: "unlink env (take 319 (d @ ''/'' @ e)) s = (r, s1)" by fastforce
  show ?case using Cons.IH [of s ret] tidy_trans [OF tidy_unlink [OF u] Cons.IH [of s1 "ret \<and> r = None"]] u by simp
qed

lemma tidy_unlink_dir: "tidy 0 s (snd (unlink_dir_contents env d s))"
proof -
  obtain r s1 where e: "sys env s = (r, s1)" by fastforce
  let ?s2 = "s1\<lparr>fds := fds s1 + 1\<rparr>"
  have "tidy 1 s1 ?s2" by (simp add: tidy_def)
  from tidy_trans [OF tidy_trans [OF tidy_sys [OF e] this refl] tidy_unlink_entries [of ?s2 env d "dir_entries env" True] refl]
  have "tidy 1 s (snd (unlink_entries env d (dir_entries env) True ?s2))" by simp
  from tidy_close [OF this] tidy_sys [OF e] show ?thesis
    by (simp add: unlink_dir_contents_def e case_prod_unfold Let_def)
qed

lemma tidy_delete:
  assumes "\<And>h. host_typed h \<Longrightarrow> host_typed (f h)" and "\<And>h. shm (f h) = shm h" and "map_delete env has f s = (r, s1)"
  shows "tidy 0 s s1"
  using assms by (auto simp: map_delete_def tool_defs tidy_def Let_def split: if_splits)

lemma tidy_delete_registry: "delete_registry_key env key s = (r, s1) \<Longrightarrow> tidy 0 s s1"
  unfolding delete_registry_key_def by (erule tidy_delete [rotated 2]) (auto simp: host_typed_def)

lemma tidy_delete_vm: "delete_vm env name s = (r, s1) \<Longrightarrow> tidy 0 s s1"
  unfolding delete_vm_def by (erule tidy_delete [rotated 2]) (auto simp: host_typed_def)

lemma tidy_cleanup_stale: "tidy 0 s (cleanup_stale_vcpus env name s)"
proof -
  obtain V where "th_host (cleanup_stale_vcpus env name s) = (th_host s)\<lparr>vcpus := V\<rparr>"
    using cleanup_stale_vcpus_result [of s env name] by blast
  then show ?thesis
    using cleanup_stale_vcpus_result [of s env name] host_typed_cleanup [of s env name] by (simp add: tidy_def balanced_def)
qed

lemma cleanup_main_tidy: "tidy 0 s (snd (cleanup_main env args s))"
proof (cases args)
  case Nil
  then show ?thesis by (simp add: cleanup_main_def tidy_def)
next
  case (Cons name rest)
  let ?path = "vm_dir 256 name"
  obtain ok1 s1 where e1: "unlink_dir_contents env ?path s = (ok1, s1)" by fastforce
  obtain r2 s2 where e2: "rmdir env ?path s1 = (r2, s2)" by fastforce
  obtain r3 s3 where e3: "sys_fd env s2 = (r3, s3)" by fastforce
  obtain r4 s4 where e4: "delete_registry_key env (registry_key CHR ''1'' name) s3 = (r4, s4)" by fastforce
  obtain r5 s5 where e5: "delete_registry_key env (registry_key CHR ''2'' name) s4 = (r5, s5)" by fastforce
  define s6 where "s6 = (if r3 = None then close s5 else s3)"
  obtain r7 s7 where e7: "sys_fd env s6 = (r7, s7)" by fastforce
  obtain r8 s8 where e8: "delete_vm env name s7 = (r8, s8)" by fastforce
  define s9 where "s9 = (if r7 = None then close s8 else s7)"
  obtain r9 s10 where e9: "sys_fd env s9 = (r9, s10)" by fastforce
  define s11 where "s11 = (if r9 = None then close (cleanup_stale_vcpus env name s10) else s10)"
  have t1: "tidy 0 s s1" using tidy_unlink_dir [of s env ?path] by (simp add: e1)
  have t2: "tidy 0 s s2" by (rule tidy_trans [OF t1 tidy_rmdir [OF e2]]) simp
  have t3: "tidy (if r3 = None then 1 else 0) s s3" by (rule tidy_trans [OF t2 tidy_sys_fd [OF e3]]) simp
  have t5: "tidy (if r3 = None then 1 else 0) s s5"
    by (rule tidy_trans [OF tidy_trans [OF t3 tidy_delete_registry [OF e4] refl] tidy_delete_registry [OF e5]]) simp
  have t6: "tidy 0 s s6" using t3 tidy_close [OF t5] by (cases r3) (simp_all add: s6_def)
  have t7: "tidy (if r7 = None then 1 else 0) s s7" by (rule tidy_trans [OF t6 tidy_sys_fd [OF e7]]) simp
  have t8: "tidy (if r7 = None then 1 else 0) s s8" by (rule tidy_trans [OF t7 tidy_delete_vm [OF e8]]) simp
  have t9: "tidy 0 s s9" using t7 tidy_close [OF t8] by (cases r7) (simp_all add: s9_def)
  have t10: "tidy (if r9 = None then 1 else 0) s s10" by (rule tidy_trans [OF t9 tidy_sys_fd [OF e9]]) simp
  have t11: "tidy 0 s s11"
    using t10 tidy_close [OF tidy_trans [OF t10 tidy_cleanup_stale [of s10 env name] refl]] by (cases r9) (simp_all add: s11_def)
  have "snd (cleanup_main env args s) = s11"
    by (simp add: cleanup_main_def Cons Let_def e1 e2 e3 e4 e5 s6_def [symmetric] e7 e8 s9_def [symmetric] e9 s11_def
        case_prod_unfold if_distrib [of fst] if_distrib [of snd] cong: if_cong)
  then show ?thesis using t11 by simp
qed

lemma unlink_entries_calm:
  assumes "calm env" and "distinct es" and "\<And>e. e \<in> set es \<Longrightarrow> length (d @ ''/'' @ e) \<le> 319"
    and "\<And>e. e \<in> set es \<Longrightarrow> e \<noteq> ''.'' \<Longrightarrow> e \<noteq> ''..'' \<Longrightarrow> pins s (d @ ''/'' @ e) \<noteq> None"
  shows "\<exists>n. unlink_entries env d es ret s = (ret, s\<lparr>syscalls := n, pins := (\<lambda>p.
    if \<exists>e \<in> set es. e \<noteq> ''.'' \<and> e \<noteq> ''..'' \<and> p = d @ ''/'' @ e then None else pins s p)\<rparr>)"
  using assms(2-4)
proof (induction es arbitrary: s ret)
  case Nil
  show ?case by (intro exI [of _ "syscalls s"]) simp
next
  case (Cons e es)
  show ?case
  proof (cases "e = ''.'' \<or> e = ''..''")
    case True
    obtain n where "unlink_entries env d es ret s = (ret, s\<lparr>syscalls := n, pins := (\<lambda>p.
        if \<exists>e \<in> set es. e \<noteq> ''.'' \<and> e \<noteq> ''..'' \<and> p = d @ ''/'' @ e then None else pins s p)\<rparr>)"
      using Cons.IH [of s ret] Cons.prems by auto
    with True show ?thesis by (intro exI [of _ n]) auto
  next
    case False
    let ?q = "d @ ''/'' @ e"
    let ?s1 = "s\<lparr>syscalls := Suc (syscalls s), pins := (pins s)(?q := None)\<rparr>"
    have q: "take 319 ?q = ?q" using Cons.prems(2) [of e] by simp
    have "pins s ?q \<noteq> None" using Cons.prems(3) [of e] False by simp
    then have u: "unlink env (take 319 ?q) s = (None, ?s1)"
      unfolding q using assms(1) by (simp add: unlink_def tool_defs)
    have "pins ?s1 (d @ ''/'' @ x) \<noteq> None" if "x \<in> set es" "x \<noteq> ''.''" "x \<noteq> ''..''" for x
      using Cons.prems(1,3) that by auto
    then obtain n where n: "unlink_entries env d es ret ?s1 = (ret, ?s1\<lparr>syscalls := n, pins := (\<lambda>p.
        if \<exists>e \<in> set es. e \<noteq> ''.'' \<and> e \<noteq> ''..'' \<and> p = d @ ''/'' @ e then None else pins ?s1 p)\<rparr>)"
      using Cons.IH [of ?s1 ret] Cons.prems by auto
    have "unlink_entries env d (e # es) ret s = unlink_entries env d es ret ?s1" using False u by simp
    then show ?thesis unfolding n using False by (intro exI [of _ n]) (auto intro!: tool_state.equality ext)
  qed
qed

text \<open>The directory listing the kernel gives of the directory of a VM.\<close>

definition lists_dir :: "tool_env \<Rightarrow> string \<Rightarrow> (string \<Rightarrow> nat option) \<Rightarrow> bool" where
  "lists_dir env path P \<longleftrightarrow> distinct (dir_entries env) \<and> P (path @ ''/'' @ ''.'') = None \<and> P (path @ ''/'' @ ''..'') = None \<and>
     (\<forall>e \<in> set (dir_entries env). length (path @ ''/'' @ e) \<le> 319 \<and>
        (e \<noteq> ''.'' \<and> e \<noteq> ''..'' \<longrightarrow> P (path @ ''/'' @ e) \<noteq> None))"

definition unpinned :: "tool_env \<Rightarrow> string \<Rightarrow> (string \<Rightarrow> nat option) \<Rightarrow> string \<Rightarrow> nat option" where
  "unpinned env path P p = (if p \<in> (\<lambda>e. path @ ''/'' @ e) ` set (dir_entries env) then None else P p)"

definition removed :: "string \<Rightarrow> host_state \<Rightarrow> host_state" where
  "removed name h = forget_vcpus name (h\<lparr>vms := (vms h)(vm_key name := None),
     map_registry := (map_registry h)(registry_key CHR ''1'' name := None, registry_key CHR ''2'' name := None)\<rparr>)"

lemma unlink_dir_calm:
  assumes "calm env" and "lists_dir env path (pins s)" and "path \<in> dirs s"
  shows "\<exists>n. unlink_dir_contents env path s = (True, s\<lparr>syscalls := n, pins := unpinned env path (pins s)\<rparr>)"
proof -
  let ?s1 = "s\<lparr>syscalls := Suc (syscalls s), fds := fds s + 1\<rparr>"
  have pre: "distinct (dir_entries env)" "\<And>e. e \<in> set (dir_entries env) \<Longrightarrow> length (path @ ''/'' @ e) \<le> 319"
    "\<And>e. e \<in> set (dir_entries env) \<Longrightarrow> e \<noteq> ''.'' \<Longrightarrow> e \<noteq> ''..'' \<Longrightarrow> pins ?s1 (path @ ''/'' @ e) \<noteq> None"
    using assms(2) by (auto simp: lists_dir_def)
  obtain n where n: "unlink_entries env path (dir_entries env) True ?s1 = (True, ?s1\<lparr>syscalls := n, pins := (\<lambda>p.
      if \<exists>e \<in> set (dir_entries env). e \<noteq> ''.'' \<and> e \<noteq> ''..'' \<and> p = path @ ''/'' @ e then None else pins ?s1 p)\<rparr>)"
    using unlink_entries_calm [OF assms(1) pre, of True] by blast
  have u: "(\<lambda>p. if \<exists>e \<in> set (dir_entries env). e \<noteq> ''.'' \<and> e \<noteq> ''..'' \<and> p = path @ ''/'' @ e then None else pins s p) =
      unpinned env path (pins s)" (is "?f = _")
  proof (rule ext)
    fix p
    show "?f p = unpinned env path (pins s) p"
    proof (cases "p \<in> {path @ ''/'' @ ''.'', path @ ''/'' @ ''..''}")
      case True
      then have "pins s p = None" using assms(2) by (auto simp: lists_dir_def)
      then show ?thesis by (simp add: unpinned_def)
    next
      case False
      then have "(\<exists>e \<in> set (dir_entries env). e \<noteq> ''.'' \<and> e \<noteq> ''..'' \<and> p = path @ ''/'' @ e) \<longleftrightarrow>
          p \<in> (\<lambda>e. path @ ''/'' @ e) ` set (dir_entries env)" by blast
      then show ?thesis by (simp only: unpinned_def)
    qed
  qed
  have "pins ?s1 = pins s" by simp
  note n' = n [unfolded this u]
  have "unlink_dir_contents env path s = (True, close (?s1\<lparr>syscalls := n, pins := unpinned env path (pins s)\<rparr>))"
    using assms(1,3) n' by (simp add: unlink_dir_contents_def sys_def)
  then show ?thesis by (intro exI [of _ n]) (simp add: close_def)
qed

lemma rmdir_calm:
  assumes "calm env" and "path \<in> dirs s" and "pins s = unpinned env path P"
  shows "rmdir env path s = (None, s\<lparr>syscalls := Suc (syscalls s), dirs := dirs s - {path}\<rparr>)"
  using assms by (auto simp: rmdir_def sys_def unpinned_def)

lemma delete_registry_calm:
  assumes "calm env"
  shows "\<exists>r. delete_registry_key env key s =
      (r, on_host (\<lambda>h. h\<lparr>map_registry := (map_registry h)(key := None)\<rparr>) (s\<lparr>syscalls := Suc (syscalls s)\<rparr>)) \<and> \<not> failed r"
  using assms
  by (cases "map_registry (th_host s) key")
    (auto simp: delete_registry_key_def map_delete_def tool_defs failed_def fun_upd_idem)

lemma delete_vm_calm:
  assumes "calm env"
  shows "\<exists>r. delete_vm env name s =
      (r, on_host (\<lambda>h. h\<lparr>vms := (vms h)(vm_key name := None)\<rparr>) (s\<lparr>syscalls := Suc (syscalls s)\<rparr>)) \<and> \<not> failed r"
  using assms
  by (cases "vms (th_host s) (vm_key name)")
    (auto simp: delete_vm_def map_delete_def tool_defs failed_def fun_upd_idem)

lemma cleanup_main_calm:
  fixes name :: string
  defines "path \<equiv> vm_dir 256 name"
  assumes "calm env" and "lists_dir env path (pins s)" and "path \<in> dirs s" and "set (key_order env) = dom (vcpus (th_host s))"
  shows "\<exists>s'. cleanup_main env [name] s = (0, s') \<and> th_host s' = removed name (th_host s) \<and>
    dirs s' = dirs s - {path} \<and> pins s' = unpinned env path (pins s)"
proof -
  obtain n where e1: "unlink_dir_contents env path s = (True, s\<lparr>syscalls := n, pins := unpinned env path (pins s)\<rparr>)"
    using unlink_dir_calm [OF assms(2-4)] by blast
  define s2 where "s2 = s\<lparr>syscalls := Suc n, pins := unpinned env path (pins s), dirs := dirs s - {path}\<rparr>"
  have e2: "rmdir env path (s\<lparr>syscalls := n, pins := unpinned env path (pins s)\<rparr>) = (None, s2)"
    using rmdir_calm [OF assms(2), of path _ "pins s"] assms(4) by (simp add: s2_def)
  have fd: "sys_fd env x = (None, x\<lparr>syscalls := Suc (syscalls x), fds := fds x + 1\<rparr>)" for x
    using assms(2) by (simp add: tool_defs)
  define s3 where "s3 = s2\<lparr>syscalls := Suc (syscalls s2), fds := fds s2 + 1\<rparr>"
  obtain r4 where e4: "delete_registry_key env (registry_key CHR ''1'' name) s3 = (r4, on_host (\<lambda>h. h\<lparr>map_registry :=
      (map_registry h)(registry_key CHR ''1'' name := None)\<rparr>) (s3\<lparr>syscalls := Suc (syscalls s3)\<rparr>))" "\<not> failed r4"
    using delete_registry_calm [OF assms(2)] by blast
  define s4 where "s4 = on_host (\<lambda>h. h\<lparr>map_registry := (map_registry h)(registry_key CHR ''1'' name := None)\<rparr>)
      (s3\<lparr>syscalls := Suc (syscalls s3)\<rparr>)"
  obtain r5 where e5: "delete_registry_key env (registry_key CHR ''2'' name) s4 = (r5, on_host (\<lambda>h. h\<lparr>map_registry :=
      (map_registry h)(registry_key CHR ''2'' name := None)\<rparr>) (s4\<lparr>syscalls := Suc (syscalls s4)\<rparr>))" "\<not> failed r5"
    using delete_registry_calm [OF assms(2)] by blast
  define s6 where "s6 = close (on_host (\<lambda>h. h\<lparr>map_registry := (map_registry h)(registry_key CHR ''2'' name := None)\<rparr>)
      (s4\<lparr>syscalls := Suc (syscalls s4)\<rparr>))"
  define s7 where "s7 = s6\<lparr>syscalls := Suc (syscalls s6), fds := fds s6 + 1\<rparr>"
  obtain r8 where e8: "delete_vm env name s7 = (r8, on_host (\<lambda>h. h\<lparr>vms := (vms h)(vm_key name := None)\<rparr>)
      (s7\<lparr>syscalls := Suc (syscalls s7)\<rparr>))" "\<not> failed r8" using delete_vm_calm [OF assms(2)] by blast
  define s9 where "s9 = close (on_host (\<lambda>h. h\<lparr>vms := (vms h)(vm_key name := None)\<rparr>) (s7\<lparr>syscalls := Suc (syscalls s7)\<rparr>))"
  define s10 where "s10 = s9\<lparr>syscalls := Suc (syscalls s9), fds := fds s9 + 1\<rparr>"
  have run: "cleanup_main env [name] s = (0, close (cleanup_stale_vcpus env name s10))"
    using e4(2) e5(2) e8(2)
    by (simp add: cleanup_main_def Let_def path_def [symmetric] e1 e2 fd s3_def [symmetric] e4(1) s4_def [symmetric] e5(1)
        s6_def [symmetric] s7_def [symmetric] e8(1) s9_def [symmetric] s10_def [symmetric] failed_def)
  have host: "th_host s10 = (th_host s)\<lparr>vms := (vms (th_host s))(vm_key name := None), map_registry :=
      (map_registry (th_host s))(registry_key CHR ''1'' name := None, registry_key CHR ''2'' name := None)\<rparr>"
    and files: "dirs s10 = dirs s - {path}" "pins s10 = unpinned env path (pins s)"
    by (simp_all add: s10_def s9_def s7_def s6_def s4_def s3_def s2_def on_host_def close_def)
  have "vcpus (th_host s10) = vcpus (th_host s)" by (simp add: host)
  then show ?thesis
    using run cleanup_stale_vcpus_result [of s10 env name] assms(2,5) host files
    by (auto simp: removed_def same_files_def close_def)
qed

subsection \<open>The whole registration\<close>

lemma qmp_query_reply:
  assumes "0 < bufsz" and "length buff = unat bufsz" and "sock_in sock = map Rd (l1 @ l2 @ l3)" and "is_line l1" and "is_line l2"
    and "is_line l3" and "length l1 < unat bufsz" and "length l2 < unat bufsz" and "length l3 < unat bufsz" and "\<And>n. write_ok qenv n"
  shows "qmp_query qenv bufsz buff sock = Some (Some l3)"
proof -
  have c: "c_string (l2 @ l3)" "c_string l3" "c_string []" using assms(5,6) by (auto simp: is_line_def c_string_def)
  have len: "length (replicate (length buff) nul) = unat bufsz" using assms(2) by simp
  obtain n1 b1 k1 where r1: "qmp_read_line bufsz (replicate (length buff) nul) sock = Some (Inr n1, b1, k1)"
      "length b1 = unat bufsz" "sock_in k1 = map Rd (l2 @ l3)"
    using qmp_read_line_one [OF assms(1) len, of sock l1 "l2 @ l3"] assms(3,4,7) c(1) by auto
  let ?k1 = "k1\<lparr>sock_out := sock_out k1 @ [qmp_capabilities]\<rparr>"
  obtain n2 b2 k2 where r2: "qmp_read_line bufsz b1 ?k1 = Some (Inr n2, b2, k2)" "length b2 = unat bufsz" "sock_in k2 = map Rd l3"
    using qmp_read_line_one [OF assms(1) r1(2), of ?k1 l2 l3] assms(5,8) c(2) r1(3) by auto
  let ?k2 = "k2\<lparr>sock_out := sock_out k2 @ [query_cpus]\<rparr>"
  obtain n3 b3 k3 where "qmp_read_line bufsz b2 ?k2 = Some (Inr n3, b3, k3)" "c_str b3 = l3"
    using qmp_read_line_one [OF assms(1) r2(2), of ?k2 l3 "[]"] assms(6,9) c(3) r2(3) by auto
  with r1(1) r2(1) show ?thesis using assms(10) by (simp add: qmp_query_def qmp_send_recv_def)
qed

lemma connect_loop_returns: "accepts (n + k) \<Longrightarrow> connect_loop accepts n \<noteq> None"
proof (induction k arbitrary: n)
  case 0
  then show ?case by (subst connect_loop.simps) simp
next
  case (Suc k)
  then show ?case by (subst connect_loop.simps) simp
qed

lemma qmp_connect_returns:
  assumes "socket_ok qenv" and "length path < UNIX_PATH_SIZE" and "connect_ok qenv k"
  shows "qmp_connect qenv path = Some True"
  using connect_loop_returns [of "connect_ok qenv" 0 k] assms by (auto simp: qmp_connect_def)

subsection \<open>Properties\<close>

text \<open>What a registration stores, entry by entry.\<close>

lemma fold_put_entries:
  "vcpus (fold (put_vcpu name) (map entry_vcpu es) h) t = (case find (\<lambda>e. of_int (re_thread e) = t) (rev es) of
      Some e \<Rightarrow> Some \<lparr>vcpu_index = of_int (re_cpu e), vm_name = vm_key name, is_phantom = 0\<rparr>
    | None \<Rightarrow> vcpus h t)"
  by (induction es rule: rev_induct) (auto simp: put_vcpu_def fresh_vcpu_def entry_vcpu_def)

lemma registered_entries:
  "vms (registered name socket nb (map entry_vcpu es) h) = (vms h)(vm_key name \<mapsto> \<lparr>qmp_socket = fill_buf 128 socket,
    vm_phantom_count = 0, collection_buff_1_index = 0, collection_buff_2_index = 0, is_collectx_in_buff_1 = 0,
    nb_vcpus = nb, h2g_history_index = 0\<rparr>) \<and>
  (\<forall>t. vcpus (registered name socket nb (map entry_vcpu es) h) t = (case find (\<lambda>e. of_int (re_thread e) = t) (rev es) of
      Some e \<Rightarrow> Some \<lparr>vcpu_index = of_int (re_cpu e), vm_name = vm_key name, is_phantom = 0\<rparr>
    | None \<Rightarrow> (case vcpus h t of None \<Rightarrow> None | Some v \<Rightarrow> if c_str (vm_name v) = name then None else Some v)))"
proof -
  have "vcpus ((forget_vcpus name h)\<lparr>vms := w\<rparr>) t =
      (case vcpus h t of None \<Rightarrow> None | Some v \<Rightarrow> if c_str (vm_name v) = name then None else Some v)" for w t
    by (auto simp: forget_vcpus_def stale_def split: option.split)
  then show ?thesis
    by (simp add: registered_fields fresh_vm_def) (simp add: registered_def fold_put_entries cong: option.case_cong)
qed

text \<open>
  C7. The registration program, when nothing fails and the monitor answers in its format: for a
  VM of at least one vCPU whose socket accepts a connection sooner or later, the program returns
  with exit code 0. Under the name of the VM, cut to 63 characters, the map of VMs then holds its
  socket path, the number of vCPUs given and zero in all counters, and the other VMs are as
  before. Under every thread id the monitor listed, the map of vCPUs holds the CPU index listed
  with it, last if it was listed twice, with the VM's name and no mark; every other vCPU of that
  VM name is gone and the vCPUs of other names are as before. Descriptors and allocations are
  given back.
\<close>

theorem register_vm_main_registers:
  assumes "calm env" and "set (key_order env) = dom (vcpus (th_host s))" and "heap_ok (th_heap s)"
    and "socket_ok qenv" and "connect_ok qenv k" and "\<forall>n. write_ok qenv n" and "length socket < UNIX_PATH_SIZE"
    and "atoi nb = Some n" and "1 \<le> n" and "\<forall>sz. length (garbage sz) = unat sz" and "c_string name"
    and "sock_in sock = map Rd (l1 @ l2 @ reply_text pre es)" and "is_line l1" and "is_line l2" and "is_line (reply_text pre es)"
    and "int (length l1) < 4096 * n" and "int (length l2) < 4096 * n" and "int (length (reply_text pre es)) < 4096 * n"
    and "strstr pre entry_key = None" and "\<forall>e \<in> set es. entry_ok e"
  shows "\<exists>s'. register_vm_main env qenv sock garbage [socket, name, nb] s = Some (0, s') \<and>
    vms (th_host s') = (vms (th_host s))(vm_key name \<mapsto> \<lparr>qmp_socket = fill_buf 128 socket, vm_phantom_count = 0,
      collection_buff_1_index = 0, collection_buff_2_index = 0, is_collectx_in_buff_1 = 0, nb_vcpus = of_int n,
      h2g_history_index = 0\<rparr>) \<and>
    (\<forall>t. vcpus (th_host s') t = (case find (\<lambda>e. of_int (re_thread e) = t) (rev es) of
        Some e \<Rightarrow> Some \<lparr>vcpu_index = of_int (re_cpu e), vm_name = vm_key name, is_phantom = 0\<rparr>
      | None \<Rightarrow> (case vcpus (th_host s) t of None \<Rightarrow> None
          | Some v \<Rightarrow> if c_str (vm_name v) = name then None else Some v))) \<and>
    fds s' = fds s \<and> chunks s' = chunks s"
proof -
  have n: "n < 2 ^ 31" using assms(8) by (auto simp: atoi_def fits_int_def split: option.splits if_splits)
  define bufsz :: u64 where "bufsz = of_int n * QMP_VCPU_SIZE"
  have "uint bufsz = 4096 * n"
    using assms(9) n by (simp add: bufsz_def QMP_VCPU_SIZE_def uint_word_ariths uint_word_of_int_eq take_bit_int_eq_self)
  then have sz: "int (unat bufsz) = 4096 * n" by simp
  have "0 < unat bufsz" using sz assms(9) by linarith
  then have pos: "0 < bufsz" by (simp add: unat_gt_0 word_neq_0_conv)
  obtain ok s1 where e1: "alloc env s = (ok, s1)" by fastforce
  note a1 = alloc_result [OF e1]
  have ok: "ok" using a1(7) assms(1) .
  let ?s2 = "s1\<lparr>fds := fds s1 + 1\<rparr>"
  have q: "qmp_query qenv bufsz (garbage bufsz) sock = Some (Some (reply_text pre es))"
    by (rule qmp_query_reply [OF pos _ assms(12-15)]) (use sz assms(6,10,16-18) in \<open>simp_all add: of_nat_less_iff [where 'a = int, symmetric]\<close>)
  have "heap_ok (th_heap s1)" using assms(3) a1(5,6) e1 by (auto simp: heap_ok_def alloc_def Let_def split: if_splits)
  then obtain a h where x: "extract_vcpu_info (mok env) (reply_text pre es) (th_heap s1) = Some (Some a, h)" "vcpu_list h a (map entry_vcpu es)"
    using extract_vcpu_info_reply [of "mok env" "th_heap s1" pre es] assms(1,19,20) by auto
  let ?s3 = "?s2\<lparr>th_heap := h\<rparr>"
  have order: "set (key_order env) = dom (vcpus (th_host ?s3))" using assms(2) a1(1) by simp
  obtain s4 where r: "register_vm env a name socket (of_int n) ?s3 = Some (True, s4)" "balanced ?s3 s4"
      "th_host s4 = registered name socket (of_int n) (map entry_vcpu es) (th_host s)"
    using register_vm_result [of ?s3 a "map entry_vcpu es" env name socket "of_int n"] x(2) assms(1) order a1(1) by auto
  note m = setup_vm_maps_calm [OF assms(1), of name s4]
  obtain s5 where s5: "setup_vm_maps env name s4 = (True, s5)" using m(1) by (metis prod.collapse)
  have bal: "fds s5 = fds s4" "chunks s5 = chunks s4"
    using setup_vm_maps_tidy [OF assms(11), of s4 env] by (simp_all add: s5 tidy_def)
  have "register_vm_main env qenv sock garbage [socket, name, nb] s = Some (0, free (close s5))"
    using ok q x(1) r(1) s5 assms(8) qmp_connect_returns [OF assms(4,7,5)]
    by (simp add: register_vm_main_def e1 bufsz_def [symmetric])
  moreover have "vms (th_host s5) = vms (th_host s4)" "vcpus (th_host s5) = vcpus (th_host s4)" using m(4) by (simp_all add: s5)
  ultimately show ?thesis
    using r(2,3) bal a1(2,3) ok registered_entries [of name socket "of_int n" es "th_host s"]
    by (simp add: balanced_def)
qed

text \<open>A host on which an older \<open>vm0\<close> is still registered, with one vCPU marked phantom.\<close>

definition stale_example :: tool_state where
  "stale_example = \<lparr>th_heap = heap_empty,
     th_host = \<lparr>vms = [vm_key ''vm0'' \<mapsto> (fresh_vm ''old'' 2)\<lparr>vm_phantom_count := 1\<rparr>],
       vcpus = [7 \<mapsto> \<lparr>vcpu_index = 0, vm_name = vm_key ''vm0'', is_phantom = 1\<rparr>], map_registry = (\<lambda>_. None),
       inner_maps = (\<lambda>_. \<lparr>arr_max = 0, arr_val = (\<lambda>_. phantom_count_zero)\<rparr>), ktime_calls = 0, shm = registry_zero\<rparr>,
     dirs = {}, pins = (\<lambda>_. None), map_ids = 3, fds = 3, chunks = 0, syscalls = 0\<rparr>"

definition calm_example :: "u32 list \<Rightarrow> tool_env" where
  "calm_example ks = \<lparr>mok = (\<lambda>_. True), sysret = (\<lambda>_. None), key_order = ks,
     dir_entries = [''.'', ''..'', ''collection_buff_1'', ''collection_buff_2'']\<rparr>"

lemma calm_example [simp]: "calm (calm_example ks)"
  by (simp add: calm_def calm_example_def)

lemma stale_example_keys: "set (key_order (calm_example [7])) = dom (vcpus (th_host stale_example))"
  by (auto simp: calm_example_def stale_example_def split: if_splits)

theorem register_vm_main_registers_witness:
  "\<exists>s'. register_vm_main (calm_example [7]) \<lparr>socket_ok = True, connect_ok = (\<lambda>n. n = 3), write_ok = (\<lambda>_. True)\<rparr>
      \<lparr>sock_in = map Rd ([CHR 0x0A] @ [CHR 0x0A] @ reply_text ''['' reply_example), sock_out = []\<rparr>
      (\<lambda>sz. replicate (unat sz) CHR ''x'') [''/q'', ''vm0'', ''2''] stale_example = Some (0, s') \<and>
     vcpus (th_host s') 7 = None \<and> vcpus (th_host s') 41 = Some \<lparr>vcpu_index = 0, vm_name = vm_key ''vm0'', is_phantom = 0\<rparr>"
proof -
  let ?e = "calm_example [7]" and ?q = "\<lparr>socket_ok = True, connect_ok = (\<lambda>n. n = 3), write_ok = (\<lambda>_. True)\<rparr>"
  let ?k = "\<lparr>sock_in = map Rd ([CHR 0x0A] @ [CHR 0x0A] @ reply_text ''['' reply_example), sock_out = []\<rparr>"
  let ?g = "\<lambda>sz :: u64. replicate (unat sz) CHR ''x''"
  have h: "heap_ok (th_heap stale_example)" by (simp add: stale_example_def)
  have len: "int (length (reply_text ''['' reply_example)) < 4096 * 2"
    by (simp add: reply_text_def reply_example_def entry_body_def entry_key_def cpu_key_def show_int_def show_nat.simps)
  have nb: "atoi ''2'' = Some 2"
    by (simp add: atoi_def scan_number_def is_space_def is_digit_def digits_val_def fits_int_def)
  have nl: "is_line [CHR 0x0A]" by (simp add: is_line_def c_string_def)
  obtain s' where s': "register_vm_main ?e ?q ?k ?g [''/q'', ''vm0'', ''2''] stale_example = Some (0, s')"
      "\<forall>t. vcpus (th_host s') t = (case find (\<lambda>e. of_int (re_thread e) = t) (rev reply_example) of
          Some e \<Rightarrow> Some \<lparr>vcpu_index = of_int (re_cpu e), vm_name = vm_key ''vm0'', is_phantom = 0\<rparr>
        | None \<Rightarrow> (case vcpus (th_host stale_example) t of None \<Rightarrow> None
            | Some v \<Rightarrow> if c_str (vm_name v) = ''vm0'' then None else Some v))"
    using register_vm_main_registers [of ?e stale_example ?q 3 "''/q''" "''2''" 2 ?g "''vm0''" ?k "[CHR 0x0A]" "[CHR 0x0A]" "''[''"
        reply_example, OF calm_example stale_example_keys h] len nb nl reply_example_ok
    by (auto simp: UNIX_PATH_SIZE_def c_string_def)
  have "c_str (vm_key ''vm0'') = ''vm0''" by (simp add: vm_key_def VM_NAME_LEN_def c_str_fill_buf c_string_def)
  then have "vcpus (th_host s') 7 = None"
      "vcpus (th_host s') 41 = Some \<lparr>vcpu_index = 0, vm_name = vm_key ''vm0'', is_phantom = 0\<rparr>"
    using s'(2) by (simp_all add: stale_example_def reply_example_def)
  with s'(1) show ?thesis by blast
qed

text \<open>
  C16. Registering a VM on a running host keeps the phantom counters right. Whatever fails, the
  call returns and gives back its descriptors and allocations. When nothing fails, and the VM's
  threads belong to no other VM and are no more than announced, the counting invariant of the
  context-switch handler holds again: the VM has exactly the vCPUs listed, none is a phantom and
  its counter is zero, even if an older VM of that name had left marked vCPUs behind; the vCPUs
  and phantoms of every other VM are as before.
\<close>

theorem register_vm_establishes:
  assumes "vcpu_list (th_heap s) a qs"
  shows "\<exists>ret s'. register_vm env a name socket nb s = Some (ret, s') \<and> fds s' = fds s \<and> chunks s' = chunks s \<and>
    (calm env \<and> set (key_order env) = dom (vcpus (th_host s)) \<and> count_inv (th_host s) \<and> host_typed (th_host s) \<and>
       c_string name \<and> length name \<le> 63 \<and> length qs \<le> unat nb \<and>
       (\<forall>q \<in> set qs. \<forall>v. vcpus (th_host s) (tid q) = Some v \<longrightarrow> vm_name v = vm_key name) \<longrightarrow>
     ret \<and> count_inv (th_host s') \<and> host_typed (th_host s') \<and>
     members (th_host s') (vm_key name) = tid ` set qs \<and> phantoms (th_host s') (vm_key name) = {} \<and>
     (\<forall>n. n \<noteq> vm_key name \<longrightarrow> members (th_host s') n = members (th_host s) n \<and>
        phantoms (th_host s') n = phantoms (th_host s) n))"
proof -
  obtain ret s' where r: "register_vm env a name socket nb s = Some (ret, s')" "balanced s s'"
      "calm env \<and> set (key_order env) = dom (vcpus (th_host s)) \<longrightarrow> ret \<and> th_host s' = registered name socket nb qs (th_host s)"
    using register_vm_result [OF assms, of env name socket nb] by blast
  have fc: "fds s' = fds s" "chunks s' = chunks s" using r(2) by (auto simp: balanced_def)
  show ?thesis
    by (rule exI [of _ ret], rule exI [of _ s'])
      (use r(1,3) fc count_inv_registered [of "th_host s" name qs nb socket] host_typed_registered [of "th_host s" name socket nb qs]
        registered_members [of "th_host s" name qs socket nb] in auto)
qed

theorem register_vm_establishes_witness:
  "\<exists>h a s'. register_vm (calm_example [7]) a ''vm0'' ''/q'' 2 (stale_example\<lparr>th_heap := h\<rparr>) = Some (True, s') \<and>
     count_inv (th_host s') \<and> members (th_host s') (vm_key ''vm0'') = {41, 42} \<and> phantoms (th_host s') (vm_key ''vm0'') = {}"
proof -
  let ?qs = "[\<lparr>cpuIndex = 0, threadId = 41\<rparr>, \<lparr>cpuIndex = 1, threadId = 42\<rparr>]"
  obtain a h where "extract_vcpu_info (\<lambda>_. True) (reply_text ''['' reply_example) heap_empty = Some (Some a, h)"
      and l: "vcpu_list h a (map entry_vcpu reply_example)"
    using extract_vcpu_info_reply [of "\<lambda>_. True" heap_empty "''[''" reply_example] reply_example_ok by auto
  have qs: "map entry_vcpu reply_example = ?qs" by (simp add: reply_example_def entry_vcpu_def)
  let ?s = "stale_example\<lparr>th_heap := h\<rparr>"
  have pre: "vcpu_list (th_heap ?s) a ?qs" using l by (simp add: qs)
  have ph: "phantoms (th_host ?s) n = (if n = vm_key ''vm0'' then {7} else {})"
      "members (th_host ?s) n = (if n = vm_key ''vm0'' then {7} else {})" for n
    by (auto simp: phantoms_def members_def stale_example_def split: if_splits)
  have "count_inv (th_host ?s)"
    unfolding count_inv_def ph by (auto simp: stale_example_def vm_view_def fresh_vm_def split: if_splits)
  moreover have "host_typed (th_host ?s)"
    by (auto simp: host_typed_def stale_example_def fresh_vm_def c_string_def split: if_splits)
  ultimately show ?thesis
    using register_vm_establishes [OF pre, of "calm_example [7]" "''vm0''" "''/q''" 2] stale_example_keys
    by (intro exI [of _ h] exI [of _ a]) (auto simp: c_string_def tid_def stale_example_def split: if_splits)
qed

text \<open>
  C37. Setting up the buffers of a VM whose name has at most 61 characters gives back its
  descriptors whatever fails. When nothing fails, each of the two keys the eBPF programs build
  from the stored name leads to an array of its own, of a million zeroed entries, pinned under
  the VM's directory; no other key of the registry is touched.
\<close>

theorem setup_vm_maps_found:
  assumes "c_string name" and "length name \<le> 61"
  shows "fds (snd (setup_vm_maps env name s)) = fds s \<and>
    (calm env \<longrightarrow> fst (setup_vm_maps env name s) \<and>
     (\<exists>m1 m2. m1 \<noteq> m2 \<and>
       (\<forall>(d, m) \<in> {(CHR ''1'', m1), (CHR ''2'', m2)}.
         map_registry (th_host (snd (setup_vm_maps env name s))) (collection_key d (vm_key name)) = Some m \<and>
         pins (snd (setup_vm_maps env name s)) (buffer_path name d) = Some m \<and>
         arr_max (inner_maps (th_host (snd (setup_vm_maps env name s))) m) = 1000000 \<and>
         (\<forall>i. arr_val (inner_maps (th_host (snd (setup_vm_maps env name s))) m) i = phantom_count_zero))) \<and>
     (\<forall>k. k \<notin> {collection_key CHR ''1'' (vm_key name), collection_key CHR ''2'' (vm_key name)} \<longrightarrow>
        map_registry (th_host (snd (setup_vm_maps env name s))) k = map_registry (th_host s) k))"
proof -
  have key: "collection_key d (vm_key name) = registry_key d name" for d
    using collection_key_vm_key [OF assms(1), of d] assms(2) by (simp add: registry_key_def)
  have cs: "c_string (name @ [CHR ''_'', CHR ''1''])" "c_string (name @ [CHR ''_'', CHR ''2''])"
    using assms(1) by (auto simp: c_string_def)
  have ne: "registry_key CHR ''1'' name \<noteq> registry_key CHR ''2'' name"
    using fill_buf_inject [OF cs, of VM_NAME_LEN] assms(2) by (simp add: registry_key_def VM_NAME_LEN_def)
  have path: "buffer_path name CHR ''1'' \<noteq> buffer_path name CHR ''2''" using assms(2) by (simp add: buffer_path_short)
  have calm: "\<exists>m1 m2. m1 \<noteq> m2 \<and> (\<forall>(d, m) \<in> {(CHR ''1'', m1), (CHR ''2'', m2)}.
      map_registry (th_host (snd (setup_vm_maps env name s))) (registry_key d name) = Some m \<and>
      pins (snd (setup_vm_maps env name s)) (buffer_path name d) = Some m \<and>
      arr_max (inner_maps (th_host (snd (setup_vm_maps env name s))) m) = 1000000 \<and>
      (\<forall>i. arr_val (inner_maps (th_host (snd (setup_vm_maps env name s))) m) i = phantom_count_zero))" if c: "calm env"
    using setup_vm_maps_calm [OF c, of name s] ne path
    by (intro exI [of _ "map_ids s"] exI [of _ "Suc (map_ids s)"]) (simp add: new_buffer_def VM_MAP_MAX_ENTRIES_def)
  have other: "map_registry (th_host (snd (setup_vm_maps env name s))) k = map_registry (th_host s) k"
    if "calm env" "k \<notin> {registry_key CHR ''1'' name, registry_key CHR ''2'' name}" for k
    using setup_vm_maps_calm(4) [OF that(1), of name s] that(2) by simp
  have "fds (snd (setup_vm_maps env name s)) = fds s"
    using setup_vm_maps_tidy [OF assms(1), of s env] by (simp add: tidy_def)
  then show ?thesis unfolding key using calm other setup_vm_maps_calm(1) by blast
qed

theorem setup_vm_maps_found_witness:
  "\<exists>m. map_registry (th_host (snd (setup_vm_maps (calm_example []) ''vm0'' stale_example))) (collection_key CHR ''2'' (vm_key ''vm0'')) = Some m"
  using setup_vm_maps_found [of "''vm0''" "calm_example []" stale_example] by (auto simp: c_string_def)

text \<open>
  C15. Removing undoes registering: when a VM unknown to the host is registered, its buffers set
  up, and the VM removed again, and nothing fails, the removal exits with code 0 and the maps of
  VMs and vCPUs, the registry, the directories and the pinned files are exactly those before the
  registration.
\<close>

theorem register_cleanup_roundtrip:
  assumes "calm env" and "calm env'" and "vcpu_list (th_heap s) a qs" and "host_typed (th_host s)"
    and "c_string name" and "length name \<le> 63" and "set (key_order env) = dom (vcpus (th_host s))"
    and "vms (th_host s) (vm_key name) = None" and "\<forall>t v. vcpus (th_host s) t = Some v \<longrightarrow> vm_name v \<noteq> vm_key name"
    and "\<forall>q \<in> set qs. vcpus (th_host s) (tid q) = None"
    and "map_registry (th_host s) (registry_key CHR ''1'' name) = None"
    and "map_registry (th_host s) (registry_key CHR ''2'' name) = None"
    and "vm_dir 256 name \<notin> dirs s" and "\<forall>e. pins s (vm_dir 256 name @ ''/'' @ e) = None"
    and "register_vm env a name socket nb s = Some (ret1, s1)" and "setup_vm_maps env name s1 = (ret2, s2)"
    and "distinct (dir_entries env')" and "set (dir_entries env') = {''.'', ''..'', ''collection_buff_1'', ''collection_buff_2''}"
    and "set (key_order env') = dom (vcpus (th_host s2))"
  shows "\<exists>s3. cleanup_main env' [name] s2 = (0, s3) \<and> vms (th_host s3) = vms (th_host s) \<and> vcpus (th_host s3) = vcpus (th_host s) \<and>
    map_registry (th_host s3) = map_registry (th_host s) \<and> dirs s3 = dirs s \<and> pins s3 = pins s"
proof -
  let ?h = "th_host s" and ?path = "vm_dir 256 name"
  have path: "vm_dir 128 name = ?path" "?path = PIN_BASE @ ''/'' @ name" using assms(6) by (simp_all add: vm_dir_short)
  have bp: "buffer_path name d = ?path @ ''/'' @ ''collection_buff_'' @ [d]" for d
    using assms(6) by (simp add: buffer_path_short path(2))
  have s1: "same_files s s1" "th_host s1 = registered name socket nb qs ?h"
    using register_vm_result [OF assms(3), of env name socket nb] assms(1,7,15) by auto
  have s2: "dirs s2 = insert ?path (dirs s)" "pins s2 = (pins s)(buffer_path name CHR ''1'' \<mapsto> map_ids s1, buffer_path name CHR ''2'' \<mapsto> Suc (map_ids s1))"
      "vms (th_host s2) = (vms ?h)(vm_key name \<mapsto> fresh_vm socket nb)" "vcpus (th_host s2) = vcpus (registered name socket nb qs ?h)"
      "map_registry (th_host s2) = (map_registry ?h)(registry_key CHR ''1'' name \<mapsto> map_ids s1, registry_key CHR ''2'' name \<mapsto> Suc (map_ids s1))"
    using setup_vm_maps_calm [OF assms(1), of name s1] assms(16) s1 path(1) by (simp_all add: same_files_def registered_fields)
  have lst: "lists_dir env' ?path (pins s2)"
    using assms(6,14,17,18) by (auto simp: lists_dir_def s2(2) bp vm_dir_short PIN_BASE_def)
  obtain s3 where s3: "cleanup_main env' [name] s2 = (0, s3)" "th_host s3 = removed name (th_host s2)" "dirs s3 = dirs s2 - {?path}"
      "pins s3 = unpinned env' ?path (pins s2)"
    using cleanup_main_calm [OF assms(2) lst _ assms(19)] s2(1) by auto
  have cv: "c_str (vm_key name) = name"
    using c_str_fill_buf [OF assms(5), of VM_NAME_LEN] assms(6) by (simp add: vm_key_def VM_NAME_LEN_def)
  have st: "\<not> stale name ?h t" for t
    using assms(4,9) c_str_eq_vm_key [OF _ assms(5,6)] by (auto simp: stale_def host_typed_def split: option.splits)
  have vc: "(if stale name (th_host s2) t then None else vcpus (th_host s2) t) = vcpus ?h t" for t
  proof (cases "t \<in> tid ` set qs")
    case True
    from registered_new [OF True, of name socket nb ?h] have "stale name (th_host s2) t"
      by (auto simp: stale_def s2(4) fresh_vcpu_def cv)
    with True assms(10) show ?thesis by auto
  next
    case False
    then have "vcpus (th_host s2) t = vcpus ?h t" using registered_old [OF False, of name socket nb ?h] st by (simp add: s2(4))
    then show ?thesis using st [of t] by (simp add: stale_def)
  qed
  have "vcpus (th_host s3) t = (if stale name (th_host s2) t then None else vcpus (th_host s2) t)" for t
    by (simp add: s3(2) removed_def forget_vcpus_def stale_def)
  then have "vcpus (th_host s3) = vcpus ?h" by (intro ext) (simp only: vc)
  moreover have "vms (th_host s3) = vms ?h" using assms(8) by (auto simp: s3(2) removed_def forget_vcpus_def s2(3) fun_eq_iff)
  moreover have "map_registry (th_host s3) = map_registry ?h"
    using assms(11,12) by (auto simp: s3(2) removed_def forget_vcpus_def s2(5) fun_eq_iff)
  moreover have "dirs s3 = dirs s" using s3(3) s2(1) assms(13) by simp
  moreover have "pins s3 = pins s" using assms(14,18) by (auto simp: s3(4) unpinned_def s2(2) bp fun_eq_iff)
  ultimately show ?thesis using s3(1) by blast
qed

theorem register_cleanup_roundtrip_witness:
  "\<exists>h a s1 s2 s3. register_vm (calm_example [7]) a ''vm1'' ''/q'' 2 (stale_example\<lparr>th_heap := h\<rparr>) = Some (True, s1) \<and>
     setup_vm_maps (calm_example [7]) ''vm1'' s1 = (True, s2) \<and> vms (th_host s2) (vm_key ''vm1'') \<noteq> None \<and>
     cleanup_main (calm_example [7, 41, 42]) [''vm1''] s2 = (0, s3) \<and> vms (th_host s3) (vm_key ''vm1'') = None"
proof -
  let ?qs = "[\<lparr>cpuIndex = 0, threadId = 41\<rparr>, \<lparr>cpuIndex = 1, threadId = 42\<rparr>]" and ?e = "calm_example [7]" and ?e' = "calm_example [7, 41, 42]"
  obtain a h where "extract_vcpu_info (\<lambda>_. True) (reply_text ''['' reply_example) heap_empty = Some (Some a, h)"
      and l: "vcpu_list h a (map entry_vcpu reply_example)"
    using extract_vcpu_info_reply [of "\<lambda>_. True" heap_empty "''[''" reply_example] reply_example_ok by auto
  have qs: "map entry_vcpu reply_example = ?qs" by (simp add: reply_example_def entry_vcpu_def)
  let ?s = "stale_example\<lparr>th_heap := h\<rparr>"
  have pre: "vcpu_list (th_heap ?s) a ?qs" using l by (simp add: qs)
  have keys: "set (key_order ?e) = dom (vcpus (th_host ?s))" using stale_example_keys by simp
  have cs: "c_string ''vm0''" "c_string ''vm1''" by (simp_all add: c_string_def)
  have ne: "vm_key ''vm0'' \<noteq> vm_key ''vm1''" using fill_buf_inject [OF cs, of VM_NAME_LEN] by (simp add: vm_key_def VM_NAME_LEN_def)
  have ty: "host_typed (th_host ?s)"
    using cs by (auto simp: host_typed_def stale_example_def fresh_vm_def split: if_splits)
  obtain s1 where s1: "register_vm ?e a ''vm1'' ''/q'' 2 ?s = Some (True, s1)" "th_host s1 = registered ''vm1'' ''/q'' 2 ?qs (th_host ?s)"
    using register_vm_result [OF pre, of ?e "''vm1''" "''/q''" 2] keys by auto
  obtain s2 where s2: "setup_vm_maps ?e ''vm1'' s1 = (True, s2)"
    using setup_vm_maps_calm(1) [of ?e "''vm1''" s1] by (metis calm_example prod.collapse)
  have h2: "vms (th_host s2) (vm_key ''vm1'') \<noteq> None" "vcpus (th_host s2) = vcpus (th_host s1)"
    using setup_vm_maps_calm(4) [of ?e "''vm1''" s1] s1(2) by (simp_all add: s2 registered_fields)
  have st: "\<not> stale ''vm1'' (th_host stale_example) k" for k
    using c_str_eq_vm_key [OF name_typed_vm_key [OF cs(1)] cs(2)] ne by (auto simp: stale_def stale_example_def split: if_splits)
  have "vcpus (th_host s2) k = ((vcpus (th_host ?s))(41 \<mapsto> fresh_vcpu ''vm1'' (?qs ! 0), 42 \<mapsto> fresh_vcpu ''vm1'' (?qs ! 1))) k" for k
    by (simp add: h2(2) s1(2) registered_def put_vcpu_def forget_vcpus_def st)
  then have keys': "set (key_order ?e') = dom (vcpus (th_host s2))"
    by (auto simp: dom_def calm_example_def stale_example_def split: if_splits)
  have own: "\<forall>t v. vcpus (th_host ?s) t = Some v \<longrightarrow> vm_name v \<noteq> vm_key ''vm1''"
    using ne by (auto simp: stale_example_def split: if_splits)
  have "\<exists>s3. cleanup_main ?e' [''vm1''] s2 = (0, s3) \<and> vms (th_host s3) = vms (th_host ?s)"
    using register_cleanup_roundtrip [OF calm_example calm_example pre ty cs(2) _ keys _ own _ _ _ _ _ s1(1) s2 _ _ keys'] ne
    by (auto simp: stale_example_def tid_def calm_example_def split: if_splits)
  then obtain s3 where "cleanup_main ?e' [''vm1''] s2 = (0, s3)" "vms (th_host s3) (vm_key ''vm1'') = None"
    using ne by (auto simp: stale_example_def)
  with s1(1) s2 h2(1) show ?thesis by blast
qed

end
