(* ===== verification/Pvsched_System.thy ===== *)
theory Pvsched_System
  imports Omp_Tracker Vm_Registration Phantom_Timer
begin

text \<open>
  Host and guest together. A backend of the host module is BAR 2 of the guest's ivshmem device:
  the same bytes seen from both sides. On this memory the guest's OpenMP tracker reports, and the
  host's context-switch handler reads.
\<close>

subsection \<open>The shared memory\<close>

definition shares :: "host_ivshmem_backend \<Rightarrow> pci_env \<Rightarrow> nat \<Rightarrow> guest_state \<Rightarrow> bool" where
  "shares b env pdev gs \<longleftrightarrow> be_mem b = Some (bars gs pdev) \<and> bar_len env = be_size b"

text \<open>What the guest kernel answers when it has no reason to refuse.\<close>

definition guest_grants :: "pci_env \<Rightarrow> bool" where
  "guest_grants env \<longleftrightarrow> g_kzalloc_ok env \<and> enable_ret env = None \<and> bar_is_mem env \<and> request_ret env = None \<and>
     (\<forall>off len. off < bar_len env \<longrightarrow> pci_iomap_range env off len \<noteq> None)"

text \<open>The guest module is bound to the device with the guest-to-host page where the host has it.\<close>

definition bound_at :: "nat \<Rightarrow> nat \<Rightarrow> guest_state \<Rightarrow> bool" where
  "bound_at pg pdev gs \<longleftrightarrow> page_size_ok pg \<and>
     (\<exists>g d len. guest_ivshmem gs = Some g \<and> objs gs g = Some d \<and> gd_pdev d = pdev \<and>
        gd_g2h_page d = Some (HOST_IVSHMEM_G2H_OFFSET pg, len) \<and> pg \<le> len)"

lemma bound_at_ready: "bound_at pg pdev gs \<Longrightarrow> guest_ready pg gs"
  by (auto simp: bound_at_def guest_ready_def)

lemma bound_at_slot:
  "bound_at pg pdev gs \<Longrightarrow> guest_slot gs i = load_le 8 (bars gs pdev) (HOST_IVSHMEM_G2H_OFFSET pg + i * GUEST_IVSHMEM_MSG_SIZE)"
  by (auto simp: bound_at_def guest_slot_def)

text \<open>A new backend is zero past its header.\<close>

lemma host_register_vm_zeroed:
  assumes "host_register_vm pg env dbg r req = Some (Inr req', r')" and "devices r' (nat (sint (vm_id req') + 1)) = Some b"
    and "be_mem b = Some m" and "IVSHMEM_HEADER_SIZE \<le> x"
  shows "m x = 0"
  using assms store_header_frame
  by (fastforce simp: host_register_vm_def host_ivshmem_create_static_backend_def Let_def Option.bind_eq_Some_conv
      split: if_splits option.splits)

lemma header_words:
  assumes "page_size_ok pg" and "3 * pg \<le> unat (sz :: u64)"
  shows "unat (of_nat pg :: u64) = pg" and "unat (of_nat (2 * pg) :: u64) = 2 * pg"
    and "unat (sz - of_nat (2 * pg)) = unat sz - 2 * pg" and "of_nat (2 * pg) < sz" and "(sz - of_nat (2 * pg)) \<noteq> 0"
proof -
  have pg: "4096 \<le> pg" "pg \<le> 65536" using page_size_okD [OF assms(1)] by auto
  show "unat (of_nat pg :: u64) = pg" by (rule unat_of_nat_u64) (use pg in simp)
  show u: "unat (of_nat (2 * pg) :: u64) = 2 * pg" by (rule unat_of_nat_u64) (use pg in simp)
  then have le: "of_nat (2 * pg) \<le> sz" unfolding word_le_nat_alt using assms(2) by simp
  then show d: "unat (sz - of_nat (2 * pg)) = unat sz - 2 * pg" using unat_sub [OF le] u by simp
  show "of_nat (2 * pg) < sz" unfolding word_less_nat_alt u using assms(2) pg(1) by simp
  have "unat (sz - of_nat (2 * pg)) \<noteq> 0" using d assms(2) pg(1) by simp
  then show "(sz - of_nat (2 * pg)) \<noteq> 0" by auto
qed

subsection \<open>The guest binds to what the host registered\<close>

lemma load_header_size:
  "IVSHMEM_HEADER_SIZE \<le> n \<Longrightarrow> IVSHMEM_HEADER_SIZE \<le> k \<Longrightarrow> load_header n m = load_header k m"
  by (simp add: load_header_def)

lemma probe_registered_state:
  assumes pg: "page_size_ok pg" and io: "iomap_ok env" and gr: "guest_grants env" and un: "unbound pdev gs"
    and sh: "shares b env pdev gs" and b: "g2h_mapped pg b"
  shows "guest_ivshmem_probe pg env pdev gs =
    Some (None, bound_state pg env pdev (host_header pg (be_size b)) (2 * pg, unat (be_size b) - 2 * pg) gs)"
proof -
  let ?sz = "be_size b" and ?off = "of_nat (2 * pg) :: u64"
  obtain ret gs' where run: "guest_ivshmem_probe pg env pdev gs = Some (ret, gs')" using probe_total [OF pg io] by blast
  have sz: "3 * pg \<le> unat ?sz" "bar_len env = ?sz" using b sh by (auto simp: g2h_mapped_def shares_def)
  note w = header_words [OF pg sz(1)]
  have p: "4096 \<le> pg" "pg \<le> 65536" using page_size_okD [OF pg] by auto
  have meta: "\<not> bar_len env < of_nat pg" using sz w(1) by (simp add: word_less_nat_alt not_less)
  have granted: "\<exists>page. pci_iomap_range env off len = Some page" if "off < ?sz" for off len
    using gr that by (auto simp: guest_grants_def sz(2))
  have "0 < ?sz" using sz(1) p(1) by (simp add: word_less_nat_alt)
  from granted [OF this] obtain base len where m: "pci_iomap_range env 0 (of_nat pg) = Some (base, len)" by fastforce
  have len: "base = 0" "len = pg" using iomap_okD [OF io m] w(1) sz p by (auto simp flip: unat_eq_0)
  have hdr: "load_header len (\<lambda>x. bars gs pdev (base + x)) = Some (host_header pg ?sz)"
    using b sh load_header_size [of pg "unat ?sz"] sz(1) p by (auto simp: g2h_mapped_def backend_ok_def shares_def len abi_defs)
  obtain page where page: "pci_iomap_range env ?off (?sz - ?off) = Some page"
    using granted [OF w(4)] by blast
  have pg_page: "page = (2 * pg, unat ?sz - 2 * pg)"
    using iomap_okD [OF io, of ?off "?sz - ?off" "fst page" "snd page"] page w sz by (cases page) auto
  have "hdr_ok pg env (host_header pg ?sz)" by (simp add: hdr_ok_def host_header_def abi_defs sz(2))
  then have ok: "probe_header pg env pdev (next_obj gs) (host_header pg ?sz) (entry_state pdev gs) =
      (None, bound_state pg env pdev (host_header pg ?sz) page gs)"
    using page un
    by (auto simp: probe_header_def host_header_def abi_defs GUEST_IVSHMEM_METADATA_OFFSET_def GUEST_IVSHMEM_METADATA_SIZE_def
        PVSCHED_MAGIC_def hdr_ok_def entry_state_def bound_state_def device_of_def Let_def not_less intro!: guest_state.equality)
  have "guest_ivshmem_probe pg env pdev gs = Some (probe_header pg env pdev (next_obj gs) (host_header pg ?sz) (entry_state pdev gs))"
    using gr m hdr meta by (auto simp: guest_ivshmem_probe_def guest_grants_def GUEST_IVSHMEM_METADATA_OFFSET_def
        GUEST_IVSHMEM_METADATA_SIZE_def Let_def entry_state_def)
  then show ?thesis by (simp add: ok pg_page)
qed

lemma probe_registered:
  assumes pg: "page_size_ok pg" and io: "iomap_ok env" and gr: "guest_grants env" and un: "unbound pdev gs"
    and sh: "shares b env pdev gs" and b: "g2h_mapped pg b"
  shows "\<exists>gs'. guest_ivshmem_probe pg env pdev gs = Some (None, gs') \<and> bound_at pg pdev gs' \<and> bars gs' = bars gs"
proof -
  have "3 * pg \<le> unat (be_size b)" using b by (simp add: g2h_mapped_def)
  then have "bound_at pg pdev (bound_state pg env pdev (host_header pg (be_size b)) (2 * pg, unat (be_size b) - 2 * pg) gs)"
    using pg by (simp add: bound_at_def bound_state_def device_of_def abi_defs)
  with probe_registered_state [OF assms] show ?thesis by (simp add: bound_state_def)
qed

subsection \<open>The guest's events leave the binding alone\<close>

lemma g2h_report_keeps:
  assumes "g2h_report pg gs i v = Some gs'"
  shows "guest_ivshmem gs' = guest_ivshmem gs" and "objs gs' = objs gs"
  using assms by (auto simp: g2h_report_def bpf_guest_ivshmem_g2h_write_def guest_ivshmem_g2h_write_msg_def Let_def
      split: option.splits if_splits)

lemma bound_at_report: "g2h_report pg gs i v = Some gs' \<Longrightarrow> bound_at pg pdev gs' = bound_at pg pdev gs"
  using g2h_report_keeps [of pg gs i v gs'] by (simp add: bound_at_def)

lemma bound_at_step:
  assumes "omp_step (g2h_report pg) y y'" and "bound_at pg pdev (omp_shm (omp y))"
  shows "bound_at pg pdev (omp_shm (omp y'))"
  using assms
  by (cases rule: omp_step.cases)
    (auto simp: capture_omp_master_thread_def capture_omp_worker_threads_def remove_exited_omp_thread_def
      remove_execed_omp_thread_def remove_current_tid_def handle_switch_def Option.bind_eq_Some_conv bound_at_report
      split: if_splits)

lemma bound_at_run:
  "(omp_step (g2h_report pg))\<^sup>*\<^sup>* y y' \<Longrightarrow> bound_at pg pdev (omp_shm (omp y)) \<Longrightarrow> bound_at pg pdev (omp_shm (omp y'))"
  by (induction rule: rtranclp_induct) (auto intro: bound_at_step)

subsection \<open>What the host reads\<close>

text \<open>The first backend of the host carries the bytes the guest has in its BAR.\<close>

definition host_sees :: "nat \<Rightarrow> guest_state \<Rightarrow> nat \<Rightarrow> host_registry \<Rightarrow> bool" where
  "host_sees pg gs pdev r =
     (case devices r FIRST_VM_MINOR of None \<Rightarrow> False
      | Some b \<Rightarrow> be_mem b = Some (bars gs pdev) \<and> 3 * pg \<le> unat (be_size b))"

lemma host_reads_slot:
  assumes "bound_at pg pdev gs" and "host_sees pg gs pdev (shm hs)" and "unat i < NR_GUEST_IVSHMEM_MSGS pg"
  shows "guest_run_state pg hs i = Some (guest_slot gs (unat i))"
proof -
  have pg: "page_size_ok pg" using assms(1) by (simp add: bound_at_def)
  obtain b where b: "devices (shm hs) FIRST_VM_MINOR = Some b" "be_mem b = Some (bars gs pdev)" "3 * pg \<le> unat (be_size b)"
    using assms(2) by (auto simp: host_sees_def split: option.splits)
  have "HOST_IVSHMEM_G2H_OFFSET pg + unat i * GUEST_IVSHMEM_MSG_SIZE + 8 \<le> unat (be_size b)"
    using slot_in_page [OF pg, of "unat i"] assms(3) b(3) by (simp add: NR_GUEST_eq_HOST) (simp add: abi_defs)
  then show ?thesis
    using b assms(3) bound_at_slot [OF assms(1)]
    by (simp add: guest_run_state_def bpf_host_ivshmem_g2h_read_def host_ivshmem_g2h_read_def load_chk_def)
qed

subsection \<open>Properties\<close>

text \<open>
  C36. Host and guest agree on the layout. A backend the host registers for at least one vCPU,
  presented to a guest as BAR 2 of its device, is accepted by the guest module: binding succeeds
  when the guest's kernel grants what the module asks for, the guest-to-host page it maps is the
  one the host reads, a whole page of slots is writable, and every slot is 0.
\<close>

theorem guest_binds_registered_backend:
  assumes "page_size_ok pg" and "rounds_up_pow2 (roundup_pow_of_two kenv)" and "registry_inv pg r"
    and "host_register_vm pg kenv dbg_root r req = Some (Inr req', r')" and "0 < nb_cpu req"
    and "devices r' (nat (sint (vm_id req') + 1)) = Some b" and "shares b env pdev gs"
    and "iomap_ok env" and "guest_grants env" and "unbound pdev gs"
  shows "\<exists>gs'. guest_ivshmem_probe pg env pdev gs = Some (None, gs') \<and> bound_at pg pdev gs' \<and> guest_ready pg gs' \<and>
    (\<forall>i<NR_GUEST_IVSHMEM_MSGS pg. guest_slot gs' i = 0)"
proof -
  have b: "g2h_mapped pg b"
    using assms(1-3)
  proof (cases rule: host_register_vm_cases [where dbg = dbg_root and req = req])
    case (registered b')
    then have "b = b'" using assms(4,6) by auto
    with registered(3,5) backend_size_g2h(2) [OF assms(1,2,5)] show ?thesis by (simp add: g2h_mapped_def)
  qed (use assms(4) in auto)
  obtain gs' where gs': "guest_ivshmem_probe pg env pdev gs = Some (None, gs')" "bound_at pg pdev gs'" "bars gs' = bars gs"
    using probe_registered [OF assms(1,8,9,10,7) b] by blast
  have zero: "bars gs pdev x = 0" if "IVSHMEM_HEADER_SIZE \<le> x" for x
    by (rule host_register_vm_zeroed [OF assms(4,6) _ that]) (use assms(7) in \<open>simp add: shares_def\<close>)
  have "guest_slot gs' i = 0" for i
    unfolding bound_at_slot [OF gs'(2)] gs'(3)
    by (rule load_le_zero) (use zero page_size_okD(1) [OF assms(1)] in \<open>auto simp: abi_defs\<close>)
  with gs'(1,2) bound_at_ready [OF gs'(2)] show ?thesis by blast
qed

text \<open>A backend of four pages and a guest that sees it.\<close>

lemma registered_example:
  "\<exists>req' r' b. host_register_vm 4096 kenv_ok True registry_zero \<lparr>nb_cpu = 4, backend_name = 0, vm_id = 0, req_size = 0\<rparr> =
      Some (Inr req', r') \<and> devices r' (nat (sint (vm_id req') + 1)) = Some b \<and> be_size b = 16384 \<and> be_mem b \<noteq> None \<and> backend_ok 4096 b"
proof -
  have f: "rounds_up_pow2 (roundup_pow_of_two kenv_ok)" by (simp add: kenv_ok_def rounds_up_pow2_roundup)
  let ?req = "\<lparr>nb_cpu = 4, backend_name = 0, vm_id = 0, req_size = 0\<rparr>"
  show ?thesis
    using page_size_ok_4096 f registry_inv_zero
  proof (cases rule: host_register_vm_cases [where dbg = True and req = ?req])
    case (registered b)
    have "unat (backend_bytes 4096 4) = 12288" using unat_backend_bytes [OF page_size_ok_4096, of 4] by simp
    moreover have "ceillog2 12288 = 14" by (rule ceillog2_eqI) simp_all
    ultimately have "be_size b = 16384" using registered(5) by (simp add: kenv_ok_def pow2_roundup_def)
    moreover have "be_mem b \<noteq> None" using registered(3) by (auto simp: backend_ok_def split: option.splits)
    ultimately show ?thesis using registered(1,3) by (auto simp: registry_zero_def)
  qed (auto simp: kenv_ok_def registry_zero_def)
qed

lemma grants_example: "guest_grants penv_example"
  by (simp add: guest_grants_def penv_example_def)

theorem guest_binds_registered_backend_witness:
  "\<exists>m gs'. guest_ivshmem_probe 4096 penv_example 3 (guest_example m) = Some (None, gs') \<and> bound_at 4096 3 gs' \<and> guest_slot gs' 2 = 0"
proof -
  have f: "rounds_up_pow2 (roundup_pow_of_two kenv_ok)" by (simp add: kenv_ok_def rounds_up_pow2_roundup)
  obtain req' r' b m where r: "host_register_vm 4096 kenv_ok True registry_zero \<lparr>nb_cpu = 4, backend_name = 0, vm_id = 0, req_size = 0\<rparr> =
      Some (Inr req', r')" "devices r' (nat (sint (vm_id req') + 1)) = Some b" "be_size b = 16384" "be_mem b = Some m"
    using registered_example by blast
  have "shares b penv_example 3 (guest_example m)" using r(3,4) by (simp add: shares_def penv_example_def guest_example_def)
  from guest_binds_registered_backend [OF page_size_ok_4096 f registry_inv_zero r(1) _ r(2) this iomap_ok_example grants_example unbound_example(1)]
  obtain gs' where "guest_ivshmem_probe 4096 penv_example 3 (guest_example m) = Some (None, gs')" "bound_at 4096 3 gs'"
      "\<forall>i<NR_GUEST_IVSHMEM_MSGS 4096. guest_slot gs' i = 0" by auto
  moreover have "2 < NR_GUEST_IVSHMEM_MSGS 4096" by (simp add: abi_defs)
  ultimately show ?thesis by blast
qed

lemma start_reports:
  assumes "bound_at pg pdev gs" and "placed r" and "\<forall>i<NR_GUEST_IVSHMEM_MSGS pg. guest_slot gs i = 0"
  shows "g2h.reports pg (omp_start gs r)"
  using assms bound_at_ready by (simp add: g2h.reports_def omp_start_def)

lemma runs_omp_slot:
  assumes "bound_at pg pdev gs" and "host_sees pg gs pdev (shm hs)" and "vcpus hs t = Some v"
    and "unat (vcpu_index v) < NR_GUEST_IVSHMEM_MSGS pg"
  shows "runs_omp pg hs t \<longleftrightarrow> guest_slot gs (unat (vcpu_index v)) = 1"
  using host_reads_slot [OF assms(1,2,4)] assms(3) by (simp add: runs_omp_def)

lemma judged_by_slot:
  assumes "bound_at pg pdev gs" and "host_sees pg gs pdev (shm hs)"
    and "count_inv hs" and "phantom_switch_handler pg ktime ctx hs = Some hs'"
    and "vcpus hs (prev_pid ctx) = Some v" and "unat (vcpu_index v) < NR_GUEST_IVSHMEM_MSGS pg"
    and "prev_pid ctx \<notin> phantoms hs (vm_name v)" and "ctx_prev_state ctx \<in> {TASK_RUNNING, TASK_WAKING}"
  shows "prev_pid ctx \<in> phantoms hs' (vm_name v) \<longleftrightarrow> guest_slot gs (unat (vcpu_index v)) = 1"
proof -
  have "seen_state ctx hs \<in> {TASK_RUNNING, TASK_WAKING}" using assms(8) by (auto simp: seen_state_def TASK_RUNNING_def)
  moreover have "prev_pid ctx \<in> members hs (vm_name v)" using assms(5) by (simp add: members_def)
  ultimately show ?thesis
    using switch_handler_sets [OF assms(3,4), of "vm_name v"] runs_omp_slot [OF assms(1,2,5,6)] assms(7)
    by (auto simp: departing_def split: if_splits)
qed

text \<open>
  Every VM runs a guest of its own; the shared memory the eBPF programs read is the first
  backend, that of the VM called \<open>first\<close>. A vCPU thread whose index lies in the page is judged by
  what that guest reports, whatever VM the thread belongs to: switched out unmarked while it is
  preempted, it becomes a phantom exactly if slot number \<open>vcpu_index\<close> of the first guest is 1.
  For a vCPU of any other VM this is the run state of a CPU of another machine.
\<close>

theorem judged_by_first_guest:
  assumes "bound_at pg pdev gs" and "host_sees pg gs pdev (shm hs)"
    and "count_inv hs" and "phantom_switch_handler pg ktime ctx hs = Some hs'"
    and "vcpus hs (prev_pid ctx) = Some v" and "unat (vcpu_index v) < NR_GUEST_IVSHMEM_MSGS pg"
    and "prev_pid ctx \<notin> phantoms hs (vm_name v)" and "ctx_prev_state ctx \<in> {TASK_RUNNING, TASK_WAKING}"
  shows "prev_pid ctx \<in> phantoms hs' (vm_name v) \<longleftrightarrow> guest_slot gs (unat (vcpu_index v)) = 1"
  by (rule judged_by_slot [OF assms])

text \<open>
  C3. Across host and guest, for the VM whose backend came first: a vCPU thread becomes a phantom
  only when it is switched out while an OpenMP thread was running on that vCPU. The guests
  \<open>y\<close> are given by VM name. Whatever the guest of the VM called \<open>first\<close> did since its module
  was bound to the first backend, if the host handler marks a vCPU of that VM which was not
  marked, then the vCPU is the one switched out, and the thread which the guest of this very
  vCPU was running on that CPU is one the guest recorded as OpenMP thread.
\<close>

theorem phantom_means_omp:
  assumes "bound_at pg pdev gs" and "placed r" and "\<forall>i<NR_GUEST_IVSHMEM_MSGS pg. guest_slot gs i = 0"
    and "(omp_step (g2h_report pg))\<^sup>*\<^sup>* (omp_start gs r) (y first)"
    and "host_sees pg (omp_shm (omp (y first))) pdev (shm hs)"
    and "count_inv hs" and "phantom_switch_handler pg ktime ctx hs = Some hs'"
    and "vcpus hs t = Some v" and "unat (vcpu_index v) < NR_GUEST_IVSHMEM_MSGS pg"
    and "vm_name v = first" and "t \<in> phantoms hs' first" and "t \<notin> phantoms hs first"
  shows "t = prev_pid ctx \<and>
    omp_threads_map (omp (y (vm_name v))) (running (y (vm_name v)) (vcpu_index v)) \<noteq> None"
proof -
  have bnd: "bound_at pg pdev (omp_shm (omp (y first)))"
    using bound_at_run [OF assms(4), of pdev] assms(1) by (simp add: omp_start_def)
  have rep: "g2h.reports pg (y first)" by (rule g2h.run_reports [OF assms(4) start_reports [OF assms(1-3)]])
  have "t \<in> departing pg ctx hs" using switch_handler_sets [OF assms(6,7), of first] assms(11,12) by blast
  then have t: "t = prev_pid ctx" "runs_omp pg hs t" by (auto simp: departing_def split: if_splits)
  with runs_omp_slot [OF bnd assms(5,8,9)] have "guest_slot (omp_shm (omp (y first))) (unat (vcpu_index v)) = 1" by simp
  with rep assms(9,10) t(1) show ?thesis by (auto simp: g2h.reports_def)
qed

text \<open>A host whose first VM is that guest: vCPU 2 is thread 102, unmarked.\<close>

definition paired_host :: "guest_state \<Rightarrow> host_state" where
  "paired_host gs = \<lparr>vms = [vm_key ''vm0'' \<mapsto> fresh_vm ''/q'' 4],
     vcpus = [102 \<mapsto> \<lparr>vcpu_index = 2, vm_name = vm_key ''vm0'', is_phantom = 0\<rparr>], map_registry = (\<lambda>_. None),
     inner_maps = (\<lambda>_. \<lparr>arr_max = 0, arr_val = (\<lambda>_. phantom_count_zero)\<rparr>), ktime_calls = 0,
     shm = registry_zero\<lparr>devices := [FIRST_VM_MINOR \<mapsto> backend_zero\<lparr>be_mem := Some (bars gs 3), be_size := 16384\<rparr>]\<rparr>\<rparr>"

lemma paired_host_sees: "host_sees 4096 gs 3 (shm (paired_host gs))"
  by (simp add: host_sees_def paired_host_def)

lemma paired_host_inv: "count_inv (paired_host gs)"
proof -
  have "members (paired_host gs) n = (if n = vm_key ''vm0'' then {102} else {})" "phantoms (paired_host gs) n = {}" for n
    by (auto simp: members_def phantoms_def paired_host_def split: if_splits)
  then show ?thesis by (auto simp: count_inv_def vm_view_def paired_host_def fresh_vm_def split: if_splits)
qed

lemma omp_guest_example_bound: "bound_at 4096 3 omp_guest_example"
  by (simp add: bound_at_def omp_guest_example_def bound_state_def device_of_def abi_defs)

lemma paired_example:
  "\<exists>y. (omp_step (g2h_report 4096))\<^sup>*\<^sup>* (omp_start omp_guest_example running_example) y \<and>
     running y 2 = 0 \<and> (\<forall>c. running y c \<noteq> 40) \<and> omp_threads_map (omp y) 40 = Some 2"
proof -
  obtain y where y: "omp_step (g2h_report 4096) (omp_start omp_guest_example running_example) y" "running y = running_example"
      "omp_threads_map (omp y) 40 = Some 2" using omp_run_example by blast
  have "g2h.reports 4096 (omp_start omp_guest_example running_example)"
    by (rule start_reports [OF omp_guest_example_bound placed_example omp_guest_example_zero])
  then have "g2h.reports 4096 y" by (rule g2h.run_reports [OF r_into_rtranclp [of "omp_step (g2h_report 4096)", OF y(1)]])
  from g2h.switch_reports [OF this, of 0 2] obtain s where
    s: "handle_switch (g2h_report 4096) (running y 2) 0 2 (omp y) = Some s" "omp_threads_map s = omp_threads_map (omp y)" by auto
  let ?y = "y\<lparr>omp := s, running := (running y)(2 := 0)\<rparr>"
  have "omp_step (g2h_report 4096) y ?y" by (rule omp_step.switch) (use s(1) in auto)
  with y(1) have "(omp_step (g2h_report 4096))\<^sup>*\<^sup>* (omp_start omp_guest_example running_example) ?y" by auto
  then show ?thesis using y(2,3) s(2) by (intro exI [of _ ?y]) (auto simp: running_example_def)
qed


lemma paired_switch_example:
  "\<exists>y s hs'. (omp_step (g2h_report 4096))\<^sup>*\<^sup>* (omp_start omp_guest_example running_example) y \<and>
     (\<forall>c. running y c \<noteq> 40) \<and> omp_threads_map (omp y) 40 = Some 2 \<and>
     handle_switch (g2h_report 4096) (running y 2) 40 2 (omp y) = Some s \<and> guest_slot (omp_shm s) 2 = 1 \<and>
     omp_threads_map s 40 = Some 2 \<and>
     phantom_switch_handler 4096 of_nat \<lparr>next_pid = 0, prev_pid = 102, ctx_prev_state = 0\<rparr> (paired_host (omp_shm s)) = Some hs'"
proof -
  obtain y where y: "(omp_step (g2h_report 4096))\<^sup>*\<^sup>* (omp_start omp_guest_example running_example) y" "\<forall>c. running y c \<noteq> 40"
      "omp_threads_map (omp y) 40 = Some 2" using paired_example by blast
  have rep: "g2h.reports 4096 y"
    by (rule g2h.run_reports [OF y(1) start_reports [OF omp_guest_example_bound placed_example omp_guest_example_zero]])
  have two: "unat (2 :: u32) < NR_GUEST_IVSHMEM_MSGS 4096" by (simp add: abi_defs)
  from g2h.switch_reports [OF rep, of 40 2] y(2,3) two obtain s where
    s: "handle_switch (g2h_report 4096) (running y 2) 40 2 (omp y) = Some s" "omp_threads_map s = omp_threads_map (omp y)"
      "guest_slot (omp_shm s) 2 = 1" by auto
  have "g2h_safe 4096 (shm (paired_host (omp_shm s)))" by (simp add: g2h_safe_def paired_host_def)
  from phantom_switch_handler_step [OF page_size_ok_4096 this paired_host_inv] y s show ?thesis by metis
qed


theorem phantom_means_omp_witness:
  "\<exists>(y :: guest_state omp_sys) hs'. omp_threads_map (omp y) (running y 2) \<noteq> None \<and>
     phantom_switch_handler 4096 of_nat \<lparr>next_pid = 0, prev_pid = 102, ctx_prev_state = 0\<rparr> (paired_host (omp_shm (omp y))) = Some hs' \<and>
     102 \<in> phantoms hs' (vm_key ''vm0'')"
proof -
  let ?c = "\<lparr>next_pid = 0, prev_pid = 102, ctx_prev_state = 0\<rparr>" and ?v = "\<lparr>vcpu_index = 2, vm_name = vm_key ''vm0'', is_phantom = 0\<rparr>"
  obtain y s hs' where y: "(omp_step (g2h_report 4096))\<^sup>*\<^sup>* (omp_start omp_guest_example running_example) y" "\<forall>c. running y c \<noteq> 40"
      and s: "handle_switch (g2h_report 4096) (running y 2) 40 2 (omp y) = Some s" "guest_slot (omp_shm s) 2 = 1"
      and h: "phantom_switch_handler 4096 of_nat ?c (paired_host (omp_shm s)) = Some hs'"
    using paired_switch_example by blast
  let ?y = "y\<lparr>omp := s, running := (running y)(2 := 40)\<rparr>" and ?h = "paired_host (omp_shm s)"
  have "omp_step (g2h_report 4096) y ?y" by (rule omp_step.switch) (use y(2) s(1) in auto)
  with y(1) have run: "(omp_step (g2h_report 4096))\<^sup>*\<^sup>* (omp_start omp_guest_example running_example) ?y" by auto
  have bnd: "bound_at 4096 3 (omp_shm s)"
    using bound_at_run [OF run, of 3] omp_guest_example_bound by (simp add: omp_start_def)
  have v: "vcpus ?h 102 = Some ?v" "vcpus ?h 0 = None" by (simp_all add: paired_host_def)
  have two: "unat (vcpu_index ?v) < NR_GUEST_IVSHMEM_MSGS 4096" by (simp add: abi_defs)
  have "runs_omp 4096 ?h 102" using runs_omp_slot [OF bnd paired_host_sees v(1) two] s(2) by simp
  then have ph: "102 \<in> phantoms hs' (vm_key ''vm0'')"
    using switch_handler_sets [OF paired_host_inv h, of "vm_key ''vm0''"] v
    by (simp add: departing_def seen_state_def TASK_RUNNING_def members_def)
  have "102 \<notin> phantoms ?h (vm_key ''vm0'')" by (simp add: phantoms_def paired_host_def)
  with phantom_means_omp [where y = "\<lambda>_. ?y" and first = "vm_key ''vm0''", OF omp_guest_example_bound placed_example
      omp_guest_example_zero run _ paired_host_inv h v(1) two _ ph] paired_host_sees
  have "omp_threads_map (omp ?y) (running ?y 2) \<noteq> None" by simp
  moreover have "phantom_switch_handler 4096 of_nat ?c (paired_host (omp_shm (omp ?y))) = Some hs'" using h by simp
  ultimately show ?thesis using ph by blast
qed

subsection \<open>What the host's programs and tools store\<close>

text \<open>
  Changes that leave the names alone: no VM, vCPU or buffer is added or renamed.
\<close>

definition same_names :: "host_state \<Rightarrow> host_state \<Rightarrow> bool" where
  "same_names h h' \<longleftrightarrow> (\<forall>k. map_option qmp_socket (vms h' k) = map_option qmp_socket (vms h k)) \<and>
     (\<forall>t. map_option vm_name (vcpus h' t) = map_option vm_name (vcpus h t)) \<and> map_registry h' = map_registry h"

lemma same_names_refl [simp]: "same_names h h"
  by (simp add: same_names_def)





lemma same_names_vm: "vms h k = Some vm \<Longrightarrow> qmp_socket vm' = qmp_socket vm \<Longrightarrow> same_names h (h\<lparr>vms := (vms h)(k \<mapsto> vm')\<rparr>)"
  by (simp add: same_names_def)











end
