(* ===== verification/Guest_Readers.thy ===== *)
theory Guest_Readers
  imports Pvsched_System
begin

text \<open>
  What programs in the guest read of the shared memory. A process maps the character device and
  reads the slots the host publishes: the path from a timer tick on the host to a load in the
  guest. The test program \<^verbatim>\<open>read_phantom_avg.c\<close> is a process of this kind.
\<close>

subsection \<open>A mapping of the device\<close>

text \<open>
  A virtual address of a mapping lies in the page frames the driver handed to
  \<open>remap_pfn_range\<close>, and the physical address \<open>bar_start + x\<close> is byte \<open>x\<close> of the BAR.
\<close>

definition user_word :: "nat \<Rightarrow> pci_env \<Rightarrow> mem \<Rightarrow> u64 \<Rightarrow> nat \<Rightarrow> u64" where
  "user_word pg env m pfn off = load_le 8 m (unat pfn * pg + off - unat (bar_start env))"

definition bar_placed :: "nat \<Rightarrow> pci_env \<Rightarrow> bool" where
  "bar_placed pg env \<longleftrightarrow> unat (bar_start env) mod pg = 0 \<and> unat (bar_start env) + 2 * pg < 2 ^ 64"

text \<open>The module is bound, and knows where the pages for userspace are.\<close>

definition pages_known :: "nat \<Rightarrow> pci_env \<Rightarrow> guest_state \<Rightarrow> bool" where
  "pages_known pg env gs =
     (case guest_ivshmem gs of None \<Rightarrow> False | Some g \<Rightarrow>
     (case objs gs g of None \<Rightarrow> False | Some d \<Rightarrow>
        gd_metadata_phy_page d = bar_start env \<and> gd_h2g_page_size d = of_nat pg))"

lemma pages_known_bound: "pages_known pg env (bound_state pg env pdev (host_header pg sz) page gs)"
  by (simp add: pages_known_def bound_state_def device_of_def host_header_def GUEST_IVSHMEM_METADATA_OFFSET_def abi_defs)

lemma pages_known_bars [simp]: "pages_known pg env (gs\<lparr>bars := x\<rparr>) = pages_known pg env gs"
  by (auto simp: pages_known_def split: option.splits)

text \<open>Page 0 of the device is the metadata page, page 1 the page of the host.\<close>

lemma mmap_page:
  assumes pg: "page_size_ok pg" and gs: "pages_known pg env gs" and bar: "bar_placed pg env" and k: "k < 2"
  shows "\<exists>pfn. guest_ivshmem_mmap pg None (guest_ivshmem_open gs) (of_nat k) 1 gs = Some (Inr (pfn, of_nat pg)) \<and>
    unat pfn * pg = unat (bar_start env) + k * pg"
proof -
  let ?m = "bar_start env" and ?tot = "of_nat pg + of_nat pg :: u64" and ?off = "of_nat k * of_nat pg :: u64"
  obtain g d where d: "guest_ivshmem gs = Some g" "objs gs g = Some d" "gd_metadata_phy_page d = ?m" "gd_h2g_page_size d = of_nat pg"
    using gs by (auto simp: pages_known_def split: option.splits)
  have p: "4096 \<le> pg" "pg \<le> 65536" using page_size_okD [OF pg] by auto
  have upg: "unat (of_nat pg :: u64) = pg" using p by (simp add: unat_of_nat_u64)
  have "k * pg \<le> 1 * pg" by (rule mult_le_mono1) (use k in simp)
  then have kp: "k * pg \<le> pg" by simp
  have off: "unat ?off = k * pg" using unat_of_nat_u64 [of "k * pg"] kp p by simp
  have tot: "unat ?tot = 2 * pg" using upg p by (simp add: unat_word_ariths)
  have lt: "\<not> ?tot \<le> ?off" unfolding word_le_nat_alt tot off using kp p by simp
  then have "unat (?tot - ?off) = 2 * pg - k * pg" using unat_sub [of ?off ?tot] tot off by simp
  moreover have "pg \<le> 2 * pg - k * pg" using kp by linarith
  ultimately have ge: "\<not> ?tot - ?off < of_nat pg" unfolding word_less_nat_alt upg by linarith
  have "unat (?m + ?off) = (unat ?m + k * pg) mod 2 ^ 64" using unat_word_ariths(1) [of ?m ?off] off by simp
  also have "\<dots> = unat ?m + k * pg" using bar kp unfolding bar_placed_def by (intro mod_less) linarith
  finally have "unat (?m + ?off) = unat ?m + k * pg" .
  then have "unat ((?m + ?off) div of_nat pg) * pg = unat ?m + k * pg"
    using bar p by (simp add: unat_div upg bar_placed_def add_mult_distrib dvd_div_mult_self flip: dvd_eq_mod_eq_0)
  then show ?thesis
    using lt ge d by (intro exI [of _ "(?m + ?off) div of_nat pg"])
      (simp add: guest_ivshmem_mmap_def guest_ivshmem_open_def GUEST_IVSHMEM_METADATA_SIZE_def Let_def)
qed

lemma user_word_page: "unat pfn * pg = unat (bar_start env) + k * pg \<Longrightarrow> user_word pg env m pfn off = load_le 8 m (k * pg + off)"
  by (simp add: user_word_def)

text \<open>A process reads through page 1 what the host wrote, slot by slot.\<close>

lemma mapped_slots:
  assumes "page_size_ok pg" and "pages_known pg env gs" and "bar_placed pg env"
    and "devices r FIRST_VM_MINOR = Some b" and "be_mem b = Some m"
  shows "\<exists>pfn. guest_ivshmem_mmap pg None (guest_ivshmem_open gs) 1 1 gs = Some (Inr (pfn, of_nat pg)) \<and>
    (\<forall>i. user_word pg env m pfn (i * HOST_IVSHMEM_MSG_SIZE) = h2g_slot pg r i)"
proof -
  obtain pfn where pfn: "guest_ivshmem_mmap pg None (guest_ivshmem_open gs) 1 1 gs = Some (Inr (pfn, of_nat pg))"
    "unat pfn * pg = unat (bar_start env) + 1 * pg" using mmap_page [OF assms(1-3), of 1] by auto
  then show ?thesis using user_word_page [OF pfn(2)] assms(4,5) by (simp add: h2g_slot_def HOST_IVSHMEM_H2G_OFFSET_def abi_defs)
qed

subsection \<open>The test program\<close>

text \<open>
  \<^verbatim>\<open>read_phantom_avg.c\<close>: \<open>open_ok\<close> and \<open>remap_ret\<close> are the answers of the kernel; its
  \<open>PAGE_SIZE\<close> of 4096 bytes is one page of the kernel whatever the page size. The result is the
  exit code and the number printed.
\<close>

definition read_phantom_avg_main ::
  "nat \<Rightarrow> pci_env \<Rightarrow> bool \<Rightarrow> errno option \<Rightarrow> nat \<Rightarrow> guest_state \<Rightarrow> (nat \<times> u64 option) option" where
  "read_phantom_avg_main pg env open_ok remap_ret pdev gs =
     (if \<not> open_ok then Some (1, None)
      else (case guest_ivshmem_mmap pg remap_ret (guest_ivshmem_open gs) 0 1 gs of
              None \<Rightarrow> None
            | Some (Inl e) \<Rightarrow> Some (1, None)
            | Some (Inr (pfn, len)) \<Rightarrow>
                Some (0, Some (user_word pg env (bars gs pdev) pfn (H2G_LATEST_SLOT * HOST_IVSHMEM_MSG_SIZE)))))"

lemma load_le_bits: "bit (load_le n m a) k \<Longrightarrow> k < 8 * n"
proof (induction n arbitrary: a k)
  case (Suc n)
  then consider "bit (m a) k" | "8 \<le> k" "bit (load_le n m (Suc a)) (k - 8)" by (auto simp: bit_simps)
  then show ?case
  proof cases
    case 1
    then show ?thesis using bit_imp_le_length by fastforce
  next
    case 2
    then show ?thesis using Suc.IH [of "Suc a" "k - 8"] by simp
  qed
qed simp

lemma load_le_join: "load_le (n + k) m a = load_le n m a OR push_bit (8 * n) (load_le k m (a + n))"
  by (induction n arbitrary: a) (simp_all add: push_bit_or or.assoc add.commute)

text \<open>It maps page 0 and so prints the start of the header, whatever the host publishes.\<close>

lemma read_phantom_avg_prints_magic:
  assumes "page_size_ok pg" and "pages_known pg env gs" and "bar_placed pg env"
    and "load_header n (bars gs pdev) = Some hdr" and "magic hdr = PVSCHED_MAGIC" and "version hdr = PVSCHED_VERSION"
  shows "read_phantom_avg_main pg env True None pdev gs = Some (0, Some 0x14856534D)"
proof -
  let ?m = "bars gs pdev"
  have bound: "take_bit 32 (load_le 4 ?m a) = load_le 4 ?m a" for a
    by (rule bit_eqI) (use load_le_bits in \<open>force simp: bit_simps\<close>)
  have "ucast (load_le 4 ?m 0) = PVSCHED_MAGIC" "ucast (load_le 4 ?m 4) = PVSCHED_VERSION"
    using assms(4-6) by (auto simp: load_header_def split: if_splits)
  then have "ucast (ucast (load_le 4 ?m 0) :: u32) = (0x4856534D :: u64)" "ucast (ucast (load_le 4 ?m 4) :: u32) = (1 :: u64)"
    by (simp_all add: PVSCHED_MAGIC_def PVSCHED_VERSION_def)
  then have w: "load_le 4 ?m 0 = 0x4856534D" "load_le 4 ?m 4 = 1" by (simp_all add: unsigned_ucast_eq bound)
  obtain pfn where pfn: "guest_ivshmem_mmap pg None (guest_ivshmem_open gs) 0 1 gs = Some (Inr (pfn, of_nat pg))"
    "unat pfn * pg = unat (bar_start env) + 0 * pg" using mmap_page [OF assms(1-3), of 0] by auto
  then show ?thesis by (simp add: read_phantom_avg_main_def user_word_page [OF pfn(2)] load_le_join [of 4 4, simplified] w H2G_LATEST_SLOT_def)
qed

subsection \<open>From a tick to a load\<close>

text \<open>
  C4. The average from the host's timer to a process in the guest: the guest module binds to the
  backend the host publishes to, a tick of the host's timer updates the shared memory, and a
  process that then maps the second page of the character device reads, at the latest slot, the
  time of the tick, the idle average and the low 16 bits of the exact time-weighted mean of the
  phantom count over the finished window.
\<close>

theorem guest_maps_published_mean:
  assumes pg: "page_size_ok pg" and b: "devices (shm s) FIRST_VM_MINOR = Some b" "g2h_mapped pg b"
    and guest: "shares b env pdev gs" "iomap_ok env" "guest_grants env" "unbound pdev gs" "bar_placed pg env"
    and vm: "vms s key = Some vm" "map_registry s (collection_key CHR ''1'' key) = Some m1"
      "map_registry s (collection_key CHR ''2'' key) = Some m2"
    and ne: "m1 \<noteq> m2" and win: "window_ok ktime s vm (inner_maps s (finished_map vm m1 m2))"
    and a: "a = inner_maps s (finished_map vm m1 m2)" and n: "n = unat (collecting_index vm)"
    and hi: "\<forall>k<n. max 0 (sint (pc_count (arr_val a k))) \<in> {0..hi}"
    and T: "T = uint (ktime (ktime_calls s)) - uint (pc_timestamp (arr_val a 0))" "0 < T" "hi * T < 2 ^ 64"
  shows "\<exists>gs1 s' b' m pfn. guest_ivshmem_probe pg env pdev gs = Some (None, gs1) \<and>
    callback_fn pg ktime gst key s = Some s' \<and> devices (shm s') FIRST_VM_MINOR = Some b' \<and> be_mem b' = Some m \<and>
    guest_ivshmem_mmap pg None (guest_ivshmem_open gs1) 1 1 (gs1\<lparr>bars := (bars gs1)(pdev := m)\<rparr>) = Some (Inr (pfn, of_nat pg)) \<and>
    (let w = user_word pg env m pfn (H2G_LATEST_SLOT * HOST_IVSHMEM_MSG_SIZE) in
     watermark_ts w = take_bit 32 (ktime (Suc (Suc (ktime_calls s)))) \<and> watermark_idle w = take_bit 16 (idle_of gst) \<and>
     uint (watermark_phantom w) =
       (weighted_area pc_count pc_timestamp (inner_maps s' (finished_map vm m1 m2)) n div T) mod 2 ^ 16)"
proof -
  have r: "h2g_ready pg (shm s)" using b by (simp add: h2g_ready_def g2h_mapped_def)
  obtain s' where s': "callback_fn pg ktime gst key s = Some s'" "h2g_ready pg (shm s')"
    using callback_fn_step [OF pg r, of ktime gst key] by blast
  then obtain b' m where m: "devices (shm s') FIRST_VM_MINOR = Some b'" "be_mem b' = Some m"
    by (auto simp: h2g_ready_def backend_ok_def split: option.splits)
  let ?gs1 = "bound_state pg env pdev (host_header pg (be_size b)) (2 * pg, unat (be_size b) - 2 * pg) gs"
  have probe: "guest_ivshmem_probe pg env pdev gs = Some (None, ?gs1)"
    by (rule probe_registered_state [OF pg guest(2,3,4,1) b(2)])
  have "pages_known pg env (?gs1\<lparr>bars := (bars ?gs1)(pdev := m)\<rparr>)" by (simp add: pages_known_bound)
  from mapped_slots [OF pg this guest(5) m] obtain pfn where pfn:
    "guest_ivshmem_mmap pg None (guest_ivshmem_open ?gs1) 1 1 (?gs1\<lparr>bars := (bars ?gs1)(pdev := m)\<rparr>) = Some (Inr (pfn, of_nat pg))"
    "\<And>i. user_word pg env m pfn (i * HOST_IVSHMEM_MSG_SIZE) = h2g_slot pg (shm s') i"
    by (auto simp: guest_ivshmem_open_def)
  show ?thesis
    using tick_publishes_mean [OF pg r vm ne win a n hi T, of gst] probe s'(1) m pfn by (auto simp: Let_def)
qed

lemma published_backend_example:
  "\<exists>(r :: host_registry) b m. devices r FIRST_VM_MINOR = Some b \<and> g2h_mapped 4096 b \<and> be_mem b = Some m \<and> be_size b = 16384"
proof -
  obtain b m where b: "be_size b = 16384" "be_mem b = Some m" "backend_ok 4096 b" using registered_example by blast
  then show ?thesis
    by (intro exI [of _ "registry_zero\<lparr>devices := [FIRST_VM_MINOR \<mapsto> b]\<rparr>"] exI [of _ b] exI [of _ m]) (simp add: g2h_mapped_def)
qed

theorem guest_maps_published_mean_witness:
  "\<exists>s s' gs gs1 m pfn. guest_ivshmem_probe 4096 penv_example 3 gs = Some (None, gs1) \<and>
     callback_fn 4096 (\<lambda>k. 45 + of_nat k) gs_example (vm_key ''vm0'') s = Some s' \<and>
     guest_ivshmem_mmap 4096 None (guest_ivshmem_open gs1) 1 1 (gs1\<lparr>bars := (bars gs1)(3 := m)\<rparr>) = Some (Inr (pfn, 4096)) \<and>
     watermark_ts (user_word 4096 penv_example m pfn 0) = 47"
proof -
  obtain r :: host_registry and b m where r: "devices r FIRST_VM_MINOR = Some b" "g2h_mapped 4096 b" "be_mem b = Some m" "be_size b = 16384"
    using published_backend_example by blast
  obtain s :: host_state and vm where s: "shm s = r" and b: "vms s (vm_key ''vm0'') = Some vm"
    "map_registry s (collection_key CHR ''1'' (vm_key ''vm0'')) = Some 7"
    "map_registry s (collection_key CHR ''2'' (vm_key ''vm0'')) = Some 8"
    and f: "is_collectx_in_buff_1 vm = 1" "vm_phantom_count vm = 1" "collection_buff_1_index vm = 1" "ktime_calls s = 0"
    "inner_maps s = (\<lambda>_. \<lparr>arr_max = 100, arr_val = (\<lambda>_. \<lparr>pc_count = 1, pc_timestamp = 5\<rparr>)\<rparr>)"
    using callback_fn_example_at [of r] by blast
  have sh: "shares b penv_example 3 (guest_example m)" using r by (simp add: shares_def penv_example_def guest_example_def)
  have bar: "bar_placed 4096 penv_example" by (simp add: bar_placed_def penv_example_def)
  have ne: "(7 :: nat) \<noteq> 8" by simp
  have win: "window_ok (\<lambda>k. 45 + of_nat k) s vm (inner_maps s (finished_map vm 7 8))"
    by (simp add: window_ok_def collecting_index_def f)
  have hi: "\<forall>k<unat (collecting_index vm).
      max 0 (sint (pc_count (arr_val (inner_maps s (finished_map vm 7 8)) k))) \<in> {0..1}"
    by (simp add: f)
  from guest_maps_published_mean [OF page_size_ok_4096 r(1) [folded s] r(2) sh iomap_ok_example grants_example unbound_example(1) bar
      b ne win refl refl hi refl, of gs_example]
  show ?thesis by (auto simp: f Let_def H2G_LATEST_SLOT_def) blast
qed

end
