(* ===== verification/Loaders.thy ===== *)
theory Loaders
  imports Bpf_Maps
begin

text \<open>
  The programs that load the eBPF programs and attach them: \<^verbatim>\<open>create_maps.loader.c\<close>,
  \<^verbatim>\<open>timer.loader.c\<close>, \<^verbatim>\<open>global_running_tracker.loader.c\<close> and
  \<^verbatim>\<open>h2g_msg_timer_loader.c\<close> on the host, \<^verbatim>\<open>omp_thread_reg.loader.c\<close> in the guest. They
  meet in the bpf file system: one loader pins its maps there, another reuses them.

  Each call of libbpf or of the kernel may fail: \<open>ans n\<close> is the answer of the n-th call, \<open>None\<close>
  for success. A call that fails for a reason the state shows, such as a path that is missing or
  taken, fails whatever \<open>ans\<close> says.
\<close>

named_theorems lib_defs \<open>calls of libbpf\<close>

subsection \<open>The kernel as the loaders see it\<close>

text \<open>
  Maps and links are numbered. A link ties a program to its tracepoint; it goes when no process
  holds it and no path of the bpf file system names it. \<open>state_of\<close> is entry 0 of the map of
  the idle tracker, \<open>skels\<close> and \<open>obj_fds\<close> count the skeletons and descriptors that are open.
\<close>

datatype bpf_obj = Map_obj nat | Link_obj nat

type_synonym skeleton = "string \<Rightarrow> nat option"

record bpf_program =
  prog_name :: string
  prog_maps :: skeleton

record bpf_world =
  bpffs :: "string \<Rightarrow> bpf_obj option"
  link_of :: "nat \<Rightarrow> bpf_program option"
  held :: "nat set"
  state_of :: "nat \<Rightarrow> global_runnx_tracker_state"
  next_obj :: nat
  skels :: int
  obj_fds :: int
  lib_calls :: nat

type_synonym answers = "nat \<Rightarrow> errno option"

definition attached :: "bpf_world \<Rightarrow> nat \<Rightarrow> bool" where
  "attached w l \<longleftrightarrow> link_of w l \<noteq> None \<and> (l \<in> held w \<or> (\<exists>path. bpffs w path = Some (Link_obj l)))"

definition lib :: "answers \<Rightarrow> bpf_world \<Rightarrow> errno option \<times> bpf_world" where
  [lib_defs]: "lib ans w = (ans (lib_calls w), w\<lparr>lib_calls := Suc (lib_calls w)\<rparr>)"

definition skel_open :: "answers \<Rightarrow> bpf_world \<Rightarrow> errno option \<times> bpf_world" where
  [lib_defs]: "skel_open ans w = (let (r, w1) = lib ans w in (r, if r = None then w1\<lparr>skels := skels w1 + 1\<rparr> else w1))"

definition skel_destroy :: "bpf_world \<Rightarrow> bpf_world" where
  [lib_defs]: "skel_destroy w = w\<lparr>skels := skels w - 1\<rparr>"

definition new_fd :: "answers \<Rightarrow> bpf_world \<Rightarrow> errno option \<times> bpf_world" where
  [lib_defs]: "new_fd ans w = (let (r, w1) = lib ans w in (r, if r = None then w1\<lparr>obj_fds := obj_fds w1 + 1\<rparr> else w1))"

definition close_fd :: "bpf_world \<Rightarrow> bpf_world" where
  [lib_defs]: "close_fd w = w\<lparr>obj_fds := obj_fds w - 1\<rparr>"

definition bpf_obj_get :: "answers \<Rightarrow> string \<Rightarrow> bpf_world \<Rightarrow> (errno + bpf_obj) \<times> bpf_world" where
  [lib_defs]: "bpf_obj_get ans path w =
     (let (r, w1) = lib ans w in
      case bpffs w path of None \<Rightarrow> (Inl ENOENT, w1)
      | Some ob \<Rightarrow> (case r of None \<Rightarrow> (Inr ob, w1\<lparr>obj_fds := obj_fds w1 + 1\<rparr>) | Some e \<Rightarrow> (Inl e, w1)))"

text \<open>\<open>bpf_map__reuse_fd\<close> duplicates the descriptor; the skeleton owns the duplicate.\<close>

definition bpf_map_reuse_fd ::
  "answers \<Rightarrow> string \<Rightarrow> bpf_obj \<Rightarrow> skeleton \<Rightarrow> bpf_world \<Rightarrow> errno option \<times> skeleton \<times> bpf_world" where
  [lib_defs]: "bpf_map_reuse_fd ans name ob sk w =
     (let (r, w1) = lib ans w in
      case ob of Link_obj _ \<Rightarrow> (Some EINVAL, sk, w1)
      | Map_obj m \<Rightarrow> (r, if r = None then sk(name \<mapsto> m) else sk, w1))"

text \<open>Loading creates, all zero, the maps of the skeleton that were not reused.\<close>

definition tracker_state_zero :: global_runnx_tracker_state where
  "tracker_state_zero = \<lparr>global_runnx_count = 0, gs_buff_1_index = 0, gs_buff_2_index = 0,
     gs_is_collectx_in_buff_1 = 0, nb_cpus = 0, last_idle_avg = 0, global_runnx_avg = 0\<rparr>"

fun create_missing :: "string list \<Rightarrow> skeleton \<Rightarrow> bpf_world \<Rightarrow> skeleton \<times> bpf_world" where
  "create_missing [] sk w = (sk, w)"
| "create_missing (name # names) sk w =
     (if sk name = None
      then create_missing names (sk(name \<mapsto> next_obj w))
             (w\<lparr>next_obj := Suc (next_obj w), state_of := (state_of w)(next_obj w := tracker_state_zero)\<rparr>)
      else create_missing names sk w)"

definition skel_load :: "answers \<Rightarrow> string list \<Rightarrow> skeleton \<Rightarrow> bpf_world \<Rightarrow> errno option \<times> skeleton \<times> bpf_world" where
  [lib_defs]: "skel_load ans names sk w =
     (let (r, w1) = lib ans w in if r \<noteq> None then (r, sk, w1) else (None, create_missing names sk w1))"

definition bpf_program_attach :: "answers \<Rightarrow> string \<Rightarrow> skeleton \<Rightarrow> bpf_world \<Rightarrow> (errno + nat) \<times> bpf_world" where
  [lib_defs]: "bpf_program_attach ans prog sk w =
     (let (r, w1) = lib ans w; l = next_obj w1 in
      case r of Some e \<Rightarrow> (Inl e, w1)
      | None \<Rightarrow> (Inr l, w1\<lparr>next_obj := Suc l, link_of := (link_of w1)(l \<mapsto> \<lparr>prog_name = prog, prog_maps = sk\<rparr>),
                   held := insert l (held w1)\<rparr>))"

definition bpf_link_destroy :: "nat \<Rightarrow> bpf_world \<Rightarrow> bpf_world" where
  [lib_defs]: "bpf_link_destroy l w = w\<lparr>held := held w - {l}\<rparr>"

definition bpf_pin :: "answers \<Rightarrow> bpf_obj \<Rightarrow> string \<Rightarrow> bpf_world \<Rightarrow> errno option \<times> bpf_world" where
  [lib_defs]: "bpf_pin ans ob path w =
     (let (r, w1) = lib ans w in
      if bpffs w path \<noteq> None then (Some EEXIST, w1)
      else (r, if r = None then w1\<lparr>bpffs := (bpffs w1)(path \<mapsto> ob)\<rparr> else w1))"

text \<open>\<open>bpf_map__fd\<close>; a map that was not created has no descriptor (0 stands for it).\<close>

definition bpf_map_fd :: "skeleton \<Rightarrow> string \<Rightarrow> nat" where
  "bpf_map_fd sk name = (case sk name of None \<Rightarrow> 0 | Some m \<Rightarrow> m)"

subsection \<open>The loaders of the host\<close>

definition PIN_PATH_VMS :: string where
  "PIN_PATH_VMS = ''/sys/fs/bpf/vms''"

definition PIN_PATH_VCPUS :: string where
  "PIN_PATH_VCPUS = ''/sys/fs/bpf/vcpus''"

definition PIN_PATH_REGISTRY :: string where
  "PIN_PATH_REGISTRY = ''/sys/fs/bpf/map_registry''"

definition PIN_PATH_GLOBAL_TRACKER_STATE :: string where
  "PIN_PATH_GLOBAL_TRACKER_STATE = ''/sys/fs/bpf/global_tracker_state''"

definition PIN_PATH_LINK :: string where
  "PIN_PATH_LINK = ''/sys/fs/bpf/links/sched_switch_link''"

text \<open>
  Reusing a pinned map: whether a descriptor was obtained, the answer of \<open>bpf_map__reuse_fd\<close>, the
  skeleton.
\<close>

definition reuse_pinned ::
  "answers \<Rightarrow> string \<Rightarrow> string \<Rightarrow> skeleton \<Rightarrow> bpf_world \<Rightarrow> bool \<times> errno option \<times> skeleton \<times> bpf_world" where
  "reuse_pinned ans path name sk w =
     (case bpf_obj_get ans path w of (Inl _, w1) \<Rightarrow> (False, None, sk, w1)
      | (Inr ob, w1) \<Rightarrow> (True, bpf_map_reuse_fd ans name ob sk w1))"

definition pin_unless :: "answers \<Rightarrow> bool \<Rightarrow> bpf_obj \<Rightarrow> string \<Rightarrow> bpf_world \<Rightarrow> errno option \<times> bpf_world" where
  "pin_unless ans fd ob path w = (if fd then (None, w) else bpf_pin ans ob path w)"

definition cleanup_skel :: "nat \<Rightarrow> bpf_world \<Rightarrow> nat \<times> bpf_world" where
  "cleanup_skel ret w = (ret, skel_destroy w)"

definition cleanup_inner :: "nat \<Rightarrow> bpf_world \<Rightarrow> nat \<times> bpf_world" where
  "cleanup_inner ret w = cleanup_skel ret (close_fd w)"

definition cleanup_link :: "nat \<Rightarrow> nat \<Rightarrow> bpf_world \<Rightarrow> nat \<times> bpf_world" where
  "cleanup_link ret l w = cleanup_inner ret (bpf_link_destroy l w)"

text \<open>From the attached link on: pin it, and the maps that were not already pinned.\<close>

definition create_maps_pin :: "answers \<Rightarrow> bool \<Rightarrow> bool \<Rightarrow> bool \<Rightarrow> nat \<Rightarrow> skeleton \<Rightarrow> bpf_world \<Rightarrow> nat \<times> bpf_world" where
  "create_maps_pin ans vms_fd vcpus_fd registry_fd l sk w =
     (let (r0, w0) = bpf_pin ans (Link_obj l) PIN_PATH_LINK w in
      if r0 \<noteq> None then cleanup_link 1 l w0 else
      let (r1, w1) = pin_unless ans vms_fd (Map_obj (bpf_map_fd sk ''vms'')) PIN_PATH_VMS w0 in
      if r1 \<noteq> None then cleanup_link 1 l w1 else
      let (r2, w2) = pin_unless ans vcpus_fd (Map_obj (bpf_map_fd sk ''vcpus'')) PIN_PATH_VCPUS w1 in
      if r2 \<noteq> None then cleanup_link 1 l w2 else
      let (r3, w3) = pin_unless ans registry_fd (Map_obj (bpf_map_fd sk ''map_registry'')) PIN_PATH_REGISTRY w2 in
      if r3 \<noteq> None then cleanup_link 1 l w3 else
      cleanup_link 0 l w3)"

definition create_maps_loader_main :: "answers \<Rightarrow> bpf_world \<Rightarrow> nat \<times> bpf_world" where
  "create_maps_loader_main ans w =
     (let (r0, w0) = skel_open ans w in
      if r0 \<noteq> None then (1, w0) else
      let (r1, w1) = new_fd ans w0 in
      if r1 \<noteq> None then cleanup_skel 1 w1 else
      let (r2, w2) = lib ans w1 in
      if r2 \<noteq> None then cleanup_inner 1 w2 else
      let (vms_fd, r3, sk3, w3) = reuse_pinned ans PIN_PATH_VMS ''vms'' (\<lambda>_. None) w2 in
      if r3 \<noteq> None then cleanup_inner 1 w3 else
      let (vcpus_fd, r4, sk4, w4) = reuse_pinned ans PIN_PATH_VCPUS ''vcpus'' sk3 w3 in
      if r4 \<noteq> None then cleanup_inner 1 w4 else
      let (registry_fd, r5, sk5, w5) = reuse_pinned ans PIN_PATH_REGISTRY ''map_registry'' sk4 w4 in
      if r5 \<noteq> None then cleanup_inner 1 w5 else
      let (r6, sk, w6) = skel_load ans [''vms'', ''vcpus'', ''map_registry''] sk5 w5 in
      if r6 \<noteq> None then cleanup_inner 1 w6 else
      case bpf_program_attach ans ''phantom_switch_handler'' sk w6 of
        (Inl _, w7) \<Rightarrow> cleanup_inner 1 w7
      | (Inr l, w7) \<Rightarrow> create_maps_pin ans vms_fd vcpus_fd registry_fd l sk w7)"

text \<open>
  The next two loaders stay: \<open>Exited\<close> carries the exit code, \<open>Serving\<close> the links the process
  holds while it waits for a signal.
\<close>

datatype loader_outcome = Exited nat | Serving "nat list"

definition timer_loader_main :: "answers \<Rightarrow> bpf_world \<Rightarrow> loader_outcome \<times> bpf_world" where
  "timer_loader_main ans w =
     (let (r0, w0) = skel_open ans w in
      if r0 \<noteq> None then (Exited 1, w0) else
      let (_, r1, sk1, w1) = reuse_pinned ans PIN_PATH_VMS ''vms'' (\<lambda>_. None) w0 in
      if r1 \<noteq> None then (Exited 1, skel_destroy w1) else
      let (_, r2, sk2, w2) = reuse_pinned ans PIN_PATH_VCPUS ''vcpus'' sk1 w1 in
      if r2 \<noteq> None then (Exited 1, skel_destroy w2) else
      let (_, r3, sk3, w3) = reuse_pinned ans PIN_PATH_REGISTRY ''map_registry'' sk2 w2 in
      if r3 \<noteq> None then (Exited 1, skel_destroy w3) else
      let (_, r4, sk4, w4) = reuse_pinned ans PIN_PATH_GLOBAL_TRACKER_STATE ''global_tracker_state'' sk3 w3 in
      if r4 \<noteq> None then (Exited 1, skel_destroy w4) else
      let (r5, sk, w5) =
        skel_load ans [''timer_map'', ''global_tracker_state'', ''vms'', ''vcpus'', ''map_registry''] sk4 w4 in
      if r5 \<noteq> None then (Exited 1, skel_destroy w5) else
      case bpf_program_attach ans ''phantom_timer_handler'' sk w5 of
        (Inl _, w6) \<Rightarrow> (Exited 1, skel_destroy w6)
      | (Inr prog_link, w6) \<Rightarrow> (Serving [prog_link], w6))"

text \<open>The signal handlers.\<close>

definition timer_loader_cleanup :: "nat \<Rightarrow> bpf_world \<Rightarrow> nat \<times> bpf_world" where
  "timer_loader_cleanup prog_link w = (0, skel_destroy (bpf_link_destroy prog_link w))"

text \<open>
  \<open>global_running_tracker_bpf__attach\<close> attaches both programs of the skeleton, which owns the
  links; \<open>nb\<close> is the result of \<open>libbpf_num_possible_cpus\<close>.
\<close>

definition skel_attach :: "answers \<Rightarrow> string \<Rightarrow> string \<Rightarrow> skeleton \<Rightarrow> bpf_world \<Rightarrow> (errno + nat list) \<times> bpf_world" where
  "skel_attach ans p q sk w =
     (case bpf_program_attach ans p sk w of
        (Inl e, w1) \<Rightarrow> (Inl e, w1)
      | (Inr l, w1) \<Rightarrow>
          (case bpf_program_attach ans q sk w1 of
             (Inl e, w2) \<Rightarrow> (Inl e, bpf_link_destroy l w2)
           | (Inr m, w2) \<Rightarrow> (Inr [l, m], w2)))"

definition destroy_tracker :: "nat list \<Rightarrow> bpf_world \<Rightarrow> bpf_world" where
  "destroy_tracker ls w = skel_destroy (fold bpf_link_destroy ls w)"

text \<open>A state map that was not pinned gets its first entry.\<close>

definition init_tracker_state :: "answers \<Rightarrow> bool \<Rightarrow> nat \<Rightarrow> int \<Rightarrow> bpf_world \<Rightarrow> errno option \<times> bpf_world" where
  "init_tracker_state ans pinned_state_fd state_fd nb w =
     (if pinned_state_fd then (None, w)
      else
        let (r, w1) = lib ans w in
        (r, if r = None then w1\<lparr>state_of := (state_of w1)(state_fd := tracker_state_zero\<lparr>nb_cpus := of_int nb\<rparr>)\<rparr> else w1))"

definition global_running_tracker_loader_main :: "answers \<Rightarrow> int \<Rightarrow> bpf_world \<Rightarrow> loader_outcome \<times> bpf_world" where
  "global_running_tracker_loader_main ans nb w =
     (let (r0, w0) = skel_open ans w in
      if r0 \<noteq> None then (Exited 1, w0) else
      let (pinned_state_fd, r1, sk1, w1) =
        reuse_pinned ans PIN_PATH_GLOBAL_TRACKER_STATE ''global_tracker_state'' (\<lambda>_. None) w0 in
      if r1 \<noteq> None then (Exited 1, destroy_tracker [] w1) else
      let (r2, sk, w2) =
        skel_load ans [''collectx_buff_1'', ''collectx_buff_2'', ''global_tracker_state'', ''timer_map''] sk1 w1 in
      if r2 \<noteq> None then (Exited 1, destroy_tracker [] w2) else
      if nb < 0 then (Exited 1, destroy_tracker [] w2) else
      let state_fd = bpf_map_fd sk ''global_tracker_state'';
          (r3, w3) = init_tracker_state ans pinned_state_fd state_fd nb w2 in
      if r3 \<noteq> None then (Exited 1, destroy_tracker [] w3) else
      case skel_attach ans ''global_running_tracker_switch_handler'' ''global_running_tracker_timer_init'' sk w3 of
        (Inl _, w4) \<Rightarrow> (Exited 1, destroy_tracker [] w4)
      | (Inr ls, w4) \<Rightarrow>
      let (r5, w5) = pin_unless ans pinned_state_fd (Map_obj state_fd) PIN_PATH_GLOBAL_TRACKER_STATE w4 in
      if r5 \<noteq> None then (Exited 1, destroy_tracker ls w5) else
      (Serving ls, w5))"

definition tracker_loader_cleanup :: "nat list \<Rightarrow> bpf_world \<Rightarrow> nat \<times> bpf_world" where
  "tracker_loader_cleanup ls w = (0, destroy_tracker ls w)"

subsection \<open>Loaders that wait for a signal and report an error code\<close>

text \<open>
  \<open>while (!exiting)\<close>: \<open>exiting n\<close> is what the n-th test of the flag reads. A process that is
  never signalled does not return.
\<close>

partial_function (option) wait_exiting :: "(nat \<Rightarrow> bool) \<Rightarrow> nat \<Rightarrow> nat option" where
  "wait_exiting exiting n = (if exiting n then Some n else wait_exiting exiting (Suc n))"

text \<open>The label \<open>cleanup\<close>: the links that are not NULL, in order, then the object; \<open>err ? 1 : 0\<close>.\<close>

definition loader_cleanup :: "nat list \<Rightarrow> errno option \<Rightarrow> bpf_world \<Rightarrow> nat \<times> bpf_world" where
  "loader_cleanup ls err w = (if err = None then 0 else 1, skel_destroy (fold bpf_link_destroy ls w))"

definition h2g_msg_timer_loader_main :: "answers \<Rightarrow> (nat \<Rightarrow> bool) \<Rightarrow> bpf_world \<Rightarrow> (nat \<times> bpf_world) option" where
  "h2g_msg_timer_loader_main ans exiting w =
     (let (err0, w0) = skel_open ans w in
      if err0 \<noteq> None then Some (1, w0) else
      let (err, sk, w1) = skel_load ans [''h2g_msg_timer_map''] (\<lambda>_. None) w0 in
      if err \<noteq> None then Some (loader_cleanup [] err w1) else
      let (timer_map_fd, w2) = lib ans w1 in
      if timer_map_fd \<noteq> None then Some (loader_cleanup [] err w2) else
      let (prog, w3) = lib ans w2 in
      if prog \<noteq> None then Some (loader_cleanup [] err w3) else
      case bpf_program_attach ans ''h2g_msg_timer_init'' sk w3 of
        (Inl e, w4) \<Rightarrow> Some (loader_cleanup [] (Some e) w4)
      | (Inr l, w4) \<Rightarrow> map_option (\<lambda>_. loader_cleanup [l] None w4) (wait_exiting exiting 0))"

definition PIN_OMP_THREADS_MAP :: string where
  "PIN_OMP_THREADS_MAP = ''/sys/fs/bpf/omp_threads_map''"

definition PIN_MASTER_LINK :: string where
  "PIN_MASTER_LINK = ''/sys/fs/bpf/links/master''"

definition PIN_SWITCH_LINK :: string where
  "PIN_SWITCH_LINK = ''/sys/fs/bpf/links/sched_switch''"

definition PIN_EXIT_LINK :: string where
  "PIN_EXIT_LINK = ''/sys/fs/bpf/links/sched_process_exit''"

definition PIN_EXEC_LINK :: string where
  "PIN_EXEC_LINK = ''/sys/fs/bpf/links/sched_process_exec''"

definition omp_thread_reg_loader_main :: "answers \<Rightarrow> (nat \<Rightarrow> bool) \<Rightarrow> bpf_world \<Rightarrow> (nat \<times> bpf_world) option" where
  "omp_thread_reg_loader_main ans exiting w =
     (let (r0, w0) = skel_open ans w in
      if r0 \<noteq> None then Some (1, w0) else
      let (r1, sk, w1) = skel_load ans [''omp_threads_map''] (\<lambda>_. None) w0 in
      if r1 \<noteq> None then Some (1, skel_destroy w1) else
      case bpf_program_attach ans ''capture_omp_master_thread'' sk w1 of
        (Inl e, w2) \<Rightarrow> Some (loader_cleanup [] (Some e) w2)
      | (Inr link, w2) \<Rightarrow>
      case bpf_program_attach ans ''capture_omp_worker_threads'' sk w2 of
        (Inl e, w3) \<Rightarrow> Some (loader_cleanup [link] (Some e) w3)
      | (Inr worker_link, w3) \<Rightarrow>
      let (r4, w4) = bpf_pin ans (Link_obj link) PIN_MASTER_LINK w3 in
      if r4 \<noteq> None then Some (loader_cleanup [worker_link, link] None w4) else
      let (r5, w5) = bpf_pin ans (Map_obj (bpf_map_fd sk ''omp_threads_map'')) PIN_OMP_THREADS_MAP w4 in
      if r5 \<noteq> None then Some (loader_cleanup [worker_link, link] None w5) else
      case bpf_program_attach ans ''handle_switch'' sk w5 of
        (Inl e, w6) \<Rightarrow> Some (loader_cleanup [worker_link, link] (Some e) w6)
      | (Inr switch_link, w6) \<Rightarrow>
      let (r7, w7) = bpf_pin ans (Link_obj switch_link) PIN_SWITCH_LINK w6 in
      if r7 \<noteq> None then Some (loader_cleanup [switch_link, worker_link, link] None w7) else
      case bpf_program_attach ans ''remove_exited_omp_thread'' sk w7 of
        (Inl e, w8) \<Rightarrow> Some (loader_cleanup [switch_link, worker_link, link] (Some e) w8)
      | (Inr exit_link, w8) \<Rightarrow>
      let (r9, w9) = bpf_pin ans (Link_obj exit_link) PIN_EXIT_LINK w8 in
      if r9 \<noteq> None then Some (loader_cleanup [exit_link, switch_link, worker_link, link] None w9) else
      case bpf_program_attach ans ''remove_execed_omp_thread'' sk w9 of
        (Inl e, w10) \<Rightarrow> Some (loader_cleanup [exit_link, switch_link, worker_link, link] (Some e) w10)
      | (Inr exec_link, w10) \<Rightarrow>
      let (r11, w11) = bpf_pin ans (Link_obj exec_link) PIN_EXEC_LINK w10 in
      if r11 \<noteq> None then Some (loader_cleanup [exec_link, exit_link, switch_link, worker_link, link] None w11) else
      map_option (\<lambda>_. loader_cleanup [exec_link, exit_link, switch_link, worker_link, link] None w11) (wait_exiting exiting 0))"

subsection \<open>What the calls keep\<close>

text \<open>Paths that are pinned stay, and so do the programs of the links that exist.\<close>

definition keeps :: "bpf_world \<Rightarrow> bpf_world \<Rightarrow> bool" where
  "keeps w w' \<longleftrightarrow> bpffs w \<subseteq>\<^sub>m bpffs w' \<and> next_obj w \<le> next_obj w' \<and> (\<forall>l<next_obj w. link_of w' l = link_of w l)"

text \<open>
  Part of a loader ran: it has \<open>k\<close> more skeletons open and the new links \<open>L\<close>, and the contents
  of the maps that existed are as they were.
\<close>

definition ran_part :: "int \<Rightarrow> nat set \<Rightarrow> bpf_world \<Rightarrow> bpf_world \<Rightarrow> bool" where
  "ran_part k L w w' \<longleftrightarrow> keeps w w' \<and> skels w' = skels w + k \<and> held w' = held w \<union> L \<and>
     (\<forall>l \<in> L. next_obj w \<le> l) \<and> (\<forall>i<next_obj w. state_of w' i = state_of w i)"

definition world_ok :: "bpf_world \<Rightarrow> bool" where
  "world_ok w \<longleftrightarrow> (\<forall>l \<in> held w. l < next_obj w)"

lemma keeps_refl [simp]: "keeps w w"
  by (simp add: keeps_def)

lemma keeps_trans: "keeps w w1 \<Longrightarrow> keeps w1 w2 \<Longrightarrow> keeps w w2"
  by (auto simp: keeps_def intro: map_le_trans)

lemma keeps_pinned: "keeps w w' \<Longrightarrow> bpffs w path = Some ob \<Longrightarrow> bpffs w' path = Some ob"
  by (metis keeps_def map_le_def domI)

lemma keeps_link: "keeps w w' \<Longrightarrow> l < next_obj w \<Longrightarrow> link_of w' l = link_of w l"
  by (simp add: keeps_def)

lemma ran_part_keeps: "ran_part k L w w' \<Longrightarrow> keeps w w'"
  by (simp add: ran_part_def)

lemma ran_part_refl [simp]: "ran_part 0 {} w w"
  by (simp add: ran_part_def)

lemma ran_part_trans:
  assumes "ran_part j L w w1" and "ran_part k M w1 w2" and "j + k = i" and "L \<union> M = N"
  shows "ran_part i N w w2"
proof -
  have "keeps w w2" using assms(1,2) keeps_trans by (auto simp: ran_part_def)
  moreover have "next_obj w \<le> next_obj w1" using assms(1) by (simp add: ran_part_def keeps_def)
  ultimately show ?thesis using assms by (fastforce simp: ran_part_def)
qed

text \<open>The same with the number of skeletons and the links left to be computed.\<close>

lemmas ran_part_seq = ran_part_trans [OF _ _ refl refl]

lemma ran_seq: "ran_part 1 {} w u \<Longrightarrow> ran_part 0 L u v \<Longrightarrow> ran_part 1 L w v"
  using ran_part_seq [of 1 "{}" w u 0 L v] by simp

lemma ran_lib: "lib ans w = (r, w1) \<Longrightarrow> ran_part 0 {} w w1 \<and> bpffs w1 = bpffs w"
  by (auto simp: lib_defs ran_part_def keeps_def)

lemma ran_open: "skel_open ans w = (r, w1) \<Longrightarrow> ran_part (if r = None then 1 else 0) {} w w1 \<and> bpffs w1 = bpffs w"
  by (auto simp: lib_defs ran_part_def keeps_def)

lemma ran_new_fd: "new_fd ans w = (r, w1) \<Longrightarrow> ran_part 0 {} w w1 \<and> bpffs w1 = bpffs w"
  by (auto simp: lib_defs ran_part_def keeps_def split: if_splits)

lemma ran_close: "ran_part 0 {} w (close_fd w) \<and> bpffs (close_fd w) = bpffs w"
  by (simp add: lib_defs ran_part_def keeps_def)

lemma ran_destroy: "ran_part k L w w' \<Longrightarrow> ran_part (k - 1) L w (skel_destroy w')"
  by (simp add: lib_defs ran_part_def keeps_def)

lemma ran_unlink:
  assumes "world_ok w" and "ran_part k L w w'" and "l \<in> L"
  shows "ran_part k (L - {l}) w (bpf_link_destroy l w')"
proof -
  have "l \<notin> held w" using assms by (force simp: ran_part_def world_ok_def)
  with assms(2) show ?thesis by (auto simp: lib_defs ran_part_def keeps_def)
qed

lemma reuse_pinned_result:
  assumes "reuse_pinned ans path name sk w = (fd, r, sk', w')"
  shows "ran_part 0 {} w w' \<and> bpffs w' = bpffs w \<and> (\<forall>n. n \<noteq> name \<longrightarrow> sk' n = sk n) \<and>
    (if fd then r = None \<longrightarrow> (\<exists>m. bpffs w path = Some (Map_obj m) \<and> sk' name = Some m) else r = None \<and> sk' = sk)"
  using assms
  by (auto simp: reuse_pinned_def lib_defs ran_part_def keeps_def split: option.splits bpf_obj.splits if_splits)

lemma create_missing_result:
  "create_missing names sk w = (sk', w') \<Longrightarrow> ran_part 0 {} w w' \<and> bpffs w' = bpffs w \<and> (\<forall>n. sk n \<noteq> None \<longrightarrow> sk' n = sk n) \<and>
     (\<forall>n \<in> set names. sk' n \<noteq> None)"
proof (induction names arbitrary: sk w)
  case Nil
  then show ?case by simp
next
  case (Cons name names)
  show ?case
  proof (cases "sk name")
    case (Some m)
    with Cons.prems have "create_missing names sk w = (sk', w')" by simp
    from Cons.IH [OF this] Some show ?thesis by auto
  next
    case None
    let ?w = "w\<lparr>next_obj := Suc (next_obj w), state_of := (state_of w)(next_obj w := tracker_state_zero)\<rparr>"
    have 1: "ran_part 0 {} w ?w" by (simp add: ran_part_def keeps_def)
    from None Cons.prems have "create_missing names (sk(name \<mapsto> next_obj w)) ?w = (sk', w')" by simp
    note ih = Cons.IH [OF this]
    have "ran_part 0 {} w w'" using ran_part_seq [OF 1, of 0 "{}" w'] ih by simp
    with ih None show ?thesis by auto
  qed
qed

lemma skel_load_result:
  assumes "skel_load ans names sk w = (r, sk', w')"
  shows "ran_part 0 {} w w' \<and> bpffs w' = bpffs w \<and>
    (r = None \<longrightarrow> (\<forall>n. sk n \<noteq> None \<longrightarrow> sk' n = sk n) \<and> (\<forall>n \<in> set names. sk' n \<noteq> None))"
proof -
  obtain r0 w1 where l: "lib ans w = (r0, w1)" by fastforce
  show ?thesis
  proof (cases "r0 = None")
    case False
    with assms l ran_lib [OF l] show ?thesis by (auto simp: skel_load_def)
  next
    case True
    with assms l have "create_missing names sk w1 = (sk', w')" "r = None" by (auto simp: skel_load_def)
    with create_missing_result [OF this(1)] ran_part_seq [OF conjunct1 [OF ran_lib [OF l]], of 0 "{}" w'] ran_lib [OF l]
    show ?thesis by simp
  qed
qed

lemma attach_result:
  assumes "bpf_program_attach ans prog sk w = (r, w')"
  shows "bpffs w' = bpffs w \<and>
    (case r of Inl e \<Rightarrow> ran_part 0 {} w w'
     | Inr l \<Rightarrow> ran_part 0 {l} w w' \<and> l < next_obj w' \<and> link_of w' l = Some \<lparr>prog_name = prog, prog_maps = sk\<rparr>)"
  using assms by (auto simp: lib_defs Let_def ran_part_def keeps_def split: option.splits)

lemma pin_result:
  assumes "bpf_pin ans ob path w = (r, w')"
  shows "ran_part 0 {} w w' \<and> bpffs w' = (if r = None then (bpffs w)(path \<mapsto> ob) else bpffs w) \<and> (r = None \<longrightarrow> bpffs w path = None)"
  using assms by (auto simp: lib_defs ran_part_def keeps_def map_le_def split: if_splits)

lemma pin_unless_result:
  assumes "pin_unless ans fd ob path w = (r, w')"
  shows "ran_part 0 {} w w' \<and>
    (r = None \<longrightarrow> (if fd then bpffs w' = bpffs w else bpffs w' = (bpffs w)(path \<mapsto> ob) \<and> bpffs w path = None))"
  using assms pin_result [of ans ob path w r w'] by (auto simp: pin_unless_def split: if_splits)

subsection \<open>The loader of the switch handler\<close>

lemma ran_cleanup_skel: "ran_part 1 L w w' \<Longrightarrow> ran_part 0 L w (snd (cleanup_skel c w'))"
  using ran_destroy [of 1] by (simp add: cleanup_skel_def)

lemma ran_cleanup_inner: "ran_part 1 L w w' \<Longrightarrow> ran_part 0 L w (snd (cleanup_inner c w'))"
  unfolding cleanup_inner_def
  by (rule ran_cleanup_skel, rule ran_part_trans [OF _ conjunct1 [OF ran_close]]) simp_all

lemma ran_cleanup_link: "world_ok w \<Longrightarrow> ran_part 1 {l} w w' \<Longrightarrow> ran_part 0 {} w (snd (cleanup_link c l w'))"
  unfolding cleanup_link_def using ran_cleanup_inner [OF ran_unlink [of w 1 "{l}" w' l]] by simp

lemma cleanup_codes [simp]:
  "fst (cleanup_skel c w) = c" "fst (cleanup_inner c w) = c" "fst (cleanup_link c l w) = c"
  "bpffs (snd (cleanup_skel c w)) = bpffs w" "bpffs (snd (cleanup_inner c w)) = bpffs w"
  "bpffs (snd (cleanup_link c l w)) = bpffs w"
  "link_of (snd (cleanup_link c l w)) = link_of w" "next_obj (snd (cleanup_link c l w)) = next_obj w"
  by (simp_all add: cleanup_skel_def cleanup_inner_def cleanup_link_def lib_defs)

definition shared_maps :: "(string \<times> string) set" where
  "shared_maps = {(''vms'', PIN_PATH_VMS), (''vcpus'', PIN_PATH_VCPUS), (''map_registry'', PIN_PATH_REGISTRY)}"

text \<open>The handler is attached through a pinned link and uses the maps that are pinned.\<close>

definition switch_handler_loaded :: "bpf_world \<Rightarrow> bool" where
  "switch_handler_loaded w \<longleftrightarrow>
     (\<exists>l m. bpffs w PIN_PATH_LINK = Some (Link_obj l) \<and> l < next_obj w \<and>
        link_of w l = Some \<lparr>prog_name = ''phantom_switch_handler'', prog_maps = m\<rparr> \<and>
        (\<forall>(name, path) \<in> shared_maps. \<exists>i. m name = Some i \<and> bpffs w path = Some (Map_obj i)))"

lemmas pin_path_defs = PIN_PATH_VMS_def PIN_PATH_VCPUS_def PIN_PATH_REGISTRY_def PIN_PATH_GLOBAL_TRACKER_STATE_def PIN_PATH_LINK_def

definition create_maps_outcome :: "bpf_world \<Rightarrow> nat \<times> bpf_world \<Rightarrow> bool" where
  "create_maps_outcome w res \<longleftrightarrow> ran_part 0 {} w (snd res) \<and>
     (if fst res = 0 then switch_handler_loaded (snd res) \<and> bpffs w PIN_PATH_LINK = None
      else fst res = 1 \<and> (bpffs w PIN_PATH_LINK \<noteq> None \<longrightarrow> bpffs (snd res) = bpffs w))"

text \<open>A map that was reused is the pinned one, and every map was created or reused.\<close>

definition reused :: "(string \<Rightarrow> bpf_obj option) \<Rightarrow> bool \<Rightarrow> string \<Rightarrow> string \<Rightarrow> skeleton \<Rightarrow> bool" where
  "reused fs fd path name sk \<longleftrightarrow> sk name \<noteq> None \<and> (fd \<longrightarrow> fs path = Some (Map_obj (bpf_map_fd sk name)))"

lemma create_maps_pin_result:
  assumes ok: "world_ok w" and p: "ran_part 1 {l} w w7" and same: "bpffs w7 = bpffs w" "l < next_obj w7"
    and lk: "link_of w7 l = Some \<lparr>prog_name = ''phantom_switch_handler'', prog_maps = sk\<rparr>"
    and f: "reused (bpffs w) f1 PIN_PATH_VMS ''vms'' sk" "reused (bpffs w) f2 PIN_PATH_VCPUS ''vcpus'' sk"
      "reused (bpffs w) f3 PIN_PATH_REGISTRY ''map_registry'' sk"
  shows "create_maps_outcome w (create_maps_pin ans f1 f2 f3 l sk w7)"
proof -
  obtain r0 w0 where e0: "bpf_pin ans (Link_obj l) PIN_PATH_LINK w7 = (r0, w0)" by fastforce
  obtain r1 w1 where e1: "pin_unless ans f1 (Map_obj (bpf_map_fd sk ''vms'')) PIN_PATH_VMS w0 = (r1, w1)" by fastforce
  obtain r2 w2 where e2: "pin_unless ans f2 (Map_obj (bpf_map_fd sk ''vcpus'')) PIN_PATH_VCPUS w1 = (r2, w2)" by fastforce
  obtain r3 w3 where e3: "pin_unless ans f3 (Map_obj (bpf_map_fd sk ''map_registry'')) PIN_PATH_REGISTRY w2 = (r3, w3)" by fastforce
  note t0 = pin_result [OF e0] and t1 = pin_unless_result [OF e1] and t2 = pin_unless_result [OF e2] and t3 = pin_unless_result [OF e3]
  have seq: "ran_part 1 {l} w u \<Longrightarrow> ran_part 0 {} u v \<Longrightarrow> ran_part 1 {l} w v" for u v
    using ran_part_seq [of 1 "{l}" w u 0 "{}" v] by simp
  have p0: "ran_part 1 {l} w w0" by (rule seq [OF p]) (use t0 in simp)
  have p1: "ran_part 1 {l} w w1" by (rule seq [OF p0]) (use t1 in simp)
  have p2: "ran_part 1 {l} w w2" by (rule seq [OF p1]) (use t2 in simp)
  have p3: "ran_part 1 {l} w w3" by (rule seq [OF p2]) (use t3 in simp)
  have k: "keeps w7 w3" using t0 t1 t2 t3 ran_part_keeps keeps_trans by metis
  have loaded: "switch_handler_loaded w3" if "r0 = None" "r1 = None" "r2 = None" "r3 = None"
    unfolding switch_handler_loaded_def
  proof (intro exI [of _ l] exI [of _ sk] conjI)
    show "bpffs w3 PIN_PATH_LINK = Some (Link_obj l)"
      using that t0 t1 t2 t3 by (auto simp: pin_path_defs split: if_splits)
    show "l < next_obj w3" "link_of w3 l = Some \<lparr>prog_name = ''phantom_switch_handler'', prog_maps = sk\<rparr>"
      using k same(2) lk by (auto simp: keeps_def)
    show "\<forall>(name, path) \<in> shared_maps. \<exists>i. sk name = Some i \<and> bpffs w3 path = Some (Map_obj i)"
      using f that t0 t1 t2 t3 same(1)
      by (auto simp: shared_maps_def reused_def bpf_map_fd_def pin_path_defs split: if_splits option.splits)
  qed
  have main: "create_maps_pin ans f1 f2 f3 l sk w7 =
      (if r0 \<noteq> None then cleanup_link 1 l w0 else if r1 \<noteq> None then cleanup_link 1 l w1 else if r2 \<noteq> None then cleanup_link 1 l w2
       else if r3 \<noteq> None then cleanup_link 1 l w3 else cleanup_link 0 l w3)"
    by (simp only: create_maps_pin_def e0 e1 e2 e3 Let_def prod.case)
  have failed: "create_maps_outcome w (cleanup_link 1 l v)" if "r0 = None" "ran_part 1 {l} w v" for v
    using that t0 same(1) ran_cleanup_link [OF ok that(2)] by (simp add: create_maps_outcome_def)
  have fin: "create_maps_outcome w (cleanup_link 0 l w3)" if "r0 = None" "r1 = None" "r2 = None" "r3 = None"
    using that t0 same(1) loaded ran_cleanup_link [OF ok p3] by (simp add: create_maps_outcome_def switch_handler_loaded_def)
  have "create_maps_outcome w (cleanup_link 1 l w0)" if "r0 \<noteq> None"
    using that t0 same(1) ran_cleanup_link [OF ok p0] by (auto simp: create_maps_outcome_def)
  with fin failed [OF _ p1] failed [OF _ p2] failed [OF _ p3] show ?thesis
    unfolding main by (cases "r0 = None"; cases "r1 = None"; cases "r2 = None") simp_all
qed

lemma create_maps_inner:
  "ran_part 1 {} w v \<Longrightarrow> bpffs v = bpffs w \<Longrightarrow> create_maps_outcome w (cleanup_inner 1 v)"
  using ran_cleanup_inner [of "{}" w v 1] by (simp add: create_maps_outcome_def)

lemma create_maps_attached:
  assumes "world_ok w" and w6: "ran_part 1 {} w w6" "bpffs w6 = bpffs w" and e7: "bpf_program_attach ans ''phantom_switch_handler'' sk w6 = (r7, w7)"
    and f: "reused (bpffs w) f3 PIN_PATH_VMS ''vms'' sk" "reused (bpffs w) f4 PIN_PATH_VCPUS ''vcpus'' sk"
      "reused (bpffs w) f5 PIN_PATH_REGISTRY ''map_registry'' sk"
  shows "create_maps_outcome w (case r7 of Inl _ \<Rightarrow> cleanup_inner 1 w7 | Inr l \<Rightarrow> create_maps_pin ans f3 f4 f5 l sk w7)"
proof -
  note t7 = attach_result [OF e7]
  have same: "bpffs w7 = bpffs w" using t7 w6(2) by simp
  show ?thesis
  proof (cases r7)
    case (Inl e)
    with t7 ran_seq [OF w6(1), of "{}" w7] create_maps_inner [OF _ same] show ?thesis by simp
  next
    case (Inr l)
    with t7 have "ran_part 1 {l} w w7" using ran_seq [OF w6(1), of "{l}" w7] by simp
    from create_maps_pin_result [OF assms(1) this same _ _ f] t7 Inr show ?thesis by simp
  qed
qed

lemma create_maps_result:
  assumes "world_ok w"
  shows "create_maps_outcome w (create_maps_loader_main ans w)"
proof -
  obtain r0 w0 where e0: "skel_open ans w = (r0, w0)" by fastforce
  obtain r1 w1 where e1: "new_fd ans w0 = (r1, w1)" by fastforce
  obtain r2 w2 where e2: "lib ans w1 = (r2, w2)" by fastforce
  obtain f3 r3 sk3 w3 where e3: "reuse_pinned ans PIN_PATH_VMS ''vms'' (\<lambda>_. None) w2 = (f3, r3, sk3, w3)" by (rule prod_cases4)
  obtain f4 r4 sk4 w4 where e4: "reuse_pinned ans PIN_PATH_VCPUS ''vcpus'' sk3 w3 = (f4, r4, sk4, w4)" by (rule prod_cases4)
  obtain f5 r5 sk5 w5 where e5: "reuse_pinned ans PIN_PATH_REGISTRY ''map_registry'' sk4 w4 = (f5, r5, sk5, w5)" by (rule prod_cases4)
  obtain r6 sk w6 where e6: "skel_load ans [''vms'', ''vcpus'', ''map_registry''] sk5 w5 = (r6, sk, w6)" by (rule prod_cases3)
  obtain r7 w7 where e7: "bpf_program_attach ans ''phantom_switch_handler'' sk w6 = (r7, w7)" by fastforce
  note t0 = ran_open [OF e0] and t1 = ran_new_fd [OF e1] and t2 = ran_lib [OF e2]
  note t3 = reuse_pinned_result [OF e3] and t4 = reuse_pinned_result [OF e4] and t5 = reuse_pinned_result [OF e5]
  note t6 = skel_load_result [OF e6]
  have p1: "r0 = None \<Longrightarrow> ran_part 1 {} w w1"
    by (rule ran_seq [of w w0]) (use t0 t1 in auto)
  have p3: "r0 = None \<Longrightarrow> ran_part 1 {} w w3" and p2: "r0 = None \<Longrightarrow> ran_part 1 {} w w2"
    using ran_seq [OF ran_seq [OF p1, of "{}" w2], of "{}" w3] ran_seq [OF p1, of "{}" w2] t2 t3 by auto
  have p5: "r0 = None \<Longrightarrow> ran_part 1 {} w w5" and p4: "r0 = None \<Longrightarrow> ran_part 1 {} w w4"
    using ran_seq [OF ran_seq [OF p3, of "{}" w4], of "{}" w5] ran_seq [OF p3, of "{}" w4] t4 t5 by auto
  have p6: "r0 = None \<Longrightarrow> ran_part 1 {} w w6" using ran_seq [OF p5, of "{}" w6] t6 by auto
  have last: "create_maps_outcome w (case r7 of Inl _ \<Rightarrow> cleanup_inner 1 w7 | Inr l \<Rightarrow> create_maps_pin ans f3 f4 f5 l sk w7)"
    if "r0 = None" "r3 = None" "r4 = None" "r5 = None" "r6 = None"
    by (rule create_maps_attached [OF assms p6 [OF that(1)] _ e7])
      (use that t0 t1 t2 t3 t4 t5 t6 in \<open>auto simp: reused_def bpf_map_fd_def split: if_splits\<close>)
  have main: "create_maps_loader_main ans w =
      (if r0 \<noteq> None then (1, w0) else if r1 \<noteq> None then cleanup_skel 1 w1 else if r2 \<noteq> None then cleanup_inner 1 w2
       else if r3 \<noteq> None then cleanup_inner 1 w3 else if r4 \<noteq> None then cleanup_inner 1 w4 else if r5 \<noteq> None then cleanup_inner 1 w5
       else if r6 \<noteq> None then cleanup_inner 1 w6
       else case r7 of Inl _ \<Rightarrow> cleanup_inner 1 w7 | Inr l \<Rightarrow> create_maps_pin ans f3 f4 f5 l sk w7)"
    by (simp only: create_maps_loader_main_def e0 e1 e2 e3 e4 e5 e6 e7 Let_def prod.case)
  show ?thesis
  proof (cases "r0 = None")
    case False
    with t0 show ?thesis by (auto simp: main create_maps_outcome_def)
  next
    case True
    have "create_maps_outcome w (cleanup_skel 1 w1)"
      using t0 t1 ran_cleanup_skel [OF p1 [OF True]] by (simp add: create_maps_outcome_def)
    moreover have "create_maps_outcome w (cleanup_inner 1 v)" if "v \<in> {w2, w3, w4, w5, w6}" for v
      using that create_maps_inner p2 p3 p4 p5 p6 True t0 t1 t2 t3 t4 t5 t6 by (elim insertE emptyE) simp_all
    ultimately show ?thesis using last True unfolding main by (simp only: insert_iff simp_thms if_True if_False split: if_split) iprover
  qed
qed

subsection \<open>Descriptors the loader of the switch handler leaves open\<close>

text \<open>Of the calls of the loader only two open a descriptor: the template map, and reusing a pinned map.\<close>

lemma fds_unchanged:
  "lib ans w = (r, w1) \<Longrightarrow> obj_fds w1 = obj_fds w" "skel_open ans w = (r, w1) \<Longrightarrow> obj_fds w1 = obj_fds w"
  "bpf_pin ans ob path w = (r, w1) \<Longrightarrow> obj_fds w1 = obj_fds w"
  "pin_unless ans fd ob path w = (r, w1) \<Longrightarrow> obj_fds w1 = obj_fds w"
  "bpf_program_attach ans p sk w = (q, w1) \<Longrightarrow> obj_fds w1 = obj_fds w"
  "obj_fds (snd (cleanup_skel c w)) = obj_fds w"
  by (auto simp: lib_defs Let_def pin_unless_def cleanup_skel_def split: if_splits option.splits)

lemma fds_closed:
  "obj_fds (snd (cleanup_inner c w)) = obj_fds w - 1" "obj_fds (snd (cleanup_link c l w)) = obj_fds w - 1"
  by (simp_all add: lib_defs cleanup_link_def cleanup_inner_def cleanup_skel_def)

lemma fds_new: "new_fd ans w = (r, w1) \<Longrightarrow> obj_fds w1 = obj_fds w + (if r = None then 1 else 0)"
  by (auto simp: lib_defs split: if_splits)

lemma fds_create_missing: "create_missing names sk w = (sk', w') \<Longrightarrow> obj_fds w' = obj_fds w"
  by (induction names arbitrary: sk w) (auto split: if_splits)

lemma fds_load: "skel_load ans names sk w = (r, sk', w1) \<Longrightarrow> obj_fds w1 = obj_fds w"
  using fds_create_missing by (force simp: lib_defs split: if_splits)

lemma fds_reuse:
  "reuse_pinned ans path name sk w = (fd, r, sk', w1) \<Longrightarrow>
    obj_fds w1 = obj_fds w + (if fd then 1 else 0) \<and> (fd \<longrightarrow> bpffs w path \<noteq> None)"
  by (auto simp: reuse_pinned_def lib_defs split: option.splits bpf_obj.splits if_splits)

lemma fds_pin:
  assumes "create_maps_pin ans f1 f2 f3 l sk w = (code, w')"
  shows "obj_fds w' = obj_fds w - 1 \<and> (code = 0 \<longrightarrow> (\<forall>(fd, path) \<in> {(f1, PIN_PATH_VMS), (f2, PIN_PATH_VCPUS), (f3, PIN_PATH_REGISTRY)}.
    fd \<or> bpffs w path = None))"
proof -
  obtain r0 w0 where e0: "bpf_pin ans (Link_obj l) PIN_PATH_LINK w = (r0, w0)" by fastforce
  obtain r1 w1 where e1: "pin_unless ans f1 (Map_obj (bpf_map_fd sk ''vms'')) PIN_PATH_VMS w0 = (r1, w1)" by fastforce
  obtain r2 w2 where e2: "pin_unless ans f2 (Map_obj (bpf_map_fd sk ''vcpus'')) PIN_PATH_VCPUS w1 = (r2, w2)" by fastforce
  obtain r3 w3 where e3: "pin_unless ans f3 (Map_obj (bpf_map_fd sk ''map_registry'')) PIN_PATH_REGISTRY w2 = (r3, w3)" by fastforce
  note fd = fds_unchanged(3) [OF e0] fds_unchanged(4) [OF e1] fds_unchanged(4) [OF e2] fds_unchanged(4) [OF e3]
  note t0 = pin_result [OF e0] and t1 = pin_unless_result [OF e1] and t2 = pin_unless_result [OF e2] and t3 = pin_unless_result [OF e3]
  have main: "(code, w') =
      (if r0 \<noteq> None then cleanup_link 1 l w0 else if r1 \<noteq> None then cleanup_link 1 l w1 else if r2 \<noteq> None then cleanup_link 1 l w2
       else if r3 \<noteq> None then cleanup_link 1 l w3 else cleanup_link 0 l w3)"
    unfolding assms [symmetric] by (simp only: create_maps_pin_def e0 e1 e2 e3 Let_def prod.case)
  have "obj_fds w' = obj_fds w - 1"
    using arg_cong [OF main, of "\<lambda>x. obj_fds (snd x)"] fd by (simp add: fds_closed split: if_splits)
  moreover have "r0 = None \<and> r1 = None \<and> r2 = None \<and> r3 = None" if "code = 0"
    using arg_cong [OF main, of fst] that by (simp split: if_splits)
  ultimately show ?thesis using t0 t1 t2 t3 by (auto simp: pin_path_defs split: if_splits)
qed

text \<open>The pinned maps the loader would reuse.\<close>

definition pinned_before :: "bpf_world \<Rightarrow> string set" where
  "pinned_before w = {p \<in> {PIN_PATH_VMS, PIN_PATH_VCPUS, PIN_PATH_REGISTRY}. bpffs w p \<noteq> None}"

lemma card_pinned_before: "int (card (pinned_before w)) = (if bpffs w PIN_PATH_VMS \<noteq> None then 1 else 0) +
    (if bpffs w PIN_PATH_VCPUS \<noteq> None then 1 else 0) + (if bpffs w PIN_PATH_REGISTRY \<noteq> None then 1 else 0)"
proof -
  have "pinned_before w = (if bpffs w PIN_PATH_VMS \<noteq> None then {PIN_PATH_VMS} else {}) \<union>
      (if bpffs w PIN_PATH_VCPUS \<noteq> None then {PIN_PATH_VCPUS} else {}) \<union>
      (if bpffs w PIN_PATH_REGISTRY \<noteq> None then {PIN_PATH_REGISTRY} else {})"
    by (auto simp: pinned_before_def)
  then show ?thesis by (simp add: pin_path_defs)
qed

lemma create_maps_fds:
  assumes "create_maps_loader_main ans w = (code, w')"
  shows "obj_fds w \<le> obj_fds w' \<and> obj_fds w' \<le> obj_fds w + int (card (pinned_before w)) \<and>
    (code = 0 \<longrightarrow> obj_fds w' = obj_fds w + int (card (pinned_before w)))"
proof -
  obtain r0 w0 where e0: "skel_open ans w = (r0, w0)" by fastforce
  obtain r1 w1 where e1: "new_fd ans w0 = (r1, w1)" by fastforce
  obtain r2 w2 where e2: "lib ans w1 = (r2, w2)" by fastforce
  obtain f3 r3 sk3 w3 where e3: "reuse_pinned ans PIN_PATH_VMS ''vms'' (\<lambda>_. None) w2 = (f3, r3, sk3, w3)" by (rule prod_cases4)
  obtain f4 r4 sk4 w4 where e4: "reuse_pinned ans PIN_PATH_VCPUS ''vcpus'' sk3 w3 = (f4, r4, sk4, w4)" by (rule prod_cases4)
  obtain f5 r5 sk5 w5 where e5: "reuse_pinned ans PIN_PATH_REGISTRY ''map_registry'' sk4 w4 = (f5, r5, sk5, w5)" by (rule prod_cases4)
  obtain r6 sk w6 where e6: "skel_load ans [''vms'', ''vcpus'', ''map_registry''] sk5 w5 = (r6, sk, w6)" by (rule prod_cases3)
  obtain r7 w7 where e7: "bpf_program_attach ans ''phantom_switch_handler'' sk w6 = (r7, w7)" by fastforce
  note fd = fds_unchanged(2) [OF e0] fds_new [OF e1] fds_unchanged(1) [OF e2] fds_reuse [OF e3] fds_reuse [OF e4] fds_reuse [OF e5]
    fds_load [OF e6] fds_unchanged(5) [OF e7]
  have same: "bpffs w2 = bpffs w" "bpffs w3 = bpffs w" "bpffs w4 = bpffs w" "bpffs w7 = bpffs w"
    using ran_open [OF e0] ran_new_fd [OF e1] ran_lib [OF e2] reuse_pinned_result [OF e3] reuse_pinned_result [OF e4]
      reuse_pinned_result [OF e5] skel_load_result [OF e6] attach_result [OF e7] by auto
  have main: "(code, w') =
      (if r0 \<noteq> None then (1, w0) else if r1 \<noteq> None then cleanup_skel 1 w1 else if r2 \<noteq> None then cleanup_inner 1 w2
       else if r3 \<noteq> None then cleanup_inner 1 w3 else if r4 \<noteq> None then cleanup_inner 1 w4 else if r5 \<noteq> None then cleanup_inner 1 w5
       else if r6 \<noteq> None then cleanup_inner 1 w6
       else case r7 of Inl _ \<Rightarrow> cleanup_inner 1 w7 | Inr l \<Rightarrow> create_maps_pin ans f3 f4 f5 l sk w7)"
    unfolding assms [symmetric] by (simp only: create_maps_loader_main_def e0 e1 e2 e3 e4 e5 e6 e7 Let_def prod.case)
  show ?thesis
  proof (cases "set [r0, r1, r2, r3, r4, r5, r6] \<subseteq> {None} \<and> (\<exists>l. r7 = Inr l)")
    case True
    then obtain l where "create_maps_pin ans f3 f4 f5 l sk w7 = (code, w')" using main by auto
    note pin = fds_pin [OF this]
    have "r1 = None" using True by simp
    with pin fd same show ?thesis by (auto simp: card_pinned_before)
  next
    case False
    then have "code = 1" and "obj_fds w' \<in> {obj_fds w, obj_fds w2 - 1, obj_fds w3 - 1, obj_fds w4 - 1, obj_fds w5 - 1, obj_fds w6 - 1, obj_fds w7 - 1}
        \<and> (obj_fds w' \<noteq> obj_fds w \<longrightarrow> r1 = None)"
      using arg_cong [OF main, of fst] arg_cong [OF main, of "\<lambda>x. obj_fds (snd x)"] fd(1,2)
      by (auto simp: fds_closed fds_unchanged(6) split: if_splits sum.splits)
    with fd same show ?thesis by (auto simp: card_pinned_before split: if_splits)
  qed
qed

subsection \<open>The loader of the idle tracker\<close>

lemma create_missing_fresh:
  "create_missing names sk w = (sk', w') \<Longrightarrow> sk n = None \<Longrightarrow> n \<in> set names \<Longrightarrow> \<exists>i. sk' n = Some i \<and> next_obj w \<le> i \<and> i < next_obj w' \<and>
     state_of w' i = tracker_state_zero"
proof (induction names arbitrary: sk w)
  case Nil
  then show ?case by simp
next
  case (Cons name names)
  let ?w = "w\<lparr>next_obj := Suc (next_obj w), state_of := (state_of w)(next_obj w := tracker_state_zero)\<rparr>"
  show ?case
  proof (cases "sk name = None")
    case False
    with Cons show ?thesis by auto
  next
    case True
    with Cons.prems have c: "create_missing names (sk(name \<mapsto> next_obj w)) ?w = (sk', w')" by simp
    show ?thesis
    proof (cases "n = name")
      case True
      have "sk' n = Some (next_obj w)" "ran_part 0 {} ?w w'" using create_missing_result [OF c] True by simp_all
      then show ?thesis by (intro exI [of _ "next_obj w"]) (auto simp: ran_part_def keeps_def)
    next
      case False
      with Cons.prems obtain i where "sk' n = Some i" "next_obj ?w \<le> i" "i < next_obj w'" "state_of w' i = tracker_state_zero"
        using Cons.IH [OF c] by auto
      then show ?thesis by auto
    qed
  qed
qed

lemma skel_load_fresh:
  assumes "skel_load ans names sk w = (None, sk', w')" and "sk n = None" and "n \<in> set names"
  shows "next_obj w \<le> bpf_map_fd sk' n \<and> bpf_map_fd sk' n < next_obj w' \<and> sk' n = Some (bpf_map_fd sk' n)"
proof -
  obtain w1 where "create_missing names sk w1 = (sk', w')" "next_obj w1 = next_obj w"
    using assms(1) by (auto simp: lib_defs split: if_splits)
  with create_missing_fresh [OF this(1) assms(2,3)] show ?thesis by (auto simp: bpf_map_fd_def)
qed

lemma skel_attach_result:
  assumes "world_ok w0" and "ran_part k {} w0 w" and "skel_attach ans p q sk w = (r, w')"
  shows "bpffs w' = bpffs w \<and> state_of w' = state_of w \<and> next_obj w \<le> next_obj w' \<and>
    (case r of Inl e \<Rightarrow> ran_part k {} w0 w'
     | Inr ls \<Rightarrow> ran_part k (set ls) w0 w' \<and> (\<forall>l \<in> set ls. l < next_obj w' \<and> (\<exists>n. link_of w' l = Some \<lparr>prog_name = n, prog_maps = sk\<rparr>)))"
proof -
  obtain r1 w1 where e1: "bpf_program_attach ans p sk w = (r1, w1)" by fastforce
  note t1 = attach_result [OF e1]
  show ?thesis
  proof (cases r1)
    case (Inl e)
    then show ?thesis
      using assms e1 t1 ran_part_seq [OF assms(2), of 0 "{}" w1] by (auto simp: skel_attach_def lib_defs Let_def split: option.splits)
  next
    case (Inr l)
    obtain r2 w2 where e2: "bpf_program_attach ans q sk w1 = (r2, w2)" by fastforce
    note t2 = attach_result [OF e2]
    have p1: "ran_part k {l} w0 w1" using ran_part_seq [OF assms(2), of 0 "{l}" w1] t1 Inr by simp
    have mono: "next_obj w \<le> next_obj w2" and st: "state_of w1 = state_of w" "state_of w2 = state_of w1"
      using e1 e2 by (auto simp: lib_defs Let_def split: option.splits)
    show ?thesis
    proof (cases r2)
      case (Inl e)
      have "ran_part k {l} w0 w2" using ran_part_seq [OF p1, of 0 "{}" w2] t2 Inl by simp
      then have "ran_part k {} w0 (bpf_link_destroy l w2)" using ran_unlink [OF assms(1), of k "{l}" w2 l] by simp
      then show ?thesis
        using assms(3) e1 e2 t1 t2 Inl \<open>r1 = Inr l\<close> st mono by (auto simp: skel_attach_def bpf_link_destroy_def)
    next
      case (Inr m)
      have "ran_part k {l, m} w0 w2" using ran_part_seq [OF p1, of 0 "{m}" w2] t2 Inr by (simp add: insert_commute)
      moreover have "link_of w2 l = link_of w1 l" "l < next_obj w2" using t1 t2 Inr \<open>r1 = Inr l\<close> by (auto simp: ran_part_def keeps_def)
      ultimately show ?thesis
        using assms(3) e1 e2 t1 t2 Inr \<open>r1 = Inr l\<close> st mono by (auto simp: skel_attach_def)
    qed
  qed
qed

lemma fold_link_destroy: "fold bpf_link_destroy ls w = w\<lparr>held := held w - set ls\<rparr>"
  by (induction ls arbitrary: w) (simp_all add: bpf_link_destroy_def Diff_insert2 [symmetric])

lemma ran_destroy_links:
  assumes "world_ok w" and "ran_part 1 (set ls) w w'"
  shows "ran_part 0 {} w (skel_destroy (fold bpf_link_destroy ls w'))"
proof -
  have "held w \<inter> set ls = {}" using assms by (force simp: ran_part_def world_ok_def)
  with assms(2) show ?thesis by (auto simp: fold_link_destroy lib_defs ran_part_def keeps_def)
qed

lemmas ran_destroy_tracker = ran_destroy_links [folded destroy_tracker_def]

definition tracker_outcome :: "int \<Rightarrow> bpf_world \<Rightarrow> loader_outcome \<times> bpf_world \<Rightarrow> bool" where
  "tracker_outcome nb w res \<longleftrightarrow>
     (case fst res of Exited c \<Rightarrow> c = 1 \<and> ran_part 0 {} w (snd res)
      | Serving ls \<Rightarrow> ran_part 1 (set ls) w (snd res) \<and>
          (\<exists>i. bpffs (snd res) PIN_PATH_GLOBAL_TRACKER_STATE = Some (Map_obj i) \<and>
             (bpffs w PIN_PATH_GLOBAL_TRACKER_STATE = None \<longrightarrow> state_of (snd res) i = tracker_state_zero\<lparr>nb_cpus := of_int nb\<rparr>) \<and>
             (\<forall>l \<in> set ls. l < next_obj (snd res) \<and>
                (\<exists>n m. link_of (snd res) l = Some \<lparr>prog_name = n, prog_maps = m\<rparr> \<and> m ''global_tracker_state'' = Some i))))"

lemma tracker_pin_result:
  assumes "world_ok w" and "ran_part 1 (set ls) w w4" and "bpffs w4 = bpffs w"
    and "\<forall>l \<in> set ls. l < next_obj w4 \<and> (\<exists>n. link_of w4 l = Some \<lparr>prog_name = n, prog_maps = sk\<rparr>)"
    and "sk ''global_tracker_state'' = Some i"
    and "fd \<Longrightarrow> bpffs w PIN_PATH_GLOBAL_TRACKER_STATE = Some (Map_obj i)"
    and "\<not> fd \<Longrightarrow> i < next_obj w4 \<and> state_of w4 i = tracker_state_zero\<lparr>nb_cpus := of_int nb\<rparr>"
  shows "tracker_outcome nb w (let (r5, w5) = pin_unless ans fd (Map_obj i) PIN_PATH_GLOBAL_TRACKER_STATE w4 in
    if r5 \<noteq> None then (Exited 1, destroy_tracker ls w5) else (Serving ls, w5))"
proof -
  obtain r5 w5 where e5: "pin_unless ans fd (Map_obj i) PIN_PATH_GLOBAL_TRACKER_STATE w4 = (r5, w5)" by fastforce
  note t5 = pin_unless_result [OF e5]
  have p5: "ran_part 1 (set ls) w w5" using ran_part_seq [OF assms(2), of 0 "{}" w5] t5 by simp
  show ?thesis
  proof (cases "r5 = None")
    case False
    with e5 ran_destroy_tracker [OF assms(1) p5] show ?thesis by (simp add: tracker_outcome_def)
  next
    case True
    have "\<forall>l \<in> set ls. l < next_obj w5 \<and> (\<exists>n m. link_of w5 l = Some \<lparr>prog_name = n, prog_maps = m\<rparr> \<and> m ''global_tracker_state'' = Some i)"
      using assms(4,5) t5 by (fastforce simp: ran_part_def keeps_def)
    moreover have "bpffs w5 PIN_PATH_GLOBAL_TRACKER_STATE = Some (Map_obj i)" using t5 True assms(3,6) by (auto split: if_splits)
    moreover have "state_of w5 i = tracker_state_zero\<lparr>nb_cpus := of_int nb\<rparr>" if "bpffs w PIN_PATH_GLOBAL_TRACKER_STATE = None"
      using that assms(6,7) t5 by (cases fd) (auto simp: ran_part_def)
    ultimately show ?thesis using e5 True p5 by (simp add: tracker_outcome_def)
  qed
qed

lemma tracker_exits: "world_ok w \<Longrightarrow> ran_part 1 {} w v \<Longrightarrow> tracker_outcome nb w (Exited 1, destroy_tracker [] v)"
  using ran_destroy_tracker [of w "[]" v] by (simp add: tracker_outcome_def)

lemma tracker_attached:
  assumes "world_ok w" and w3: "ran_part 1 {} w w3" "bpffs w3 = bpffs w" and e4: "skel_attach ans p q sk w3 = (r4, w4)"
    and pq: "p = ''global_running_tracker_switch_handler''" "q = ''global_running_tracker_timer_init''"
    and i: "sk ''global_tracker_state'' = Some i" "fd \<Longrightarrow> bpffs w PIN_PATH_GLOBAL_TRACKER_STATE = Some (Map_obj i)"
    and new: "\<not> fd \<Longrightarrow> i < next_obj w3 \<and> state_of w3 i = tracker_state_zero\<lparr>nb_cpus := of_int nb\<rparr>"
  shows "tracker_outcome nb w (case r4 of Inl _ \<Rightarrow> (Exited 1, destroy_tracker [] w4)
    | Inr ls \<Rightarrow> let (r5, w5) = pin_unless ans fd (Map_obj i) PIN_PATH_GLOBAL_TRACKER_STATE w4 in
        if r5 \<noteq> None then (Exited 1, destroy_tracker ls w5) else (Serving ls, w5))"
proof -
  note t4 = skel_attach_result [OF assms(1) w3(1) e4 [unfolded pq]]
  have "\<not> fd \<Longrightarrow> i < next_obj w4 \<and> state_of w4 i = tracker_state_zero\<lparr>nb_cpus := of_int nb\<rparr>" using new t4 by auto
  with tracker_pin_result [OF assms(1), of _ w4 sk i fd nb ans] t4 i w3(2) tracker_exits [OF assms(1)] show ?thesis by (simp split: sum.splits)
qed

lemma tracker_result:
  assumes "world_ok w"
  shows "tracker_outcome nb w (global_running_tracker_loader_main ans nb w)"
proof -
  let ?path = PIN_PATH_GLOBAL_TRACKER_STATE and ?gs = "''global_tracker_state''"
  let ?names = "[''collectx_buff_1'', ''collectx_buff_2'', ?gs, ''timer_map'']"
  obtain r0 w0 where e0: "skel_open ans w = (r0, w0)" by fastforce
  obtain fd r1 sk1 w1 where e1: "reuse_pinned ans ?path ?gs (\<lambda>_. None) w0 = (fd, r1, sk1, w1)" by (rule prod_cases4)
  obtain r2 sk w2 where e2: "skel_load ans ?names sk1 w1 = (r2, sk, w2)" by (rule prod_cases3)
  define i where "i = bpf_map_fd sk ?gs"
  obtain r3 w3 where e3: "init_tracker_state ans fd i nb w2 = (r3, w3)" by fastforce
  obtain r4 w4 where e4: "skel_attach ans ''global_running_tracker_switch_handler'' ''global_running_tracker_timer_init'' sk w3 = (r4, w4)"
    by fastforce
  note t0 = ran_open [OF e0] and t1 = reuse_pinned_result [OF e1] and t2 = skel_load_result [OF e2]
  have p1: "r0 = None \<Longrightarrow> ran_part 1 {} w w1" using ran_seq [of w w0 "{}" w1] t0 t1 by simp
  have p2: "r0 = None \<Longrightarrow> ran_part 1 {} w w2" using ran_seq [OF p1] t2 by simp
  have fresh: "next_obj w \<le> i \<and> i < next_obj w2 \<and> sk ?gs = Some i" if "\<not> fd" "r2 = None" "r0 = None"
  proof -
    have "next_obj w \<le> next_obj w1" using p1 that(3) by (simp add: ran_part_def keeps_def)
    moreover have "sk1 ?gs = None" using t1 that(1) by simp
    ultimately show ?thesis using skel_load_fresh [of ans ?names sk1 w1 sk w2 ?gs] e2 that(2) by (auto simp: i_def)
  qed
  have p3: "ran_part 1 {} w w3" "bpffs w3 = bpffs w" "next_obj w3 = next_obj w2" if "r0 = None" "r2 = None"
    using e3 p2 fresh that t0 t1 t2 by (auto simp: init_tracker_state_def lib_defs ran_part_def keeps_def split: if_splits)
  note d = tracker_exits [OF assms]
  let ?pin = "\<lambda>ls. let (r5, w5) = pin_unless ans fd (Map_obj i) ?path w4 in
    if r5 \<noteq> None then (Exited 1, destroy_tracker ls w5) else (Serving ls, w5)"
  have last: "tracker_outcome nb w (case r4 of Inl _ \<Rightarrow> (Exited 1, destroy_tracker [] w4) | Inr ls \<Rightarrow> ?pin ls)"
    if ok: "r0 = None" "r1 = None" "r2 = None" "r3 = None"
  proof (rule tracker_attached [OF assms p3(1,2) [OF ok(1,3)] e4])
    show "sk ?gs = Some i" "fd \<Longrightarrow> bpffs w ?path = Some (Map_obj i)"
      using ok t0 t1 t2 by (auto simp: i_def bpf_map_fd_def split: if_splits)
    show "i < next_obj w3 \<and> state_of w3 i = tracker_state_zero\<lparr>nb_cpus := of_int nb\<rparr>" if "\<not> fd"
      using e3 ok that fresh p3(3) [OF ok(1,3)] by (auto simp: init_tracker_state_def lib_defs split: if_splits)
  qed simp_all
  have main: "global_running_tracker_loader_main ans nb w =
      (if r0 \<noteq> None then (Exited 1, w0) else if r1 \<noteq> None then (Exited 1, destroy_tracker [] w1)
       else if r2 \<noteq> None then (Exited 1, destroy_tracker [] w2) else if nb < 0 then (Exited 1, destroy_tracker [] w2)
       else if r3 \<noteq> None then (Exited 1, destroy_tracker [] w3)
       else case r4 of Inl _ \<Rightarrow> (Exited 1, destroy_tracker [] w4) | Inr ls \<Rightarrow> ?pin ls)"
    by (simp only: global_running_tracker_loader_main_def e0 e1 e2 i_def [symmetric] e3 e4 Let_def prod.case)
  show ?thesis
  proof (cases "r0 = None")
    case False
    with t0 show ?thesis by (auto simp: main tracker_outcome_def)
  next
    case True
    then show ?thesis
      using d [OF p1] d [OF p2] d [OF p3(1)] last unfolding main by (simp only: simp_thms if_True if_False split: if_split) iprover
  qed
qed

text \<open>When no call fails, the tracker is served, on a fresh map or on the pinned one.\<close>

lemma tracker_serves:
  assumes "\<forall>n. ans n = None" and "0 \<le> nb" and "\<forall>l. bpffs w PIN_PATH_GLOBAL_TRACKER_STATE \<noteq> Some (Link_obj l)"
  shows "\<exists>ls w'. global_running_tracker_loader_main ans nb w = (Serving ls, w')"
proof -
  obtain w0 where 0: "skel_open ans w = (None, w0)" "bpffs w0 = bpffs w" using assms(1) by (simp add: lib_defs)
  obtain fd r1 sk1 w1 where 1: "reuse_pinned ans PIN_PATH_GLOBAL_TRACKER_STATE ''global_tracker_state'' (\<lambda>_. None) w0 = (fd, r1, sk1, w1)"
    by (rule prod_cases4)
  have r1: "r1 = None" "bpffs w1 = bpffs w" "\<not> fd \<longrightarrow> bpffs w PIN_PATH_GLOBAL_TRACKER_STATE = None"
  proof -
    show "bpffs w1 = bpffs w" using reuse_pinned_result [OF 1] 0(2) by simp
    show "r1 = None" "\<not> fd \<longrightarrow> bpffs w PIN_PATH_GLOBAL_TRACKER_STATE = None"
      using 1 [unfolded reuse_pinned_def lib_defs lib_def] assms(1,3) 0(2)
      by (cases "bpffs w PIN_PATH_GLOBAL_TRACKER_STATE"; simp split: bpf_obj.splits)+
  qed
  obtain r2 sk w2 where 2: "skel_load ans [''collectx_buff_1'', ''collectx_buff_2'', ''global_tracker_state'', ''timer_map''] sk1 w1 = (r2, sk, w2)"
    by (rule prod_cases3)
  have r2: "r2 = None" using 2 assms(1) by (auto simp: lib_defs)
  have b2: "bpffs w2 = bpffs w" using skel_load_result [OF 2] r1(2) by simp
  obtain w3 where 3: "init_tracker_state ans fd (bpf_map_fd sk ''global_tracker_state'') nb w2 = (None, w3)" "bpffs w3 = bpffs w"
    using assms(1) b2 by (cases fd) (simp_all add: init_tracker_state_def lib_defs)
  obtain ls w4 where 4: "skel_attach ans ''global_running_tracker_switch_handler'' ''global_running_tracker_timer_init'' sk w3 = (Inr ls, w4)"
      "bpffs w4 = bpffs w"
    using assms(1) 3(2) by (simp add: skel_attach_def lib_defs Let_def)
  obtain w5 where "pin_unless ans fd (Map_obj (bpf_map_fd sk ''global_tracker_state'')) PIN_PATH_GLOBAL_TRACKER_STATE w4 = (None, w5)"
    using assms(1) r1(3) 4(2) by (cases fd) (simp_all add: pin_unless_def lib_defs)
  with 0 1 2 3 4 r1(1) r2 assms(2) show ?thesis by (simp add: global_running_tracker_loader_main_def Let_def)
qed

subsection \<open>The loader of the timer\<close>

text \<open>When no call fails, a map that is pinned is reused.\<close>

lemma reuse_pinned_calm:
  assumes "\<forall>n. ans n = None" and "bpffs w path = Some (Map_obj m)"
  obtains w' where "reuse_pinned ans path name sk w = (True, None, sk(name \<mapsto> m), w')" "ran_part 0 {} w w'" "bpffs w' = bpffs w"
proof (rule that)
  let ?w = "w\<lparr>lib_calls := Suc (Suc (lib_calls w)), obj_fds := obj_fds w + 1\<rparr>"
  show "reuse_pinned ans path name sk w = (True, None, sk(name \<mapsto> m), ?w)" using assms by (simp add: reuse_pinned_def lib_defs)
  show "ran_part 0 {} w ?w" "bpffs ?w = bpffs w" by (simp_all add: ran_part_def keeps_def)
qed

lemma skel_open_calm:
  assumes "\<forall>n. ans n = None"
  obtains w' where "skel_open ans w = (None, w')" "ran_part 1 {} w w'" "bpffs w' = bpffs w"
proof -
  obtain r w' where e: "skel_open ans w = (r, w')" by fastforce
  moreover have "r = None" using e assms by (auto simp: lib_defs)
  ultimately show thesis using that ran_open [OF e] by simp
qed

lemma skel_load_calm:
  assumes "\<forall>n. ans n = None"
  obtains sk' w' where "skel_load ans names sk w = (None, sk', w')" "ran_part 0 {} w w'" "bpffs w' = bpffs w"
    "\<forall>n. sk n \<noteq> None \<longrightarrow> sk' n = sk n"
proof -
  obtain r sk' w' where e: "skel_load ans names sk w = (r, sk', w')" by (rule prod_cases3)
  moreover have "r = None" using e assms by (auto simp: lib_defs split: if_splits)
  ultimately show thesis using that skel_load_result [OF e] by simp
qed

lemma timer_result:
  assumes "\<forall>n. ans n = None" and "bpffs w PIN_PATH_VMS = Some (Map_obj a)" and "bpffs w PIN_PATH_VCPUS = Some (Map_obj b)"
    and "bpffs w PIN_PATH_REGISTRY = Some (Map_obj c)" and "bpffs w PIN_PATH_GLOBAL_TRACKER_STATE = Some (Map_obj d)"
  shows "\<exists>l w' m. timer_loader_main ans w = (Serving [l], w') \<and> ran_part 1 {l} w w' \<and> bpffs w' = bpffs w \<and>
    link_of w' l = Some \<lparr>prog_name = ''phantom_timer_handler'', prog_maps = m\<rparr> \<and>
    m ''vms'' = Some a \<and> m ''vcpus'' = Some b \<and> m ''map_registry'' = Some c \<and> m ''global_tracker_state'' = Some d"
proof -
  obtain w0 where 0: "skel_open ans w = (None, w0)" "ran_part 1 {} w w0" "bpffs w0 = bpffs w"
    by (rule skel_open_calm [OF assms(1)])
  obtain w1 where 1: "reuse_pinned ans PIN_PATH_VMS ''vms'' (\<lambda>_. None) w0 = (True, None, [''vms'' \<mapsto> a], w1)"
      "ran_part 0 {} w0 w1" "bpffs w1 = bpffs w"
    using reuse_pinned_calm [OF assms(1), of w0 PIN_PATH_VMS] assms(2) 0(3) by metis
  obtain w2 where 2: "reuse_pinned ans PIN_PATH_VCPUS ''vcpus'' [''vms'' \<mapsto> a] w1 = (True, None, [''vms'' \<mapsto> a, ''vcpus'' \<mapsto> b], w2)"
      "ran_part 0 {} w1 w2" "bpffs w2 = bpffs w"
    using reuse_pinned_calm [OF assms(1), of w1 PIN_PATH_VCPUS] assms(3) 1(3) by metis
  let ?sk3 = "[''vms'' \<mapsto> a, ''vcpus'' \<mapsto> b, ''map_registry'' \<mapsto> c]"
  obtain w3 where 3: "reuse_pinned ans PIN_PATH_REGISTRY ''map_registry'' [''vms'' \<mapsto> a, ''vcpus'' \<mapsto> b] w2 = (True, None, ?sk3, w3)"
      "ran_part 0 {} w2 w3" "bpffs w3 = bpffs w"
    using reuse_pinned_calm [OF assms(1), of w2 PIN_PATH_REGISTRY] assms(4) 2(3) by metis
  let ?sk4 = "?sk3(''global_tracker_state'' \<mapsto> d)"
  obtain w4 where 4: "reuse_pinned ans PIN_PATH_GLOBAL_TRACKER_STATE ''global_tracker_state'' ?sk3 w3 = (True, None, ?sk4, w4)"
      "ran_part 0 {} w3 w4" "bpffs w4 = bpffs w"
    using reuse_pinned_calm [OF assms(1), of w3 PIN_PATH_GLOBAL_TRACKER_STATE] assms(5) 3(3) by metis
  obtain m w5 where 5: "skel_load ans [''timer_map'', ''global_tracker_state'', ''vms'', ''vcpus'', ''map_registry''] ?sk4 w4 = (None, m, w5)"
      "ran_part 0 {} w4 w5" "bpffs w5 = bpffs w" "\<forall>n. ?sk4 n \<noteq> None \<longrightarrow> m n = ?sk4 n"
    using skel_load_calm [OF assms(1), of "[''timer_map'', ''global_tracker_state'', ''vms'', ''vcpus'', ''map_registry'']" ?sk4 w4] 4(3) by metis
  obtain r w6 where e6: "bpf_program_attach ans ''phantom_timer_handler'' m w5 = (r, w6)" by fastforce
  obtain l where l: "r = Inr l" using e6 assms(1) by (auto simp: lib_defs Let_def)
  have "ran_part 0 {} w0 w5" using ran_part_seq [OF ran_part_seq [OF ran_part_seq [OF ran_part_seq [OF 1(2) 2(2)] 3(2)] 4(2)] 5(2)] by simp
  then have "ran_part 1 {l} w w6"
    using ran_part_seq [OF ran_part_seq [OF 0(2)], of 0 "{}" w5 0 "{l}" w6] attach_result [OF e6] l by simp
  moreover have "timer_loader_main ans w = (Serving [l], w6)"
    by (simp only: timer_loader_main_def 0(1) 1(1) 2(1) 3(1) 4(1) 5(1) e6 l Let_def prod.case sum.case if_False simp_thms)
  ultimately show ?thesis using attach_result [OF e6] l 5(3,4) by (intro exI [of _ l] exI [of _ w6] exI [of _ m]) simp
qed

subsection \<open>The loader of the guest\<close>

text \<open>A process that is signalled at some time leaves the loop.\<close>

lemma wait_exiting_returns: "exiting k \<Longrightarrow> n \<le> k \<Longrightarrow> \<exists>m. wait_exiting exiting n = Some m"
proof (induction "k - n" arbitrary: n)
  case 0
  then show ?case by (subst wait_exiting.simps) auto
next
  case (Suc d)
  show ?case
  proof (cases "exiting n")
    case True
    then show ?thesis by (subst wait_exiting.simps) simp
  next
    case False
    with Suc have "\<exists>m. wait_exiting exiting (Suc n) = Some m" by (metis Suc_diff_Suc Suc_leI diff_Suc_Suc le_neq_implies_less old.nat.inject)
    with False show ?thesis by (subst wait_exiting.simps) simp
  qed
qed

text \<open>
  After a run without failures four programs stay attached through their pinned links; the one of
  the worker threads, whose link cannot be pinned, goes with the process.
\<close>

definition omp_pins :: "(string \<times> string) set" where
  "omp_pins = {(PIN_MASTER_LINK, ''capture_omp_master_thread''), (PIN_SWITCH_LINK, ''handle_switch''),
     (PIN_EXIT_LINK, ''remove_exited_omp_thread''), (PIN_EXEC_LINK, ''remove_execed_omp_thread'')}"

lemmas omp_path_defs = PIN_MASTER_LINK_def PIN_SWITCH_LINK_def PIN_EXIT_LINK_def PIN_EXEC_LINK_def PIN_OMP_THREADS_MAP_def

text \<open>What an attachment and a pin that succeed do.\<close>

definition link_up :: "string \<Rightarrow> skeleton \<Rightarrow> bpf_world \<Rightarrow> bpf_world" where
  "link_up prog sk w = w\<lparr>lib_calls := Suc (lib_calls w), next_obj := Suc (next_obj w),
     link_of := (link_of w)(next_obj w \<mapsto> \<lparr>prog_name = prog, prog_maps = sk\<rparr>), held := insert (next_obj w) (held w)\<rparr>"

definition pin_up :: "bpf_obj \<Rightarrow> string \<Rightarrow> bpf_world \<Rightarrow> bpf_world" where
  "pin_up ob path w = w\<lparr>lib_calls := Suc (lib_calls w), bpffs := (bpffs w)(path \<mapsto> ob)\<rparr>"

lemma up_fields [simp]:
  "next_obj (link_up p sk w) = Suc (next_obj w)" "held (link_up p sk w) = insert (next_obj w) (held w)"
  "bpffs (link_up p sk w) = bpffs w" "link_of (link_up p sk w) = (link_of w)(next_obj w \<mapsto> \<lparr>prog_name = p, prog_maps = sk\<rparr>)"
  "next_obj (pin_up ob path w) = next_obj w" "held (pin_up ob path w) = held w" "link_of (pin_up ob path w) = link_of w"
  "bpffs (pin_up ob path w) = (bpffs w)(path \<mapsto> ob)"
  by (simp_all add: link_up_def pin_up_def)

lemma attach_calm: "\<forall>n. ans n = None \<Longrightarrow> bpf_program_attach ans prog sk w = (Inr (next_obj w), link_up prog sk w)"
  by (simp add: lib_defs Let_def link_up_def)

lemma pin_calm: "\<forall>n. ans n = None \<Longrightarrow> bpffs w path = None \<Longrightarrow> bpf_pin ans ob path w = (None, pin_up ob path w)"
  by (simp add: lib_defs pin_up_def)

lemma omp_thread_reg_loader_pins:
  assumes "\<forall>n. ans n = None" and "exiting k" and "\<forall>(path, prog) \<in> omp_pins. bpffs w path = None" and "bpffs w PIN_OMP_THREADS_MAP = None"
    and "world_ok w"
  shows "\<exists>w'. omp_thread_reg_loader_main ans exiting w = Some (0, w') \<and> held w' = held w \<and>
    (\<forall>(path, prog) \<in> omp_pins. \<exists>l m. bpffs w' path = Some (Link_obj l) \<and> link_of w' l = Some \<lparr>prog_name = prog, prog_maps = m\<rparr> \<and>
       attached w' l)"
proof -
  let ?s = "next_obj w" and ?b = "bpffs w"
  obtain n where wait: "wait_exiting exiting 0 = Some n" using wait_exiting_returns [of exiting k 0] assms(2) by auto
  have free: "?b PIN_MASTER_LINK = None" "?b PIN_SWITCH_LINK = None" "?b PIN_EXIT_LINK = None" "?b PIN_EXEC_LINK = None"
    using assms(3) by (auto simp: omp_pins_def)
  have distinct: "distinct [PIN_MASTER_LINK, PIN_SWITCH_LINK, PIN_EXIT_LINK, PIN_EXEC_LINK, PIN_OMP_THREADS_MAP]"
      "distinct [PIN_OMP_THREADS_MAP, PIN_EXEC_LINK, PIN_EXIT_LINK, PIN_SWITCH_LINK, PIN_MASTER_LINK]"
    by (simp_all add: omp_path_defs)
  have new: "l \<notin> held w" if "?s \<le> l" for l using assms(5) that by (auto simp: world_ok_def)
  let ?m = "[''omp_threads_map'' \<mapsto> ?s]" and ?ls = "[?s + 5, ?s + 4, ?s + 3, ?s + 2, ?s + 1]"
  obtain w0 where 0: "skel_open ans w = (None, w0)" "bpffs w0 = ?b" "held w0 = held w" "next_obj w0 = ?s"
    using assms(1) by (simp add: lib_defs)
  obtain w1 where 1: "skel_load ans [''omp_threads_map''] (\<lambda>_. None) w0 = (None, ?m, w1)" "bpffs w1 = ?b" "held w1 = held w"
      "next_obj w1 = ?s + 1"
    using assms(1) 0 by (simp add: lib_defs)
  define w2 where "w2 = pin_up (Map_obj (bpf_map_fd ?m ''omp_threads_map'')) PIN_OMP_THREADS_MAP (pin_up (Link_obj (?s + 1)) PIN_MASTER_LINK
    (link_up ''capture_omp_worker_threads'' ?m (link_up ''capture_omp_master_thread'' ?m w1)))"
  define w3 where "w3 = pin_up (Link_obj (?s + 4)) PIN_EXIT_LINK (link_up ''remove_exited_omp_thread'' ?m
    (pin_up (Link_obj (?s + 3)) PIN_SWITCH_LINK (link_up ''handle_switch'' ?m w2)))"
  define w4 where "w4 = pin_up (Link_obj (?s + 5)) PIN_EXEC_LINK (link_up ''remove_execed_omp_thread'' ?m w3)"
  have "omp_thread_reg_loader_main ans exiting w = Some (loader_cleanup ?ls None w4)"
    using 0 1 wait free distinct assms(4) unfolding w4_def w3_def w2_def
    by (simp add: omp_thread_reg_loader_main_def attach_calm [OF assms(1)] pin_calm [OF assms(1)] Let_def numeral_eq_Suc)
  moreover have "held (snd (loader_cleanup ?ls None w4)) = held w"
    using 1 new by (auto simp: loader_cleanup_def fold_link_destroy lib_defs w4_def w3_def w2_def)
  moreover have "bpffs w4 PIN_MASTER_LINK = Some (Link_obj (?s + 1))" "bpffs w4 PIN_SWITCH_LINK = Some (Link_obj (?s + 3))"
      "bpffs w4 PIN_EXIT_LINK = Some (Link_obj (?s + 4))" "bpffs w4 PIN_EXEC_LINK = Some (Link_obj (?s + 5))"
    using distinct by (auto simp: w4_def w3_def w2_def)
  moreover have "link_of w4 (?s + 1) = Some \<lparr>prog_name = ''capture_omp_master_thread'', prog_maps = ?m\<rparr>"
      "link_of w4 (?s + 3) = Some \<lparr>prog_name = ''handle_switch'', prog_maps = ?m\<rparr>"
      "link_of w4 (?s + 4) = Some \<lparr>prog_name = ''remove_exited_omp_thread'', prog_maps = ?m\<rparr>"
      "link_of w4 (?s + 5) = Some \<lparr>prog_name = ''remove_execed_omp_thread'', prog_maps = ?m\<rparr>"
    using 1(4) by (simp_all add: w4_def w3_def w2_def)
  moreover have "bpffs (snd (loader_cleanup ?ls None w4)) = bpffs w4" "link_of (snd (loader_cleanup ?ls None w4)) = link_of w4"
    by (simp_all add: loader_cleanup_def fold_link_destroy lib_defs)
  ultimately show ?thesis
    by (intro exI [of _ "snd (loader_cleanup ?ls None w4)"]) (simp add: omp_pins_def attached_def loader_cleanup_def; blast)
qed

subsection \<open>Loaders that report success on failure\<close>

text \<open>
  The loaders that return \<open>err ? 1 : 0\<close> take some failing exits with \<open>err\<close> still 0: the exit code
  is 0 although nothing is attached.
\<close>

lemma h2g_msg_timer_loader_lost_error:
  assumes "ans (lib_calls w) = None" and "ans (Suc (lib_calls w)) = None" and "ans (Suc (Suc (lib_calls w))) = Some e"
  shows "\<exists>w'. h2g_msg_timer_loader_main ans exiting w = Some (0, w') \<and> held w' = held w \<and> bpffs w' = bpffs w"
  using assms by (simp add: h2g_msg_timer_loader_main_def lib_defs loader_cleanup_def)

text \<open>
  The timer loader does not insist on the pinned maps: when none can be opened, it serves all the
  same, on new, empty maps that no other program sees.
\<close>

lemma timer_loader_private_maps:
  assumes "\<forall>n. ans n = None" and "\<forall>(name, path) \<in> shared_maps. bpffs w path = None"
    and "bpffs w PIN_PATH_GLOBAL_TRACKER_STATE = None"
  shows "\<exists>l w' m. timer_loader_main ans w = (Serving [l], w') \<and>
    link_of w' l = Some \<lparr>prog_name = ''phantom_timer_handler'', prog_maps = m\<rparr> \<and>
    (\<forall>(name, path) \<in> shared_maps. \<exists>i. m name = Some i \<and> next_obj w \<le> i)"
  using assms by (auto simp: timer_loader_main_def reuse_pinned_def lib_defs shared_maps_def Let_def)

lemma omp_thread_reg_loader_lost_error:
  assumes "\<forall>n. ans n = None" and "world_ok w" and "bpffs w PIN_MASTER_LINK \<noteq> None"
  shows "\<exists>w'. omp_thread_reg_loader_main ans exiting w = Some (0, w') \<and> held w' = held w \<and> bpffs w' = bpffs w"
  using assms by (auto simp: omp_thread_reg_loader_main_def lib_defs loader_cleanup_def Let_def world_ok_def)

subsection \<open>Properties\<close>

text \<open>
  C40. The loader of the context-switch handler, whatever calls fail: it exits with 0 or 1, leaves
  no skeleton open, holds no link, and never removes or replaces what is pinned. Of its
  descriptors it closes that of the template map; those of the pinned maps it reuses it never
  closes, so at most as many stay open as maps were pinned before, and exactly as many when it
  succeeds. It exits with 0
  only when the handler is attached through the pinned link and runs on the very maps that are
  pinned as \<open>vms\<close>, \<open>vcpus\<close> and \<open>map_registry\<close>, those of an earlier load if they were there.
  While the link of an earlier load is pinned it exits with 1 and pins nothing.
\<close>

theorem create_maps_loader_main_pins:
  assumes "world_ok w" and "create_maps_loader_main ans w = (code, w')"
  shows "skels w' = skels w \<and> held w' = held w \<and> (\<forall>path ob. bpffs w path = Some ob \<longrightarrow> bpffs w' path = Some ob) \<and>
    obj_fds w \<le> obj_fds w' \<and> obj_fds w' \<le> obj_fds w + int (card (pinned_before w)) \<and>
    (code = 0 \<longrightarrow> obj_fds w' = obj_fds w + int (card (pinned_before w))) \<and>
    (code = 0 \<or> code = 1) \<and> (code = 0 \<longrightarrow> switch_handler_loaded w') \<and>
    (bpffs w PIN_PATH_LINK \<noteq> None \<longrightarrow> code = 1 \<and> bpffs w' = bpffs w)"
proof -
  have "create_maps_outcome w (code, w')" using create_maps_result [OF assms(1), of ans] assms(2) by simp
  then show ?thesis
    using keeps_pinned create_maps_fds [OF assms(2)] by (auto simp: create_maps_outcome_def ran_part_def split: if_splits)
qed

definition world_example :: bpf_world where
  "world_example = \<lparr>bpffs = (\<lambda>_. None), link_of = (\<lambda>_. None), held = {}, state_of = (\<lambda>_. tracker_state_zero),
     next_obj = 0, skels = 0, obj_fds = 3, lib_calls = 0\<rparr>"

lemma world_example_ok: "world_ok world_example"
  by (simp add: world_ok_def world_example_def)

theorem create_maps_loader_main_pins_witness:
  "switch_handler_loaded (snd (create_maps_loader_main (\<lambda>_. None) world_example)) \<and>
   fst (create_maps_loader_main (\<lambda>_. None) (snd (create_maps_loader_main (\<lambda>_. None) world_example))) = 1"
proof -
  let ?r = "create_maps_loader_main (\<lambda>_. None) world_example"
  have "fst ?r = 0" by code_simp
  then have e: "?r = (0, snd ?r)" by (metis prod.collapse)
  note 1 = create_maps_loader_main_pins [OF world_example_ok e]
  then have "world_ok (snd ?r)" by (simp add: world_ok_def world_example_def)
  note 2 = create_maps_loader_main_pins [OF this prod.collapse [symmetric], of "\<lambda>_. None"]
  have "switch_handler_loaded (snd ?r)" using 1 by simp
  moreover from this have "bpffs (snd ?r) PIN_PATH_LINK \<noteq> None" by (auto simp: switch_handler_loaded_def)
  ultimately show ?thesis using 2 by blast
qed

text \<open>
  C17. The host's eBPF programs work on the same maps: when the loader of the switch handler
  succeeded, the loader of the idle tracker serves after it, and nothing pinned was removed in
  between, a timer loader none of whose calls fails serves too. Its program then has the \<open>vms\<close>,
  \<open>vcpus\<close> and \<open>map_registry\<close> of the attached switch handler and the \<open>global_tracker_state\<close> of
  the programs of the idle tracker.
\<close>

theorem loaders_share_maps:
  assumes "world_ok w" and "create_maps_loader_main ans w = (0, w1)" and "keeps w1 w2" and "world_ok w2"
    and "global_running_tracker_loader_main ans' nb w2 = (Serving ls, w3)" and "keeps w3 w4" and "\<forall>n. ans'' n = None"
  shows "\<exists>l w5 m l0 m0. timer_loader_main ans'' w4 = (Serving [l], w5) \<and>
    link_of w5 l = Some \<lparr>prog_name = ''phantom_timer_handler'', prog_maps = m\<rparr> \<and> attached w5 l \<and>
    link_of w5 l0 = Some \<lparr>prog_name = ''phantom_switch_handler'', prog_maps = m0\<rparr> \<and> attached w5 l0 \<and>
    (\<forall>name \<in> {''vms'', ''vcpus'', ''map_registry''}. m name \<noteq> None \<and> m name = m0 name) \<and>
    (\<forall>l1 \<in> set ls. \<exists>n m1. link_of w5 l1 = Some \<lparr>prog_name = n, prog_maps = m1\<rparr> \<and>
       m ''global_tracker_state'' \<noteq> None \<and> m ''global_tracker_state'' = m1 ''global_tracker_state'')"
proof -
  have "create_maps_outcome w (0, w1)" using create_maps_result [OF assms(1), of ans] assms(2) by simp
  then obtain l0 m0 a b c where l0: "bpffs w1 PIN_PATH_LINK = Some (Link_obj l0)" "l0 < next_obj w1"
      "link_of w1 l0 = Some \<lparr>prog_name = ''phantom_switch_handler'', prog_maps = m0\<rparr>"
      and m0: "m0 ''vms'' = Some a" "bpffs w1 PIN_PATH_VMS = Some (Map_obj a)" "m0 ''vcpus'' = Some b"
      "bpffs w1 PIN_PATH_VCPUS = Some (Map_obj b)" "m0 ''map_registry'' = Some c" "bpffs w1 PIN_PATH_REGISTRY = Some (Map_obj c)"
    by (auto simp: create_maps_outcome_def switch_handler_loaded_def shared_maps_def)
  have "tracker_outcome nb w2 (Serving ls, w3)" using tracker_result [OF assms(4), of nb ans'] assms(5) by simp
  then obtain d where d: "bpffs w3 PIN_PATH_GLOBAL_TRACKER_STATE = Some (Map_obj d)" "keeps w2 w3"
      "\<forall>l1 \<in> set ls. l1 < next_obj w3 \<and> (\<exists>n m. link_of w3 l1 = Some \<lparr>prog_name = n, prog_maps = m\<rparr> \<and> m ''global_tracker_state'' = Some d)"
    by (auto simp: tracker_outcome_def ran_part_def)
  have k: "keeps w1 w4" using keeps_trans [OF keeps_trans [OF assms(3) d(2)] assms(6)] .
  note pinned = keeps_pinned [OF k m0(2)] keeps_pinned [OF k m0(4)] keeps_pinned [OF k m0(6)] keeps_pinned [OF assms(6) d(1)]
  obtain l w5 m where t: "timer_loader_main ans'' w4 = (Serving [l], w5)" "ran_part 1 {l} w4 w5" "bpffs w5 = bpffs w4"
      "link_of w5 l = Some \<lparr>prog_name = ''phantom_timer_handler'', prog_maps = m\<rparr>"
      and m: "m ''vms'' = Some a" "m ''vcpus'' = Some b" "m ''map_registry'' = Some c" "m ''global_tracker_state'' = Some d"
    using timer_result [OF assms(7) pinned] by blast
  have k5: "keeps w1 w5" "keeps w3 w5" using keeps_trans [OF k] keeps_trans [OF assms(6)] ran_part_keeps [OF t(2)] by blast+
  have "attached w5 l" using t(2,4) by (simp add: attached_def ran_part_def)
  moreover have "link_of w5 l0 = Some \<lparr>prog_name = ''phantom_switch_handler'', prog_maps = m0\<rparr>" "attached w5 l0"
    using keeps_link [OF k5(1) l0(2)] keeps_pinned [OF k5(1) l0(1)] l0(3) by (auto simp: attached_def)
  moreover have "\<forall>l1 \<in> set ls. \<exists>n m1. link_of w5 l1 = Some \<lparr>prog_name = n, prog_maps = m1\<rparr> \<and> m1 ''global_tracker_state'' = Some d"
    using d(3) keeps_link [OF k5(2)] by metis
  ultimately show ?thesis
    using t(1,4) m m0 by (intro exI [of _ l] exI [of _ w5] exI [of _ m] exI [of _ l0] exI [of _ m0]) auto
qed

theorem loaders_share_maps_witness:
  "\<exists>w3 l w5. snd (global_running_tracker_loader_main (\<lambda>_. None) 8 (snd (create_maps_loader_main (\<lambda>_. None) world_example))) = w3 \<and>
     timer_loader_main (\<lambda>_. None) w3 = (Serving [l], w5) \<and> attached w5 l"
proof -
  let ?w1 = "snd (create_maps_loader_main (\<lambda>_. None) world_example)"
  let ?t = "global_running_tracker_loader_main (\<lambda>_. None) 8 ?w1"
  have "fst (create_maps_loader_main (\<lambda>_. None) world_example) = 0" by code_simp
  then have e: "create_maps_loader_main (\<lambda>_. None) world_example = (0, ?w1)" by (metis prod.collapse)
  have "create_maps_outcome world_example (0, ?w1)" using create_maps_result [OF world_example_ok, of "\<lambda>_. None"] e by simp
  then have ok: "world_ok ?w1" by (auto simp: create_maps_outcome_def ran_part_def world_ok_def world_example_def)
  have "bpffs ?w1 PIN_PATH_GLOBAL_TRACKER_STATE = None" by code_simp
  then obtain ls w3 where t: "?t = (Serving ls, w3)" using tracker_serves [of "\<lambda>_. None" 8 ?w1] by auto
  show ?thesis using loaders_share_maps [OF world_example_ok e keeps_refl ok t keeps_refl, of "\<lambda>_. None"] t by auto
qed

end
