(* ===== verification/Observers.thy ===== *)
theory Observers
  imports Omp_Tracker Loaders
begin

text \<open>
  The programs that observe OpenMP threads in a guest during experiments,
  \<^verbatim>\<open>test/barrier_sync\<close> and \<^verbatim>\<open>test/dynamic_dop\<close>: handlers that print a line when an
  event happens, and their loaders. The handlers of \<^verbatim>\<open>barrier_sync\<close> look threads up in the
  map the OpenMP tracker has pinned.
\<close>

subsection \<open>The handlers\<close>

text \<open>A line of the trace: the CPU, the thread and what is printed of it.\<close>

datatype trace_line =
    Preempted u32 u32
  | Futex_wait u32 u32
  | Do_wait u32 u32
  | Phantom_average u32 u32 s64
  | Dop s32 s32 s32
  | Dyn_max_threads s32

definition FUTEX_WAIT :: u64 where
  "FUTEX_WAIT = 0"

definition gomp_switch_handler :: "(u32 \<Rightarrow> u32 option) \<Rightarrow> u32 \<Rightarrow> u32 \<Rightarrow> trace_line list" where
  "gomp_switch_handler omp_threads core prev_pid = (if omp_threads prev_pid \<noteq> None then [Preempted core prev_pid] else [])"

definition gomp_futex_enter :: "(u32 \<Rightarrow> u32 option) \<Rightarrow> u32 \<Rightarrow> u64 \<Rightarrow> u64 \<Rightarrow> trace_line list" where
  "gomp_futex_enter omp_threads core pid_tgid arg1 =
     (let omp_tid = ucast pid_tgid in
      if omp_threads omp_tid \<noteq> None \<and> arg1 = FUTEX_WAIT then [Futex_wait core omp_tid] else [])"

definition gomp_do_wait_handler :: "(u32 \<Rightarrow> u32 option) \<Rightarrow> u32 \<Rightarrow> u64 \<Rightarrow> trace_line list" where
  "gomp_do_wait_handler omp_threads core pid_tgid =
     (let omp_tid = ucast pid_tgid in if omp_threads omp_tid \<noteq> None then [Do_wait core omp_tid] else [])"

text \<open>\<open>usdt_arg i\<close> is the answer of \<open>bpf_usdt_arg\<close> for argument \<open>i\<close> of the probe.\<close>

definition gomp_phantom_average_handler :: "(nat \<Rightarrow> errno + u64) \<Rightarrow> u32 \<Rightarrow> u64 \<Rightarrow> trace_line list" where
  "gomp_phantom_average_handler usdt_arg core pid_tgid =
     (case usdt_arg 0 of Inl e \<Rightarrow> [] | Inr phantom_avg \<Rightarrow> [Phantom_average core (ucast pid_tgid) phantom_avg])"

record juunansei_decision =
  jd_host_watermark :: u64
  jd_timestamp :: u64
  jd_phantom_average :: s32
  jd_decision_nr :: s32
  jd_curr_dop :: s32
  jd_prev_dop :: s32
  jd_active_dop :: s32

record juunansei_context =
  jc_phantom_average :: s32
  jc_idle_average :: s32
  jc_min_idle_average :: s32

text \<open>
  Reading a structure of 64 bytes at a user address; \<open>readable\<close> is whether
  \<open>bpf_probe_read_user\<close> can.
\<close>

definition read_decision :: "mem \<Rightarrow> nat \<Rightarrow> juunansei_decision" where
  "read_decision um a = \<lparr>jd_host_watermark = load_le 8 um a, jd_timestamp = load_le 8 um (a + 8),
     jd_phantom_average = ucast (load_le 4 um (a + 16)), jd_decision_nr = ucast (load_le 4 um (a + 20)),
     jd_curr_dop = ucast (load_le 4 um (a + 24)), jd_prev_dop = ucast (load_le 4 um (a + 28)),
     jd_active_dop = ucast (load_le 4 um (a + 32))\<rparr>"

definition read_context :: "mem \<Rightarrow> nat \<Rightarrow> juunansei_context" where
  "read_context um a = \<lparr>jc_phantom_average = ucast (load_le 4 um a), jc_idle_average = ucast (load_le 4 um (a + 4)),
     jc_min_idle_average = ucast (load_le 4 um (a + 8))\<rparr>"

definition gomp_dop_decision_handler :: "(nat \<Rightarrow> errno + u64) \<Rightarrow> (u64 \<Rightarrow> nat \<Rightarrow> bool) \<Rightarrow> mem \<Rightarrow> trace_line list" where
  "gomp_dop_decision_handler usdt_arg readable um =
     (case usdt_arg 0 of Inl e \<Rightarrow> [] | Inr decision_addr \<Rightarrow>
     (case usdt_arg 2 of Inl e \<Rightarrow> [] | Inr context_addr \<Rightarrow>
        if \<not> readable decision_addr 64 then []
        else if \<not> readable context_addr 64 then []
        else
          let decision = read_decision um (unat decision_addr); context = read_context um (unat context_addr)
          in [Dop (jd_curr_dop decision) (jd_phantom_average decision) (jc_idle_average context)]))"

definition gomp_dyn_max_threads_handler :: "(nat \<Rightarrow> errno + u64) \<Rightarrow> trace_line list" where
  "gomp_dyn_max_threads_handler usdt_arg = (case usdt_arg 0 of Inl e \<Rightarrow> [] | Inr dop \<Rightarrow> [Dyn_max_threads (ucast dop)])"

subsection \<open>The loaders\<close>

text \<open>
  Attaching the programs one after the other: on a failure the links so far are destroyed, the
  last one first; when all are attached the process waits for a signal.
\<close>

primrec attach_all ::
  "answers \<Rightarrow> (nat \<Rightarrow> bool) \<Rightarrow> string list \<Rightarrow> skeleton \<Rightarrow> nat list \<Rightarrow> bpf_world \<Rightarrow> (nat \<times> bpf_world) option" where
  "attach_all ans exiting [] sk ls w = map_option (\<lambda>_. loader_cleanup ls None w) (wait_exiting exiting 0)"
| "attach_all ans exiting (p # ps) sk ls w =
     (case bpf_program_attach ans p sk w of
        (Inl e, w1) \<Rightarrow> Some (loader_cleanup ls (Some e) w1)
      | (Inr l, w1) \<Rightarrow> attach_all ans exiting ps sk (l # ls) w1)"

definition barrier_sync_progs :: "string list" where
  "barrier_sync_progs = [''gomp_switch_handler'', ''gomp_futex_enter'', ''gomp_do_wait_handler'', ''gomp_phantom_average_handler'']"

definition barrier_sync_loader_main :: "answers \<Rightarrow> (nat \<Rightarrow> bool) \<Rightarrow> bpf_world \<Rightarrow> (nat \<times> bpf_world) option" where
  "barrier_sync_loader_main ans exiting w =
     (let (r0, w0) = skel_open ans w in
      if r0 \<noteq> None then Some (1, w0) else
      case bpf_obj_get ans PIN_OMP_THREADS_MAP w0 of
        (Inl e, w1) \<Rightarrow> Some (loader_cleanup [] (Some e) w1)
      | (Inr ob, w1) \<Rightarrow>
      let (r2, sk2, w2) = bpf_map_reuse_fd ans ''omp_threads_map'' ob (\<lambda>_. None) w1 in
      if r2 \<noteq> None then Some (loader_cleanup [] r2 (close_fd w2)) else
      let w3 = close_fd w2; (err, sk, w4) = skel_load ans [''omp_threads_map''] sk2 w3 in
      if err \<noteq> None then Some (loader_cleanup [] err w4) else
      attach_all ans exiting barrier_sync_progs sk [] w4)"

definition dop_decision_loader_main :: "answers \<Rightarrow> (nat \<Rightarrow> bool) \<Rightarrow> bpf_world \<Rightarrow> (nat \<times> bpf_world) option" where
  "dop_decision_loader_main ans exiting w =
     (let (r0, w0) = skel_open ans w in
      if r0 \<noteq> None then Some (1, w0) else
      let (r1, sk, w1) = skel_load ans [] (\<lambda>_. None) w0 in
      if r1 \<noteq> None then Some (1, skel_destroy w1) else
      attach_all ans exiting [''gomp_dop_decision_handler'', ''gomp_dyn_max_threads_handler''] sk [] w1)"

subsection \<open>What the loaders leave behind\<close>

lemma ran_loader_cleanup:
  "world_ok w \<Longrightarrow> ran_part 1 (set ls) w w' \<Longrightarrow> ran_part 0 {} w (snd (loader_cleanup ls e w')) \<and> bpffs (snd (loader_cleanup ls e w')) = bpffs w'"
  using ran_destroy_links by (simp add: loader_cleanup_def fold_link_destroy lib_defs)

lemma attach_all_result:
  assumes "world_ok w" and "ran_part 1 (set ls) w w'" and "attach_all ans exiting ps sk ls w' = Some (c, w'')"
  shows "ran_part 0 {} w w'' \<and> bpffs w'' = bpffs w'"
  using assms(2,3)
proof (induction ps arbitrary: ls w')
  case Nil
  then show ?case using ran_loader_cleanup [OF assms(1), of ls w' None] by (auto simp: loader_cleanup_def)
next
  case (Cons p ps)
  obtain r w1 where e: "bpf_program_attach ans p sk w' = (r, w1)" by fastforce
  note res = attach_result [OF e]
  show ?case
  proof (cases r)
    case (Inl x)
    then have "ran_part 1 (set ls) w w1" using res ran_part_seq [OF Cons.prems(1), of 0 "{}" w1] by simp
    then show ?thesis using ran_loader_cleanup [OF assms(1), of ls w1 "Some x"] Cons.prems(2) e Inl res by simp
  next
    case (Inr l)
    then have "ran_part 1 (set (l # ls)) w w1" using res ran_part_trans [OF Cons.prems(1), of 0 "{l}" w1 1 "set (l # ls)"] by simp
    from Cons.IH [OF this] show ?thesis using Cons.prems(2) e Inr res by simp
  qed
qed

text \<open>A signal ends the loader; without failures it exits with 0.\<close>

lemma attach_all_returns:
  assumes "exiting k"
  shows "\<exists>r. attach_all ans exiting ps sk ls w = Some r"
proof (induction ps arbitrary: ls w)
  case Nil
  then show ?case using wait_exiting_returns [of exiting k 0] assms by auto
next
  case (Cons p ps)
  then show ?case by (auto split: prod.splits sum.splits)
qed

lemma attach_all_calm:
  assumes "\<forall>n. ans n = None" and "exiting k"
  shows "\<exists>w'. attach_all ans exiting ps sk ls w = Some (0, w') \<and> (\<forall>l<Loaders.next_obj w. link_of w' l = link_of w l) \<and>
    (\<forall>p \<in> set ps. \<exists>l. link_of w' l = Some \<lparr>prog_name = p, prog_maps = sk\<rparr>)"
proof (induction ps arbitrary: ls w)
  case Nil
  then show ?case using wait_exiting_returns [of exiting k 0] assms(2) by (auto simp: loader_cleanup_def fold_link_destroy lib_defs)
next
  case (Cons p ps)
  obtain w' where w': "attach_all ans exiting ps sk (Loaders.next_obj w # ls) (link_up p sk w) = Some (0, w')"
    "\<forall>l<Suc (Loaders.next_obj w). link_of w' l = link_of (link_up p sk w) l"
    "\<forall>p \<in> set ps. \<exists>l. link_of w' l = Some \<lparr>prog_name = p, prog_maps = sk\<rparr>"
    using Cons [of "Loaders.next_obj w # ls" "link_up p sk w"] by auto
  have "\<exists>l. link_of w' l = Some \<lparr>prog_name = p, prog_maps = sk\<rparr>" by (rule exI [of _ "Loaders.next_obj w"]) (use w'(2) in simp)
  then show ?case using w' by (simp add: attach_calm [OF assms(1)])
qed

lemma ran_obj_get:
  "bpf_obj_get ans path w = (r, w1) \<Longrightarrow> ran_part 0 {} w w1 \<and> bpffs w1 = bpffs w \<and> (bpffs w path = None \<longrightarrow> (\<exists>e. r = Inl e))"
  by (auto simp: lib_defs ran_part_def keeps_def split: option.splits)

lemma ran_reuse_fd:
  "bpf_map_reuse_fd ans name ob sk w = (r, sk', w1) \<Longrightarrow> ran_part 0 {} w w1 \<and> bpffs w1 = bpffs w"
  by (auto simp: lib_defs ran_part_def keeps_def split: bpf_obj.splits)

text \<open>
  The loader of \<^verbatim>\<open>barrier_sync\<close>, whatever calls fail: when it returns nothing of it is left
  in the kernel. It refuses to run without the map of the tracker.
\<close>

lemma barrier_sync_leaves_nothing:
  assumes "world_ok w" and "barrier_sync_loader_main ans exiting w = Some (c, w')"
  shows "ran_part 0 {} w w' \<and> bpffs w' = bpffs w \<and> (bpffs w PIN_OMP_THREADS_MAP = None \<longrightarrow> c = 1)"
proof -
  obtain r0 w0 where 0: "skel_open ans w = (r0, w0)" by fastforce
  obtain g w1 where 1: "bpf_obj_get ans PIN_OMP_THREADS_MAP w0 = (g, w1)" by fastforce
  note run = assms(2) [unfolded barrier_sync_loader_main_def 0 1 Let_def prod.case]
  show ?thesis
  proof (cases "r0 = None")
    case False
    then show ?thesis using run ran_open [OF 0] by auto
  next
    case True
    then have w0: "ran_part 1 {} w w0" "bpffs w0 = bpffs w" using ran_open [OF 0] by auto
    have w1: "ran_part 1 {} w w1" "bpffs w1 = bpffs w" using ran_part_seq [OF w0(1), of 0 "{}" w1] ran_obj_get [OF 1] w0(2) by auto
    show ?thesis
    proof (cases g)
      case (Inl e)
      then show ?thesis using run True ran_loader_cleanup [OF assms(1), of "[]" w1 "Some e"] w1 by (simp add: loader_cleanup_def)
    next
      case (Inr ob)
      obtain r2 sk2 w2 where 2: "bpf_map_reuse_fd ans ''omp_threads_map'' ob (\<lambda>_. None) w1 = (r2, sk2, w2)" by (rule prod_cases3)
      have w2: "ran_part 1 {} w (close_fd w2)" "bpffs (close_fd w2) = bpffs w"
        using ran_part_seq [OF ran_part_seq [OF w1(1), of 0 "{}" w2], of 0 "{}" "close_fd w2"] ran_reuse_fd [OF 2] ran_close w1(2) by auto
      obtain r3 sk w3 where 3: "skel_load ans [''omp_threads_map''] sk2 (close_fd w2) = (r3, sk, w3)" by (rule prod_cases3)
      have w3: "ran_part 1 {} w w3" "bpffs w3 = bpffs w" using ran_part_seq [OF w2(1), of 0 "{}" w3] skel_load_result [OF 3] w2(2) by auto
      have pinned: "bpffs w PIN_OMP_THREADS_MAP \<noteq> None" using ran_obj_get [OF 1] Inr w0(2) by auto
      show ?thesis
        using run True Inr ran_loader_cleanup [OF assms(1), of "[]" "close_fd w2" r2] ran_loader_cleanup [OF assms(1), of "[]" w3 r3] w2 w3
          attach_all_result [OF assms(1), of "[]" w3 ans exiting barrier_sync_progs sk c w'] pinned
        by (auto simp: 2 3 loader_cleanup_def split: if_splits)
    qed
  qed
qed

text \<open>
  A loader of \<^verbatim>\<open>barrier_sync\<close> that is not refused anything attaches its four programs to
  the map the tracker has pinned, and exits with 0 at a signal.
\<close>

lemma barrier_sync_observes:
  assumes "\<forall>n. ans n = None" and "exiting k" and "bpffs w PIN_OMP_THREADS_MAP = Some (Map_obj m)"
  shows "\<exists>w'. barrier_sync_loader_main ans exiting w = Some (0, w') \<and>
    (\<forall>p \<in> set barrier_sync_progs. \<exists>l maps. link_of w' l = Some \<lparr>prog_name = p, prog_maps = maps\<rparr> \<and> maps ''omp_threads_map'' = Some m)"
proof -
  obtain w0 where 0: "skel_open ans w = (None, w0)" "bpffs w0 = bpffs w" using skel_open_calm [OF assms(1)] by metis
  obtain w1 where 1: "bpf_obj_get ans PIN_OMP_THREADS_MAP w0 = (Inr (Map_obj m), w1)" using assms(1,3) 0(2) by (simp add: lib_defs)
  obtain w2 where 2: "bpf_map_reuse_fd ans ''omp_threads_map'' (Map_obj m) (\<lambda>_. None) w1 = (None, [''omp_threads_map'' \<mapsto> m], w2)"
    using assms(1) by (simp add: lib_defs)
  obtain sk w3 where 3: "skel_load ans [''omp_threads_map''] [''omp_threads_map'' \<mapsto> m] (close_fd w2) = (None, sk, w3)"
      "sk ''omp_threads_map'' = Some m"
    using skel_load_calm [OF assms(1), of "[''omp_threads_map'']" "[''omp_threads_map'' \<mapsto> m]" "close_fd w2"] by (metis fun_upd_same option.distinct(1))
  obtain w' where w': "attach_all ans exiting barrier_sync_progs sk [] w3 = Some (0, w')"
      "\<forall>p \<in> set barrier_sync_progs. \<exists>l. link_of w' l = Some \<lparr>prog_name = p, prog_maps = sk\<rparr>"
    using attach_all_calm [of ans exiting k barrier_sync_progs sk "[]" w3] assms(1,2) by auto
  have "barrier_sync_loader_main ans exiting w = Some (0, w')"
    by (simp add: barrier_sync_loader_main_def 0(1) 1 2 3(1) w'(1))
  then show ?thesis using w'(2) 3(2) by blast
qed

lemma dop_decision_leaves_nothing:
  assumes "world_ok w" and "dop_decision_loader_main ans exiting w = Some (c, w')"
  shows "ran_part 0 {} w w' \<and> bpffs w' = bpffs w"
proof -
  obtain r0 w0 where 0: "skel_open ans w = (r0, w0)" by fastforce
  obtain r1 sk w1 where 1: "skel_load ans [] (\<lambda>_. None) w0 = (r1, sk, w1)" by (rule prod_cases3)
  note run = assms(2) [unfolded dop_decision_loader_main_def 0 1 Let_def prod.case]
  show ?thesis
  proof (cases "r0 = None")
    case False
    then show ?thesis using run ran_open [OF 0] by auto
  next
    case True
    have w1: "ran_part 1 {} w w1" "bpffs w1 = bpffs w" using ran_part_seq [of 1 "{}" w w0 0 "{}" w1] ran_open [OF 0] skel_load_result [OF 1] True by auto
    then show ?thesis
      using run True ran_destroy [OF w1(1)] attach_all_result [OF assms(1), of "[]" w1] by (auto simp: skel_destroy_def simp del: attach_all.simps split: if_splits)
  qed
qed

subsection \<open>What the handlers print\<close>

text \<open>
  Whenever the guest has told the host that a vCPU runs an OpenMP thread, the switch away from
  this thread is printed.
\<close>

lemma reported_thread_printed:
  assumes "guest_ready pg h" and "placed r" and "\<forall>i<NR_GUEST_IVSHMEM_MSGS pg. guest_slot h i = 0"
    and "(omp_step (g2h_report pg))\<^sup>*\<^sup>* (omp_start h r) y" and "unat cpu < NR_GUEST_IVSHMEM_MSGS pg"
    and "guest_slot (omp_shm (omp y)) (unat cpu) = 1"
  shows "gomp_switch_handler (omp_threads_map (omp y)) cpu (running y cpu) = [Preempted cpu (running y cpu)]"
proof -
  have "g2h.reports pg (omp_start h r)" using assms(1-3) by (simp add: g2h.reports_def omp_start_def)
  from g2h.run_reports [OF assms(4) this] assms(5,6) have "omp_threads_map (omp y) (running y cpu) \<noteq> None"
    by (auto simp: g2h.reports_def)
  then show ?thesis by (simp add: gomp_switch_handler_def)
qed

text \<open>
  It is printed as a preemption whatever the state of the thread: the handler does not look at
  it. A wait on a private futex, operation 128, is not recognised as a wait.
\<close>

lemma private_futex_not_printed: "gomp_futex_enter omp_threads core pid_tgid 128 = []"
  by (simp add: gomp_futex_enter_def FUTEX_WAIT_def)

end
