(* ===== verification/Spec2Isabelle.thy ===== *)
theory Spec2Isabelle
  imports Switch_Race Idle_Tracker H2G_Timer Backend_Tool Guest_Readers Observers
begin

text \<open>
  \<^bold>\<open>Phantom tracker\<close> counts, for every virtual machine of a host, the vCPUs that are preempted while
  they run an OpenMP thread, and tells the guests. This development models the program's kernel
  modules, eBPF programs and tools, and proves what they keep, compute and release.

  \<^bold>\<open>The parts and how they interact.\<close> A host module
  (\<^verbatim>\<open>pvsched-shmem/host/host_ivshmem.c\<close>) owns one shared-memory backend per VM: a page with a
  header, a page of messages from host to guest, and pages with one slot per vCPU from guest to
  host. The command \<^verbatim>\<open>register_vm_backend\<close> asks it for a backend, QEMU shows the backend to the guest
  as BAR 2 of a PCI device, and the guest module (\<^verbatim>\<open>pvsched-shmem/guest/guest_ivshmem.c\<close>) binds it.
  In the guest an eBPF program (\<^verbatim>\<open>omp_thread_reg.bpf.c\<close>) records the OpenMP threads and writes, at
  each context switch, whether the vCPU now runs one. On the host another
  (\<^verbatim>\<open>create_maps.bpf.c\<close>) reads that slot when a vCPU thread is switched and counts phantoms; a timer
  (\<^verbatim>\<open>timer.bpf.c\<close>) averages the counts over its period and publishes the average to the guest
  together with the idle average of the host (\<^verbatim>\<open>global_running_tracker.bpf.c\<close>).
  \<^verbatim>\<open>register_vm.c\<close> fills the maps of these programs from QEMU's monitor, \<^verbatim>\<open>cleanup.c\<close> empties them, and
  the loaders attach the programs and share their maps through pinned paths.

  \<^bold>\<open>Theories and sources.\<close>
  \<^item> \<open>Pv_Prelude\<close>: machine words, error codes, little-endian memory, C strings, generic lemmas.
  \<^item> \<open>Pvsched_Abi\<close>: \<^verbatim>\<open>include/pvsched.h\<close>, \<^verbatim>\<open>include/pvsched_shmem.h\<close>. \<open>Slot_Channel\<close>: the contract of a
    page of message slots, a locale that \<open>Host_Ivshmem\<close> interprets and the two timers use.
  \<^item> \<open>Host_Ivshmem\<close>: \<^verbatim>\<open>host_ivshmem.c\<close>. The record \<open>host_registry\<close> is the static registry, \<open>devices\<close> its
    table of backends; a backend's memory is a function from offsets to bytes. \<open>orphans\<close> counts devices,
    debugfs files and memory a backend still held when its structure was freed.
  \<^item> \<open>Guest_Ivshmem\<close>: \<^verbatim>\<open>guest_ivshmem.c\<close>. The state holds the allocated device structures, the PCI
    resources taken, the lock and the published pointer, so that leaks and uses after free show.
  \<^item> \<open>Bpf_Maps\<close>: the structures of \<^verbatim>\<open>register_vm_bpf.h\<close> and \<^verbatim>\<open>phantom_tracker.h\<close>, the maps
    \<open>vms\<close>, \<open>vcpus\<close> and \<open>map_registry\<close>, and the names of the sample buffers.
  \<^item> \<open>Phantom_Switch\<close>: the handler of \<^verbatim>\<open>create_maps.bpf.c\<close>, run to its end; \<open>Cas_Counter\<close>: its counter
    updates as steps of several CPUs; \<open>Switch_Race\<close>: the whole handler as steps, one for each access to
    shared memory, on any number of CPUs and between arbitrary steps of the timer and the guests.
  \<^item> \<open>Sample_Average\<close>: the time-weighted mean shared by \<open>Phantom_Timer\<close> (\<^verbatim>\<open>timer.bpf.c\<close>) and
    \<open>Idle_Tracker\<close> (\<^verbatim>\<open>global_running_tracker.bpf.c\<close>), a locale interpreted on both callbacks;
    \<open>Bpf_Timer\<close>: the answers of the kernel's timer calls, and starting a timer once, a locale
    interpreted on both; \<open>H2G_Timer\<close>: \<^verbatim>\<open>h2g_msg_timer.bpf.c\<close>.
  \<^item> \<open>Omp_Tracker\<close>: \<^verbatim>\<open>omp_thread_reg.bpf.c\<close>, as steps of a guest with several vCPUs; its locale of
    run-state reports is interpreted on the guest module.
  \<^item> \<open>Linked_List\<close>, \<open>C_Text\<close>, \<open>Qmp_Client\<close>, \<open>Vm_Registration\<close>: \<^verbatim>\<open>linkedlist.c\<close>, the parts of the C
    library the tools use on text, \<^verbatim>\<open>register_vm.c\<close>, \<^verbatim>\<open>register_vm.h\<close> and \<^verbatim>\<open>cleanup.c\<close>.
    \<open>Backend_Tool\<close>: \<^verbatim>\<open>register_vm_backend.c\<close>.
  \<^item> \<open>Loaders\<close>: the five loaders, on a bpf file system that they share.
  \<^item> \<open>Pvsched_System\<close>: host and guest on the same memory, and the host's tools, handler and timer on
    the same maps. \<open>Guest_Readers\<close>: a process in the guest that maps the device, and
    \<^verbatim>\<open>test/shmem/guest/read_phantom_avg.c\<close>.
  \<^item> \<open>Observers\<close>: the programs of \<^verbatim>\<open>test/barrier_sync\<close> and \<^verbatim>\<open>test/dynamic_dop\<close> that print events of
    OpenMP threads, and their loaders.

  \<^bold>\<open>What the lemmas show.\<close> For the host module: registration keeps the registry well formed, writes
  and reads stay in the backend, a new backend's header gives the words the guest expects, load and unload
  balance, and unloading releases all that the backends hold. For the guest module: binding gives
  everything back when it fails, and mappings stay in the pages meant for them. For the handler: the
  phantom count of a VM is the number of its marked vCPUs, a switch changes the set of phantoms as
  documented except in two cases, where \<open>phantom_switch_handler_diverges\<close> shows what it does instead, and
  every change leaves a sample; when handlers of several CPUs interleave, the count stays in bounds and is off by at most
  the number of loops that ran out of attempts, which takes 24 steps of other CPUs, every handler returns,
  and one that is not disturbed does what the sequential handler does. For the timers: the published values are the
  exact means, every VM with buffers is served from its own buffers and history index, history slots are used
  in turn, a failed initialisation is retried, and what a failure of the other timer calls leads to. For the tools: the parser
  reads back any reply of the monitor's form, registration establishes the invariant the handler
  keeps, removal undoes it, nothing leaks whatever fails, and the maps stay well typed over every
  sequence of events. For the loaders: the programs share their maps, nothing pinned is replaced, and
  the descriptors the loader of the handler leaves open are those of the maps it reused; the observers leave nothing behind and see the map of the tracker.
  Across the parts: the guest binds every backend the host registers for at least one vCPU;
  a vCPU of the VM with the first backend becomes a phantom only while its guest runs a recorded OpenMP
  thread on it, while the vCPUs of other VMs are judged by the same guest (\<open>judged_by_first_guest\<close>), since the
  functions exported to eBPF use the first backend only; and a process in the guest reads through its mapping the mean the host's timer has published.

  \<^bold>\<open>Conventions.\<close> Fixed-width integers are words, signed ones as bit patterns read by \<open>sint\<close>; error
  codes are values of \<open>errno\<close>, and an operation that returns 0 or an error has the type
  \<open>errno option\<close>. Where an access may leave its memory or use what was freed, the result is an
  \<open>option\<close> and \<open>None\<close> is that fault. Calls into the kernel, libbpf or the C library that may fail
  take their answers from an environment or from arguments that are parameters, so theorems hold for every pattern of
  failures; the hypotheses on it are \<open>rounds_up_pow2\<close> and \<open>iomap_ok\<close>, what the kernel documents of
  \<open>roundup_pow_of_two\<close> and \<open>pci_iomap_range\<close>, or, where a property says so, that nothing fails. The page size
  is a parameter with \<open>page_size_ok\<close>, a multiple of the message size from 4096 to 65536. The clock is a function of
  the number of its readings.

  \<^bold>\<open>Bounds and loops.\<close> The retry loops of the counters have the source's 24 attempts, and in the
  interleaved models a CPU returns after at most 49 steps of its own in the loop and 108 in the handler. The loops over samples and names
  have the source's limits and are structural. Waiting for QEMU to listen and waiting for a signal may
  last for ever: they are partial functions, and what is proved of them says that they return once
  the peer answers or the signal comes. Everything else is total.

  \<^bold>\<open>Not modelled.\<close> The scripts that start virtual machines, the measurements and containers are
  outside the system, and so are the OpenMP workload of the tests and the two test programs that use a read
  operation the driver does not have. \<^verbatim>\<open>ebpf_compatibility.h\<close> only selects spellings for a kernel version. Text
  on the terminal and in the kernel log is left out, except where a program's output is its result,
  and so is the loop in which the loader of the idle tracker prints the state every second. The wake-up
  handler of \<^verbatim>\<open>create_maps.bpf.c\<close> is commented out in the source. A guest thread that calls
  \<^verbatim>\<open>execve\<close> keeps its id, as the source assumes; that of a thread other than the group leader would change. Concurrency is modelled where the
  code defends against it, in the context-switch handler, and for the guest as the order of its
  steps; elsewhere an operation runs to its end. In the interleaved handler the entries of the maps
  stay while a handler holds a pointer to them, the environment may change all but the flags and the
  counters between any two steps, which covers the timer however it interleaves, and memory is
  sequentially consistent, as it is between host and guest.
\<close>

end
